(* ===== verification/Prelude.thy ===== *)
theory Prelude
  imports Main "HOL-Library.Word" "HOL-Library.Product_Lexorder" "HOL-Library.Multiset"
begin

text \<open>
  The shared ground of the development: the machine integers of the Rust sources as words,
  little-endian byte strings, Rust \<open>String\<close>s as byte strings with a UTF-8 check, fallible
  results as sums, and the generic notion of a reachable state with its invariant rule.
  Everything the components share in their proofs is collected here.
\<close>

named_theorems bytes_simps "lengths and round trips of byte strings"
named_theorems row_simps "how an operation acts on one row"

section \<open>Machine integers\<close>

text \<open>
  A signed integer is a word read with \<^const>\<open>sint\<close>; an unsigned one is read with
  \<^const>\<open>unat\<close>. Rust's \<open>usize\<close> counts lengths of lists that exist, so it is \<^typ>\<open>nat\<close>.
\<close>

type_synonym byte = "8 word"
type_synonym i16 = "16 word"
type_synonym i32 = "32 word"
type_synonym i64 = "64 word"
type_synonym bytes = "byte list"
type_synonym uuid = nat

text \<open>A result is an error on the left or a value on the right.\<close>

type_synonym ('e, 'a) result = "'e + 'a"

definition is_ok :: "('e, 'a) result \<Rightarrow> bool" where
  "is_ok r = (case r of Inl _ \<Rightarrow> False | Inr _ \<Rightarrow> True)"

lemma is_ok_simps [simp]: "is_ok (Inr x)" "\<not> is_ok (Inl e)"
  by (simp_all add: is_ok_def)

lemma sint_bounds_i16: "- 32768 \<le> sint (w :: i16)" "sint (w :: i16) \<le> 32767"
  using sint_range_size [of w] by (simp_all add: word_size)

text \<open>Adding one to a signed word is exact below the largest value.\<close>

lemma sint_plus_one_i16:
  fixes w :: i16
  assumes "sint w < 32767"
  shows "sint (w + 1) = sint w + 1"
proof -
  have "- (2 ^ 15) \<le> sint w + 1" "sint w + 1 < 2 ^ 15"
    using assms sint_bounds_i16(1) [of w] by simp_all
  then have "signed_take_bit 15 (sint w + 1) = sint w + 1"
    by (rule signed_take_bit_int_eq_self)
  then show ?thesis by (simp add: sint_word_add)
qed

lemma sint_word_of_int_i64:
  assumes "- (2 ^ 63) \<le> n" "n < 2 ^ 63"
  shows "sint (word_of_int n :: i64) = n"
  using signed_take_bit_int_eq_self [OF assms] by (simp add: sint_sbintrunc')

lemma sint_inject [simp]: "sint (a :: 'a::len word) = sint b \<longleftrightarrow> a = b"
  by (auto intro: signed_word_eqI)

section \<open>Little-endian byte strings\<close>

text \<open>
  \<open>to_le_bytes\<close> and \<open>from_le_bytes\<close> of Rust's integers, on the unsigned value; the width
  is the number of bytes.
\<close>

primrec le_bytes :: "nat \<Rightarrow> nat \<Rightarrow> bytes" where
  "le_bytes 0 v = []"
| "le_bytes (Suc n) v = word_of_nat (v mod 256) # le_bytes n (v div 256)"

primrec le_value :: "bytes \<Rightarrow> nat" where
  "le_value [] = 0"
| "le_value (b # bs) = unat b + 256 * le_value bs"

lemma le_bytes_numeral:
  "le_bytes (numeral k) v = word_of_nat (v mod 256) # le_bytes (pred_numeral k) (v div 256)"
  by (simp only: numeral_eq_Suc [of k] le_bytes.simps)

lemma length_le_bytes [simp, bytes_simps]: "length (le_bytes n v) = n"
  by (induction n arbitrary: v) simp_all

lemma unat_byte_less: "unat (b :: byte) < 256"
  using unsigned_less [of b, where 'a = nat] by simp

lemma unat_byte_of_nat: "unat (word_of_nat (v mod 256) :: byte) = v mod 256"
  by (simp add: unat_of_nat)

lemma mod_256_power_Suc: "v mod 256 + 256 * (v div 256 mod 256 ^ n) = (v :: nat) mod 256 ^ Suc n"
  by (simp add: mod_mult2_eq)

lemma le_value_le_bytes [bytes_simps]: "le_value (le_bytes n v) = v mod 256 ^ n"
proof (induction n arbitrary: v)
  case (Suc n)
  have "le_value (le_bytes (Suc n) v) = v mod 256 + 256 * (v div 256 mod 256 ^ n)"
    by (simp add: unat_byte_of_nat Suc.IH)
  also have "\<dots> = v mod 256 ^ Suc n"
    by (rule mod_256_power_Suc)
  finally show ?case .
qed simp

lemma le_value_bound: "le_value bs < 256 ^ length bs"
proof (induction bs)
  case (Cons b bs)
  have "unat b < 256" by (rule unat_byte_less)
  with Cons show ?case by simp
qed simp

definition i64_to_le :: "i64 \<Rightarrow> bytes" where
  "i64_to_le w = le_bytes 8 (unat w)"

definition i64_from_le :: "bytes \<Rightarrow> i64" where
  "i64_from_le bs = word_of_nat (le_value bs)"

definition i16_to_le :: "i16 \<Rightarrow> bytes" where
  "i16_to_le w = le_bytes 2 (unat w)"

definition i16_from_le :: "bytes \<Rightarrow> i16" where
  "i16_from_le bs = word_of_nat (le_value bs)"

lemma length_i_to_le [simp, bytes_simps]:
  "length (i64_to_le a) = 8" "length (i16_to_le b) = 2"
  by (simp_all add: i64_to_le_def i16_to_le_def)

lemma i64_le_round_trip [simp, bytes_simps]: "i64_from_le (i64_to_le w) = w"
proof -
  have "unat w < 256 ^ 8" using unsigned_less [of w, where 'a = nat] by simp
  then show ?thesis by (simp add: i64_from_le_def i64_to_le_def le_value_le_bytes)
qed

lemma i16_le_round_trip [simp, bytes_simps]: "i16_from_le (i16_to_le w) = w"
proof -
  have "unat w < 256 ^ 2" using unsigned_less [of w, where 'a = nat] by simp
  then show ?thesis by (simp add: i16_from_le_def i16_to_le_def le_value_le_bytes)
qed

section \<open>Strings\<close>

text \<open>
  A Rust \<open>String\<close> is a byte string that is valid UTF-8. Isabelle's characters are bytes,
  so a \<^typ>\<open>string\<close> is any byte string; \<open>utf8_valid\<close> is the check \<open>std::str::from_utf8\<close>
  makes (well-formed byte sequences of the Unicode standard, table 3-7), and
  \<open>wf_string\<close> is the invariant of the type.
\<close>

definition char_byte :: "char \<Rightarrow> byte" where
  "char_byte c = word_of_nat (of_char c)"

definition byte_char :: "byte \<Rightarrow> char" where
  "byte_char b = char_of (unat b)"

lemma byte_char_byte [simp]: "byte_char (char_byte c) = c"
proof -
  have "(of_char c :: nat) < 256" by (rule nat_of_char_less_256)
  then have "unat (word_of_nat (of_char c) :: byte) = of_char c"
    by (simp add: unat_of_nat)
  then show ?thesis by (simp add: byte_char_def char_byte_def)
qed

abbreviation as_bytes :: "string \<Rightarrow> bytes" where
  "as_bytes s \<equiv> map char_byte s"

definition cont :: "nat \<Rightarrow> bool" where
  "cont c \<longleftrightarrow> 0x80 \<le> c \<and> c \<le> 0xBF"

fun utf8_valid :: "nat list \<Rightarrow> bool" where
  "utf8_valid [] = True"
| "utf8_valid (b # bs) =
     (if b \<le> 0x7F then utf8_valid bs
      else if 0xC2 \<le> b \<and> b \<le> 0xDF then
        (case bs of c # r \<Rightarrow> cont c \<and> utf8_valid r | _ \<Rightarrow> False)
      else if 0xE0 \<le> b \<and> b \<le> 0xEF then
        (case bs of c # d # r \<Rightarrow>
            cont c \<and> (b = 0xE0 \<longrightarrow> 0xA0 \<le> c) \<and> (b = 0xED \<longrightarrow> c \<le> 0x9F) \<and> cont d
            \<and> utf8_valid r
         | _ \<Rightarrow> False)
      else if 0xF0 \<le> b \<and> b \<le> 0xF4 then
        (case bs of c # d # e # r \<Rightarrow>
            cont c \<and> (b = 0xF0 \<longrightarrow> 0x90 \<le> c) \<and> (b = 0xF4 \<longrightarrow> c \<le> 0x8F) \<and> cont d \<and> cont e
            \<and> utf8_valid r
         | _ \<Rightarrow> False)
      else False)"

definition from_utf8 :: "bytes \<Rightarrow> string option" where
  "from_utf8 bs = (if utf8_valid (map unat bs) then Some (map byte_char bs) else None)"

definition wf_string :: "string \<Rightarrow> bool" where
  "wf_string s = utf8_valid (map unat (as_bytes s))"

lemma from_utf8_as_bytes [simp]: "wf_string s \<Longrightarrow> from_utf8 (as_bytes s) = Some s"
  by (simp add: from_utf8_def wf_string_def comp_def)

lemma from_utf8_wf: "from_utf8 bs = Some s \<Longrightarrow> wf_string s \<and> as_bytes s = bs"
proof -
  have *: "char_byte (byte_char b) = b" for b :: byte
    by (simp add: char_byte_def byte_char_def take_bit_nat_eq_self unat_byte_less)
  assume "from_utf8 bs = Some s"
  then show ?thesis
    by (auto simp: from_utf8_def wf_string_def comp_def * split: if_splits)
qed

subsection \<open>Numbers in text\<close>

fun decimal :: "nat \<Rightarrow> string" where
  "decimal n = (if n < 10 then [char_of (48 + n)] else decimal (n div 10) @ [char_of (48 + n mod 10)])"

declare decimal.simps [simp del]

subsection \<open>White space\<close>

text \<open>
  \<open>str::split_whitespace\<close> and \<open>str::trim\<close> use the Unicode property White_Space. \<open>ws_prefix\<close>
  is the number of bytes of the white-space character a byte string starts with, 0 when it
  starts with none; in valid UTF-8 none of these sequences starts inside another character.
\<close>

fun ws_prefix :: "nat list \<Rightarrow> nat" where
  "ws_prefix [] = 0"
| "ws_prefix (b # bs) =
     (if 9 \<le> b \<and> b \<le> 13 \<or> b = 32 then 1
      else if b = 0xC2 then
        (case bs of c # _ \<Rightarrow> if c = 0x85 \<or> c = 0xA0 then 2 else 0 | _ \<Rightarrow> 0)
      else if b = 0xE1 then
        (case bs of c # d # _ \<Rightarrow> if c = 0x9A \<and> d = 0x80 then 3 else 0 | _ \<Rightarrow> 0)
      else if b = 0xE2 then
        (case bs of c # d # _ \<Rightarrow>
            if c = 0x80 \<and> (0x80 \<le> d \<and> d \<le> 0x8A \<or> d = 0xA8 \<or> d = 0xA9 \<or> d = 0xAF)
               \<or> c = 0x81 \<and> d = 0x9F then 3 else 0
         | _ \<Rightarrow> 0)
      else if b = 0xE3 then
        (case bs of c # d # _ \<Rightarrow> if c = 0x80 \<and> d = 0x80 then 3 else 0 | _ \<Rightarrow> 0)
      else 0)"

lemma ws_prefix_append_space:
  "bs \<noteq> [] \<Longrightarrow> ws_prefix (bs @ 32 # r) = ws_prefix bs"
  by (cases bs) (auto split: list.splits simp: append_eq_Cons_conv Cons_eq_append_conv)

lemma ws_prefix_le: "ws_prefix bs \<le> length bs"
  by (cases bs) (auto split: list.splits)

text \<open>The number of words, reading from inside a word or from outside one.\<close>

function word_count :: "bool \<Rightarrow> nat list \<Rightarrow> nat" where
  "word_count inside [] = 0"
| "word_count inside (b # bs) =
     (if 0 < ws_prefix (b # bs)
      then word_count False (drop (ws_prefix (b # bs)) (b # bs))
      else (if inside then 0 else 1) + word_count True bs)"
  by pat_completeness auto
termination
  by (relation "measure (\<lambda>(i, bs). length bs)") (auto simp del: ws_prefix.simps)

declare word_count.simps(2) [simp del]

definition split_whitespace_count :: "string \<Rightarrow> nat" where
  "split_whitespace_count s = word_count False (map of_char s)"

lemma word_count_space [simp]: "word_count inside (32 # bs) = word_count False bs"
  by (simp add: word_count.simps(2))

lemma word_count_append_space:
  "word_count inside (bs @ 32 # r) = word_count inside bs + word_count False r"
proof (induction inside bs rule: word_count.induct)
  case (2 inside b bs)
  let ?n = "ws_prefix (b # bs)"
  have n: "ws_prefix ((b # bs) @ 32 # r) = ?n"
    by (rule ws_prefix_append_space) simp
  have le: "?n \<le> length (b # bs)" by (rule ws_prefix_le)
  show ?case
  proof (cases "0 < ?n")
    case True
    then have "word_count inside ((b # bs) @ 32 # r)
        = word_count False (drop ?n ((b # bs) @ 32 # r))"
      using n by (simp add: word_count.simps(2) del: ws_prefix.simps)
    also have "drop ?n ((b # bs) @ 32 # r) = drop ?n (b # bs) @ 32 # r"
      using le by (simp only: drop_append) simp
    finally have "word_count inside ((b # bs) @ 32 # r)
        = word_count False (drop ?n (b # bs) @ 32 # r)" .
    with 2(1) [OF True] True show ?thesis
      by (simp add: word_count.simps(2) [of inside b bs] del: ws_prefix.simps)
  next
    case False
    with n 2(2) [OF False] show ?thesis
      by (simp add: word_count.simps(2) [of inside b bs]
          word_count.simps(2) [of inside b "bs @ 32 # r"] del: ws_prefix.simps)
  qed
qed simp

section \<open>Results\<close>

lemma ok_pair:
  assumes "map_sum id g (fst p) = Inr y"
  obtains x where "p = (Inr x, snd p)" "g x = y"
  using assms by (cases p; cases "fst p") auto

section \<open>Lists\<close>

lemma drop_append_eq: "length xs = n \<Longrightarrow> drop n (xs @ ys) = ys"
  by simp

lemma filter_map_keep:
  assumes "\<And>x. x \<in> set xs \<Longrightarrow> P (f x) = P x"
  shows "filter P (map f xs) = map f (filter P xs)"
  using assms by (induction xs) auto

lemma length_filter_map_le:
  assumes "\<And>x. x \<in> set xs \<Longrightarrow> P (f x) \<Longrightarrow> P x"
  shows "length (filter P (map f xs)) \<le> length (filter P xs)"
  using assms by (induction xs) auto

lemma length_filter_mono:
  assumes "\<And>x. x \<in> set xs \<Longrightarrow> P x \<Longrightarrow> Q x"
  shows "length (filter P xs) \<le> length (filter Q xs)"
  using assms by (induction xs) auto

lemma length_filter_or_le:
  "length (filter (\<lambda>x. P x \<or> Q x) xs) \<le> length (filter P xs) + length (filter Q xs)"
  by (induction xs) auto

text \<open>The first rows of an ordered selection.\<close>

lemma take_sort_key_least:
  assumes "x \<in> set xs" "x \<notin> set (take n (sort_key f xs))" "y \<in> set (take n (sort_key f xs))"
  shows "f y \<le> f x"
proof -
  have "sorted (map f (take n (sort_key f xs) @ drop n (sort_key f xs)))" by simp
  then have "\<forall>a \<in> set (take n (sort_key f xs)). \<forall>b \<in> set (drop n (sort_key f xs)). f a \<le> f b"
    unfolding map_append sorted_append by simp
  moreover have "x \<in> set (drop n (sort_key f xs))"
    using assms(1,2) by (metis UnE append_take_drop_id set_append set_sort)
  ultimately show ?thesis using assms(3) by blast
qed

lemma take_sort_key_all:
  assumes "length (take n (sort_key f xs)) < n"
  shows "set (take n (sort_key f xs)) = set xs"
  using assms by (simp add: min_def split: if_splits)

lemma set_take_sort_key: "set (take n (sort_key f xs)) \<subseteq> set xs"
  by (metis set_sort set_take_subset)

lemma distinct_map_take: "distinct (map f xs) \<Longrightarrow> distinct (map f (take n xs))"
  by (simp flip: take_map)

lemma distinct_map_sort_key: "distinct (map f (sort_key g xs)) \<longleftrightarrow> distinct (map f xs)"
proof -
  have "mset (map f (sort_key g xs)) = mset (map f xs)" by simp
  then show ?thesis by (rule mset_eq_imp_distinct_iff)
qed

section \<open>Transition systems\<close>

text \<open>
  The states a step relation reaches from its initial states. A component that is a state
  machine gives \<open>init\<close> and \<open>step\<close>; its invariant is an instance of the locale below.
\<close>

inductive reach :: "('s \<Rightarrow> bool) \<Rightarrow> ('s \<Rightarrow> 's \<Rightarrow> bool) \<Rightarrow> 's \<Rightarrow> bool"
  for init :: "'s \<Rightarrow> bool" and step :: "'s \<Rightarrow> 's \<Rightarrow> bool" where
  reach_init: "init s \<Longrightarrow> reach init step s"
| reach_step: "reach init step s \<Longrightarrow> step s t \<Longrightarrow> reach init step t"

locale inductive_invariant =
  fixes init :: "'s \<Rightarrow> bool" and step :: "'s \<Rightarrow> 's \<Rightarrow> bool" and inv :: "'s \<Rightarrow> bool"
  assumes inv_init: "init s \<Longrightarrow> inv s"
    and inv_step: "inv s \<Longrightarrow> step s t \<Longrightarrow> inv t"
begin

lemma reach_inv: "reach init step s \<Longrightarrow> inv s"
  by (induction rule: reach.induct) (blast intro: inv_init inv_step)+

lemma steps_inv: "step\<^sup>*\<^sup>* s t \<Longrightarrow> inv s \<Longrightarrow> inv t"
  by (induction rule: rtranclp_induct) (blast intro: inv_step)+

end

end
