(* ===== verification/Capability.thy ===== *)
theory Capability
  imports Prelude
begin

text \<open>
  What a backend declares it can do (\<open>crates/gylo-core/src/capability.rs\<close>) and the
  declaration of the Postgres backend (\<open>crates/gylo-pg/src/lib.rs\<close>). The worker calls
  \<open>require\<close> once at startup; the theorems say that there is no third answer between
  "supported" and "refused", and which feature a refusal names.
\<close>

section \<open>Capabilities and features\<close>

record capabilities =
  backend :: string
  durable_acknowledgement :: bool
  transactional_enqueue :: bool
  priorities :: bool
  delayed_jobs :: bool
  unique_jobs :: bool
  keyed_concurrency :: bool
  workflows :: bool
  durable_steps :: bool
  cron :: bool
  results :: bool

datatype feature =
    DurableAcknowledgement
  | TransactionalEnqueue
  | Priorities
  | DelayedJobs
  | UniqueJobs
  | KeyedConcurrency
  | Workflows
  | DurableSteps
  | Cron
  | Results

fun feature_as_str :: "feature \<Rightarrow> string" where
  "feature_as_str DurableAcknowledgement = ''durable acknowledgement''"
| "feature_as_str TransactionalEnqueue = ''transactional enqueue''"
| "feature_as_str Priorities = ''priorities''"
| "feature_as_str DelayedJobs = ''delayed jobs''"
| "feature_as_str UniqueJobs = ''unique jobs''"
| "feature_as_str KeyedConcurrency = ''keyed concurrency''"
| "feature_as_str Workflows = ''workflows''"
| "feature_as_str DurableSteps = ''durable steps''"
| "feature_as_str Cron = ''cron''"
| "feature_as_str Results = ''results''"

record unsupported =
  un_backend :: string
  un_feature :: feature

definition show_unsupported :: "unsupported \<Rightarrow> string" where
  "show_unsupported u =
     ''the '' @ un_backend u @ '' backend does not support '' @ feature_as_str (un_feature u)"

fun supports :: "capabilities \<Rightarrow> feature \<Rightarrow> bool" where
  "supports c DurableAcknowledgement = durable_acknowledgement c"
| "supports c TransactionalEnqueue = transactional_enqueue c"
| "supports c Priorities = priorities c"
| "supports c DelayedJobs = delayed_jobs c"
| "supports c UniqueJobs = unique_jobs c"
| "supports c KeyedConcurrency = keyed_concurrency c"
| "supports c Workflows = workflows c"
| "supports c DurableSteps = durable_steps c"
| "supports c Cron = cron c"
| "supports c Results = results c"

fun require :: "capabilities \<Rightarrow> feature list \<Rightarrow> (unsupported, unit) result" where
  "require c [] = Inr ()"
| "require c (f # fs) =
     (if \<not> supports c f then Inl \<lparr>un_backend = backend c, un_feature = f\<rparr> else require c fs)"

definition all_features :: "feature list" where
  "all_features =
     [DurableAcknowledgement, TransactionalEnqueue, Priorities, DelayedJobs, UniqueJobs,
      KeyedConcurrency, Workflows, DurableSteps, Cron, Results]"

definition gaps :: "capabilities \<Rightarrow> feature list" where
  "gaps c = filter (\<lambda>f. \<not> supports c f) all_features"

text \<open>The declaration of the Postgres backend.\<close>

definition PG_CAPABILITIES :: capabilities where
  "PG_CAPABILITIES =
     \<lparr>backend = ''postgres'', durable_acknowledgement = True, transactional_enqueue = True,
      priorities = True, delayed_jobs = True, unique_jobs = True, keyed_concurrency = True,
      workflows = True, durable_steps = True, cron = True, results = True\<rparr>"

section \<open>Properties\<close>

lemma all_features_complete [simp]: "f \<in> set all_features"
  by (cases f) (simp_all add: all_features_def)

lemma distinct_all_features: "distinct all_features"
  by (simp add: all_features_def)

lemma set_gaps [simp]: "set (gaps c) = {f. \<not> supports c f}"
  by (auto simp: gaps_def)

lemma require_ok_iff: "require c fs = Inr () \<longleftrightarrow> (\<forall>f \<in> set fs. supports c f)"
  by (induction fs) auto

lemma require_error:
  "require c fs = Inl u \<Longrightarrow>
   \<exists>pre f post. fs = pre @ f # post \<and> (\<forall>g \<in> set pre. supports c g) \<and> \<not> supports c f
     \<and> u = \<lparr>un_backend = backend c, un_feature = f\<rparr>"
proof (induction fs)
  case (Cons g gs)
  show ?case
  proof (cases "supports c g")
    case True
    with Cons.prems have "require c gs = Inl u" by simp
    then obtain pre f post where "gs = pre @ f # post" "\<forall>h \<in> set pre. supports c h"
      "\<not> supports c f" "u = \<lparr>un_backend = backend c, un_feature = f\<rparr>"
      using Cons.IH by blast
    with True show ?thesis by (intro exI [of _ "g # pre"] exI [of _ f] exI [of _ post]) simp
  next
    case False
    with Cons.prems show ?thesis by (intro exI [of _ "[]"]) auto
  qed
qed simp

text \<open>
  Every startup check has exactly one of two answers. If every requested feature is
  supported the backend accepts; otherwise it refuses, naming itself and the first
  requested feature it cannot give, and that feature is one of the gaps it reports.
\<close>

theorem require_decides:
  "case require c wanted of
     Inr _ \<Rightarrow> set wanted \<inter> set (gaps c) = {}
   | Inl u \<Rightarrow> un_backend u = backend c \<and> un_feature u \<in> set (gaps c)
       \<and> (\<exists>pre post. wanted = pre @ un_feature u # post \<and> set pre \<inter> set (gaps c) = {})"
proof (cases "require c wanted")
  case (Inl u)
  from require_error [OF this] Inl show ?thesis by fastforce
next
  case (Inr u)
  with require_ok_iff [of c wanted] show ?thesis by auto
qed

lemma gaps_postgres: "gaps PG_CAPABILITIES = []"
  by (simp add: gaps_def all_features_def PG_CAPABILITIES_def)

text \<open>
  The Postgres backend refuses nothing: whatever features a deployment requires, its
  startup check passes.
\<close>

theorem postgres_accepts_all: "require PG_CAPABILITIES wanted = Inr ()"
proof -
  have "supports PG_CAPABILITIES f" for f
    by (cases f) (simp_all add: PG_CAPABILITIES_def)
  then show ?thesis by (simp add: require_ok_iff)
qed

end
