(* ===== verification/Schedule.thy ===== *)
theory Schedule
  imports Prelude
begin

text \<open>
  Cron schedules (\<open>crates/gylo-core/src/schedule.rs\<close>). The crates \<open>cron\<close> and \<open>chrono_tz\<close>
  are parameters: a record of the four calls the code makes on them. What the code adds is
  the normalisation of five- and six-field expressions and the order of the error checks.
\<close>

section \<open>Schedules\<close>

text \<open>
  \<open>tz_from_str\<close> is \<open>chrono_tz::Tz::from_str\<close>, \<open>cron_from_str\<close> is \<open>cron::Schedule::from_str\<close>
  with its error rendered, \<open>cron_to_string\<close> its \<open>Display\<close>, and \<open>cron_next\<close> is
  \<open>cron.after(&t.with_timezone(&zone)).next()\<close> read back in UTC. Instants are microseconds.
\<close>

record ('tz, 'cron) cron_crate =
  tz_from_str :: "string \<Rightarrow> 'tz option"
  cron_from_str :: "string \<Rightarrow> (string, 'cron) result"
  cron_to_string :: "'cron \<Rightarrow> string"
  cron_next :: "'cron \<Rightarrow> 'tz \<Rightarrow> int \<Rightarrow> int option"

record ('tz, 'cron) schedule =
  sch_cron :: 'cron
  sch_zone :: 'tz

datatype schedule_error =
    Expression string string
  | Timezone string
  | NoOccurrence string

definition normalise :: "string \<Rightarrow> string" where
  "normalise expression =
     (let n = split_whitespace_count expression in
      if n = 5 then ''0 '' @ expression @ '' *''
      else if n = 6 then expression @ '' *''
      else expression)"

definition parse ::
  "('tz, 'cron) cron_crate \<Rightarrow> string \<Rightarrow> string \<Rightarrow> (schedule_error, ('tz, 'cron) schedule) result"
where
  "parse lib expression timezone =
     (case tz_from_str lib timezone of
        None \<Rightarrow> Inl (Timezone timezone)
      | Some zone \<Rightarrow>
          (case cron_from_str lib (normalise expression) of
             Inl reason \<Rightarrow> Inl (Expression expression reason)
           | Inr c \<Rightarrow> Inr \<lparr>sch_cron = c, sch_zone = zone\<rparr>))"

definition next_after ::
  "('tz, 'cron) cron_crate \<Rightarrow> ('tz, 'cron) schedule \<Rightarrow> int \<Rightarrow> (schedule_error, int) result"
where
  "next_after lib s after =
     (case cron_next lib (sch_cron s) (sch_zone s) after of
        Some at \<Rightarrow> Inr at
      | None \<Rightarrow> Inl (NoOccurrence (cron_to_string lib (sch_cron s))))"

text \<open>The documented contract of the \<open>cron\<close> crate: occurrences are strictly later.\<close>

definition strictly_later :: "('tz, 'cron) cron_crate \<Rightarrow> bool" where
  "strictly_later lib \<longleftrightarrow> (\<forall>c z t u. cron_next lib c z t = Some u \<longrightarrow> t < u)"

section \<open>Properties\<close>

lemma split_whitespace_count_seconds:
  "split_whitespace_count (''0 '' @ e) = 1 + split_whitespace_count e"
proof -
  have "word_count False (48 # 32 # map of_char e) = 1 + word_count False (map of_char e)"
    by (simp add: word_count.simps(2) [of _ 48])
  then show ?thesis by (simp add: split_whitespace_count_def)
qed

lemma split_whitespace_count_year:
  "split_whitespace_count (e @ '' *'') = split_whitespace_count e + 1"
proof -
  have "word_count False (map of_char e @ 32 # [42]) = word_count False (map of_char e) + 1"
    by (simp add: word_count_append_space word_count.simps(2) [of _ 42])
  then show ?thesis by (simp add: split_whitespace_count_def)
qed

text \<open>
  A five-field expression gains a leading seconds field and a trailing year, a
  six-field one a trailing year, so both reach the cron crate with exactly seven fields;
  any other expression is handed over as it was written.
\<close>

theorem normalise_fields:
  "(if split_whitespace_count e \<in> {5, 6}
    then split_whitespace_count (normalise e) = 7
      \<and> (\<exists>pre. normalise e = pre @ e @ '' *'' \<and> pre \<in> {[], ''0 ''})
    else normalise e = e)"
  using split_whitespace_count_seconds [of "e @ '' *''"] split_whitespace_count_year [of e]
  by (simp add: normalise_def Let_def)

text \<open>
  With a cron crate whose occurrences are strictly later than the instant they are
  asked for, a schedule that parses gives a next run strictly after the given time or the
  error that it has none, and never anything else.
\<close>

theorem next_after_strict:
  assumes "strictly_later lib" and "parse lib expression timezone = Inr s"
  shows "(\<exists>u. next_after lib s t = Inr u \<and> t < u)
       \<or> next_after lib s t = Inl (NoOccurrence (cron_to_string lib (sch_cron s)))"
  using assms by (auto simp: next_after_def strictly_later_def split: option.splits)

text \<open>A crate with one zone and one schedule, due every hour, for the witness.\<close>

definition hourly_crate :: "(unit, unit) cron_crate" where
  "hourly_crate =
     \<lparr>tz_from_str = (\<lambda>s. if s = ''UTC'' then Some () else None),
      cron_from_str = (\<lambda>s. if s = ''0 0 * * * * *'' then Inr () else Inl ''unsupported''),
      cron_to_string = (\<lambda>_. ''0 0 * * * * *''),
      cron_next = (\<lambda>_ _ t. Some ((t div 3600000000 + 1) * 3600000000))\<rparr>"

lemma hourly_strictly_later: "strictly_later hourly_crate"
proof -
  have "t < (t div 3600000000 + 1) * 3600000000" for t :: int
    by (simp add: distrib_right)
  then show ?thesis by (simp add: strictly_later_def hourly_crate_def)
qed

lemma hourly_normalised: "normalise ''0 * * * *'' = ''0 0 * * * * *''"
  unfolding normalise_def by (simp add: split_whitespace_count_def word_count.simps(2))

theorem next_after_strict_witness:
  "strictly_later hourly_crate
   \<and> parse hourly_crate ''0 * * * *'' ''UTC'' = Inr \<lparr>sch_cron = (), sch_zone = ()\<rparr>
   \<and> next_after hourly_crate \<lparr>sch_cron = (), sch_zone = ()\<rparr> 7200000000 = Inr 10800000000
   \<and> (7200000000 :: int) < 10800000000"
proof -
  have p: "parse hourly_crate ''0 * * * *'' ''UTC'' = Inr \<lparr>sch_cron = (), sch_zone = ()\<rparr>"
    by (simp add: parse_def hourly_normalised hourly_crate_def)
  have n: "next_after hourly_crate \<lparr>sch_cron = (), sch_zone = ()\<rparr> 7200000000 = Inr 10800000000"
    by (simp add: next_after_def hourly_crate_def)
  show ?thesis
    using next_after_strict [OF hourly_strictly_later p, of 7200000000]
      hourly_strictly_later p n by simp
qed

end
