(* ===== verification/Protocol.thy ===== *)
theory Protocol
  imports Prelude "HOL-Library.Sublist"
begin

text \<open>
  The wire protocol between the supervisor and its Python children
  (\<open>crates/gylo-core/src/protocol.rs\<close>): messages, \<open>encode\<close> into a shared buffer, and the
  \<open>Decoder\<close> that reassembles messages from arbitrarily chunked reads. MessagePack
  (\<open>rmp_serde\<close>) is a parameter. The theorems: a refused message leaves the buffer as it
  was, every message round-trips, a batch survives any split of its bytes, no input makes
  the decoder loop or read out of range, and its buffer stays compact.
\<close>

section \<open>Messages\<close>

abbreviation (input) HEADER_BYTES :: nat where "HEADER_BYTES \<equiv> 4"
abbreviation (input) KIND_DISPATCH :: byte where "KIND_DISPATCH \<equiv> 0x00"
abbreviation (input) KIND_COMPLETE :: byte where "KIND_COMPLETE \<equiv> 0x01"
abbreviation (input) KIND_REGISTER :: byte where "KIND_REGISTER \<equiv> 0x02"
abbreviation (input) KIND_STEPS :: byte where "KIND_STEPS \<equiv> 0x03"
abbreviation (input) KIND_RECORD :: byte where "KIND_RECORD \<equiv> 0x04"
abbreviation (input) KIND_STORED :: byte where "KIND_STORED \<equiv> 0x05"
abbreviation (input) OUTCOME_SUCCESS :: byte where "OUTCOME_SUCCESS \<equiv> 0x00"
abbreviation (input) OUTCOME_RETRY :: byte where "OUTCOME_RETRY \<equiv> 0x01"
abbreviation (input) OUTCOME_TERMINAL :: byte where "OUTCOME_TERMINAL \<equiv> 0x02"

definition COMPACT_THRESHOLD :: nat where "COMPACT_THRESHOLD = 65536"

definition MAX_FRAME_BYTES :: nat where "MAX_FRAME_BYTES = 16 * 1024 * 1024"

definition DISPATCH_HEAD_BYTES :: nat where "DISPATCH_HEAD_BYTES = 1 + 8 + 2 + 2 + 2"

definition COMPLETE_HEAD_BYTES :: nat where "COMPLETE_HEAD_BYTES = 1 + 8 + 1"

datatype outcome =
    Success bytes
  | Failure string bool

record wire_step =
  ws_name :: string
  ws_result :: bytes

record wire_record =
  wr_id :: i64
  wr_name :: string
  wr_result :: bytes

record cron_registration =
  reg_name :: string
  reg_queue :: string
  reg_task :: string
  reg_expression :: string
  reg_timezone :: string
  reg_payload :: bytes

datatype message =
    Register "cron_registration list"
  | Steps i64 "(string \<times> bytes) list"
  | Record i64 string bytes
  | Stored i64 string
  | Dispatch i64 i16 i16 string bytes
  | Complete i64 outcome

datatype protocol_error =
    FrameTooLarge nat
  | Truncated
  | UnknownKind byte
  | UnknownOutcome byte
  | NotUtf8 string
  | TaskNameTooLong nat
  | Malformed string

text \<open>
  \<open>rmp_serde::to_vec\<close> and \<open>rmp_serde::from_slice\<close> at the four types the protocol uses
  them at, errors rendered to text.
\<close>

record msgpack =
  to_vec_entries :: "cron_registration list \<Rightarrow> (string, bytes) result"
  from_slice_entries :: "bytes \<Rightarrow> (string, cron_registration list) result"
  to_vec_steps :: "i64 \<times> wire_step list \<Rightarrow> (string, bytes) result"
  from_slice_steps :: "bytes \<Rightarrow> (string, i64 \<times> wire_step list) result"
  to_vec_record :: "wire_record \<Rightarrow> (string, bytes) result"
  from_slice_record :: "bytes \<Rightarrow> (string, wire_record) result"
  to_vec_stored :: "i64 \<times> string \<Rightarrow> (string, bytes) result"
  from_slice_stored :: "bytes \<Rightarrow> (string, i64 \<times> string) result"

definition pack :: "('a \<Rightarrow> (string, bytes) result) \<Rightarrow> 'a \<Rightarrow> (protocol_error, bytes) result" where
  "pack to_vec value = (case to_vec value of Inl e \<Rightarrow> Inl (Malformed e) | Inr b \<Rightarrow> Inr b)"

definition unpack :: "(bytes \<Rightarrow> (string, 'a) result) \<Rightarrow> bytes \<Rightarrow> (protocol_error, 'a) result" where
  "unpack from_slice bs = (case from_slice bs of Inl e \<Rightarrow> Inl (Malformed e) | Inr v \<Rightarrow> Inr v)"

section \<open>Encoding\<close>

text \<open>The first half of \<open>encode_frame\<close>: the packed body, if any, and the body's length.\<close>

definition packed_len :: "(protocol_error, bytes) result \<Rightarrow> (protocol_error, nat \<times> bytes) result" where
  "packed_len r = (case r of Inl e \<Rightarrow> Inl e | Inr packed \<Rightarrow> Inr (1 + length packed, packed))"

fun body_plan :: "msgpack \<Rightarrow> message \<Rightarrow> (protocol_error, nat \<times> bytes) result" where
  "body_plan mp (Register entries) = packed_len (pack (to_vec_entries mp) entries)"
| "body_plan mp (Steps i steps) =
     (let wire = map (\<lambda>(name, result). \<lparr>ws_name = name, ws_result = result\<rparr>) steps
      in packed_len (pack (to_vec_steps mp) (i, wire)))"
| "body_plan mp (Record i name result) =
     packed_len (pack (to_vec_record mp) \<lparr>wr_id = i, wr_name = name, wr_result = result\<rparr>)"
| "body_plan mp (Stored i name) = packed_len (pack (to_vec_stored mp) (i, name))"
| "body_plan mp (Dispatch _ _ _ task payload) =
     (if 65535 < length task then Inl (TaskNameTooLong (length task))
      else Inr (DISPATCH_HEAD_BYTES + length task + length payload, []))"
| "body_plan mp (Complete _ oc) =
     (case oc of
        Success result \<Rightarrow> Inr (COMPLETE_HEAD_BYTES + length result, [])
      | Failure error _ \<Rightarrow> Inr (COMPLETE_HEAD_BYTES + length error, []))"

text \<open>The second half: what is appended after the header, on every path.\<close>

fun write_body :: "message \<Rightarrow> bytes \<Rightarrow> bytes \<Rightarrow> (protocol_error, unit) result \<times> bytes" where
  "write_body (Register _) packed out = (Inr (), out @ [KIND_REGISTER] @ packed)"
| "write_body (Steps _ _) packed out = (Inr (), out @ [KIND_STEPS] @ packed)"
| "write_body (Record _ _ _) packed out = (Inr (), out @ [KIND_RECORD] @ packed)"
| "write_body (Stored _ _) packed out = (Inr (), out @ [KIND_STORED] @ packed)"
| "write_body (Dispatch i attempt max_attempts task payload) packed out =
     (if 65535 < length task then (Inl (TaskNameTooLong (length task)), out)
      else (Inr (), out @ [KIND_DISPATCH] @ i64_to_le i @ i16_to_le attempt
             @ i16_to_le max_attempts @ le_bytes 2 (length task) @ as_bytes task @ payload))"
| "write_body (Complete i oc) packed out =
     (let out1 = out @ [KIND_COMPLETE] @ i64_to_le i in
      case oc of
        Success result \<Rightarrow> (Inr (), out1 @ [OUTCOME_SUCCESS] @ result)
      | Failure error retry \<Rightarrow>
          (Inr (), out1 @ [if retry then OUTCOME_RETRY else OUTCOME_TERMINAL] @ as_bytes error))"

definition encode_frame ::
  "msgpack \<Rightarrow> message \<Rightarrow> bytes \<Rightarrow> (protocol_error, unit) result \<times> bytes"
where
  "encode_frame mp m out =
     (case body_plan mp m of
        Inl e \<Rightarrow> (Inl e, out)
      | Inr (body_len, packed) \<Rightarrow>
          if MAX_FRAME_BYTES < body_len then (Inl (FrameTooLarge body_len), out)
          else if 2 ^ 32 \<le> body_len then (Inl (FrameTooLarge body_len), out)
          else write_body m packed (out @ le_bytes HEADER_BYTES body_len))"

definition encode ::
  "msgpack \<Rightarrow> message \<Rightarrow> bytes \<Rightarrow> (protocol_error, unit) result \<times> bytes"
where
  "encode mp m out =
     (let start = length out in
      case encode_frame mp m out of
        (Inr u, out') \<Rightarrow> (Inr u, out')
      | (Inl e, out') \<Rightarrow> (Inl e, take start out'))"

section \<open>Decoding\<close>

record decoder =
  buf :: bytes
  pos :: nat

definition new_decoder :: decoder where
  "new_decoder = \<lparr>buf = [], pos = 0\<rparr>"

definition extend :: "decoder \<Rightarrow> bytes \<Rightarrow> decoder" where
  "extend d bs = d\<lparr>buf := buf d @ bs\<rparr>"

definition buffered :: "decoder \<Rightarrow> nat" where
  "buffered d = length (buf d) - pos d"

definition decode_dispatch :: "bytes \<Rightarrow> (protocol_error, message) result" where
  "decode_dispatch rest =
     (if length rest < 14 then Inl Truncated
      else
        let i = i64_from_le (take 8 rest);
            attempt = i16_from_le (take 2 (drop 8 rest));
            max_attempts = i16_from_le (take 2 (drop 10 rest));
            name_len = le_value (take 2 (drop 12 rest));
            rest = drop 14 rest
        in if length rest < name_len then Inl Truncated
           else case from_utf8 (take name_len rest) of
                  None \<Rightarrow> Inl (NotUtf8 ''task name'')
                | Some task \<Rightarrow> Inr (Dispatch i attempt max_attempts task (drop name_len rest)))"

definition decode_complete :: "bytes \<Rightarrow> (protocol_error, message) result" where
  "decode_complete rest =
     (if length rest < 9 then Inl Truncated
      else
        let i = i64_from_le (take 8 rest); code = rest ! 8 in
        if code = OUTCOME_SUCCESS then Inr (Complete i (Success (drop 9 rest)))
        else if code = OUTCOME_RETRY \<or> code = OUTCOME_TERMINAL then
          (case from_utf8 (drop 9 rest) of
             None \<Rightarrow> Inl (NotUtf8 ''error message'')
           | Some error \<Rightarrow> Inr (Complete i (Failure error (code = OUTCOME_RETRY))))
        else Inl (UnknownOutcome code))"

fun decode_body :: "msgpack \<Rightarrow> bytes \<Rightarrow> (protocol_error, message) result" where
  "decode_body mp [] = Inl Truncated"
| "decode_body mp (kind # rest) =
     (if kind = KIND_DISPATCH then decode_dispatch rest
      else if kind = KIND_COMPLETE then decode_complete rest
      else if kind = KIND_REGISTER then map_sum id Register (unpack (from_slice_entries mp) rest)
      else if kind = KIND_STEPS then
        map_sum id (\<lambda>(i, steps). Steps i (map (\<lambda>s. (ws_name s, ws_result s)) steps))
          (unpack (from_slice_steps mp) rest)
      else if kind = KIND_RECORD then
        map_sum id (\<lambda>r. Record (wr_id r) (wr_name r) (wr_result r))
          (unpack (from_slice_record mp) rest)
      else if kind = KIND_STORED then
        map_sum id (\<lambda>(i, name). Stored i name) (unpack (from_slice_stored mp) rest)
      else Inl (UnknownKind kind))"

definition next_message ::
  "msgpack \<Rightarrow> decoder \<Rightarrow> (protocol_error, message option) result \<times> decoder"
where
  "next_message mp d =
     (if buffered d < HEADER_BYTES then (Inr None, d)
      else
        let body_len = le_value (take HEADER_BYTES (drop (pos d) (buf d))) in
        if MAX_FRAME_BYTES < body_len then (Inl (FrameTooLarge body_len), d)
        else if buffered d - HEADER_BYTES < body_len then (Inr None, d)
        else
          let body_start = pos d + HEADER_BYTES in
          case decode_body mp (take body_len (drop body_start (buf d))) of
            Inl e \<Rightarrow> (Inl e, d)
          | Inr m \<Rightarrow>
              let p = body_start + body_len in
              if COMPACT_THRESHOLD \<le> p
              then (Inr (Some m), d\<lparr>buf := drop p (buf d), pos := 0\<rparr>)
              else (Inr (Some m), d\<lparr>pos := p\<rparr>))"

text \<open>
  The loop of the readers: \<open>while let Ok(Some(message)) = decoder.next_message()\<close>. It ends
  because every message takes at least its header off the buffer.
\<close>

lemma next_message_decreases:
  assumes "next_message mp d = (Inr (Some m), d')"
  shows "buffered d' < buffered d"
  using assms
  by (auto simp: next_message_def buffered_def Let_def split: if_splits sum.splits)

function decode_all :: "msgpack \<Rightarrow> decoder \<Rightarrow> message list \<times> decoder" where
  "decode_all mp d =
     (case next_message mp d of
        (Inr (Some m), d') \<Rightarrow> (let (ms, d'') = decode_all mp d' in (m # ms, d''))
      | (_, d') \<Rightarrow> ([], d'))"
  by pat_completeness auto
termination
  by (relation "measure (\<lambda>(mp, d). buffered d)") (auto dest: next_message_decreases [OF sym])

declare decode_all.simps [simp del]

text \<open>Deliver the bytes in the given reads, decoding what is complete after each.\<close>

fun feed :: "msgpack \<Rightarrow> decoder \<Rightarrow> bytes list \<Rightarrow> message list \<times> decoder" where
  "feed mp d [] = ([], d)"
| "feed mp d (chunk # chunks) =
     (let (ms, d1) = decode_all mp (extend d chunk); (ms', d2) = feed mp d1 chunks
      in (ms @ ms', d2))"

text \<open>Append every message in turn, as the dispatcher batches frames into one buffer.\<close>

fun encode_all :: "msgpack \<Rightarrow> message list \<Rightarrow> bytes \<Rightarrow> bytes" where
  "encode_all mp [] out = out"
| "encode_all mp (m # ms) out = encode_all mp ms (snd (encode mp m out))"

section \<open>What the codec relies on\<close>

text \<open>
  \<open>rmp_serde\<close> reads back what it wrote; strings held in messages are valid UTF-8, which
  is the invariant of Rust's \<open>String\<close>.
\<close>

definition msgpack_ok :: "msgpack \<Rightarrow> bool" where
  "msgpack_ok mp \<longleftrightarrow>
     (\<forall>x b. to_vec_entries mp x = Inr b \<longrightarrow> from_slice_entries mp b = Inr x)
   \<and> (\<forall>x b. to_vec_steps mp x = Inr b \<longrightarrow> from_slice_steps mp b = Inr x)
   \<and> (\<forall>x b. to_vec_record mp x = Inr b \<longrightarrow> from_slice_record mp b = Inr x)
   \<and> (\<forall>x b. to_vec_stored mp x = Inr b \<longrightarrow> from_slice_stored mp b = Inr x)"

fun wf_message :: "message \<Rightarrow> bool" where
  "wf_message (Dispatch _ _ _ task _) = wf_string task"
| "wf_message (Complete _ (Failure error _)) = wf_string error"
| "wf_message _ = True"

definition encodable :: "msgpack \<Rightarrow> message \<Rightarrow> bool" where
  "encodable mp m = is_ok (fst (encode mp m []))"

section \<open>The encoder against its reference\<close>

text \<open>The body as one expression, and a frame as header and body.\<close>

fun body_bytes :: "msgpack \<Rightarrow> message \<Rightarrow> (protocol_error, bytes) result" where
  "body_bytes mp (Register entries) = map_sum id ((#) KIND_REGISTER) (pack (to_vec_entries mp) entries)"
| "body_bytes mp (Steps i steps) =
     map_sum id ((#) KIND_STEPS)
       (pack (to_vec_steps mp) (i, map (\<lambda>(n, r). \<lparr>ws_name = n, ws_result = r\<rparr>) steps))"
| "body_bytes mp (Record i name result) =
     map_sum id ((#) KIND_RECORD)
       (pack (to_vec_record mp) \<lparr>wr_id = i, wr_name = name, wr_result = result\<rparr>)"
| "body_bytes mp (Stored i name) = map_sum id ((#) KIND_STORED) (pack (to_vec_stored mp) (i, name))"
| "body_bytes mp (Dispatch i a n task payload) =
     (if 65535 < length task then Inl (TaskNameTooLong (length task))
      else Inr (KIND_DISPATCH # i64_to_le i @ i16_to_le a @ i16_to_le n
             @ le_bytes 2 (length task) @ as_bytes task @ payload))"
| "body_bytes mp (Complete i (Success result)) =
     Inr (KIND_COMPLETE # i64_to_le i @ OUTCOME_SUCCESS # result)"
| "body_bytes mp (Complete i (Failure error retry)) =
     Inr (KIND_COMPLETE # i64_to_le i
       @ (if retry then OUTCOME_RETRY else OUTCOME_TERMINAL) # as_bytes error)"

definition framed :: "bytes \<Rightarrow> bytes" where
  "framed body = le_bytes HEADER_BYTES (length body) @ body"

lemma length_framed [simp]: "length (framed body) = HEADER_BYTES + length body"
  by (simp add: framed_def)

lemma encode_frame_plan:
  "encode_frame mp m out =
     (case body_plan mp m of
        Inl e \<Rightarrow> (Inl e, out)
      | Inr (n, packed) \<Rightarrow>
          if MAX_FRAME_BYTES < n then (Inl (FrameTooLarge n), out)
          else write_body m packed (out @ le_bytes HEADER_BYTES n))"
  by (auto simp: encode_frame_def MAX_FRAME_BYTES_def split: sum.split)

lemma body_plan_reference:
  "body_plan mp m =
     (case body_bytes mp m of
        Inl e \<Rightarrow> Inl e
      | Inr b \<Rightarrow> Inr (length b, case m of Dispatch _ _ _ _ _ \<Rightarrow> [] | Complete _ _ \<Rightarrow> [] | _ \<Rightarrow> tl b))"
  by (induction mp m rule: body_bytes.induct)
    (simp_all add: packed_len_def DISPATCH_HEAD_BYTES_def COMPLETE_HEAD_BYTES_def Let_def
      split: sum.split)

lemma write_body_reference:
  "body_bytes mp m = Inr b \<Longrightarrow>
   write_body m (case m of Dispatch _ _ _ _ _ \<Rightarrow> [] | Complete _ _ \<Rightarrow> [] | _ \<Rightarrow> tl b) out
     = (Inr (), out @ b)"
  by (induction mp m rule: body_bytes.induct)
    (auto simp: map_sum_def Let_def split: sum.splits if_splits)

lemma encode_reference:
  "encode mp m out =
     (case body_bytes mp m of
        Inl e \<Rightarrow> (Inl e, out)
      | Inr b \<Rightarrow> if MAX_FRAME_BYTES < length b then (Inl (FrameTooLarge (length b)), out)
                else (Inr (), out @ framed b))"
  by (simp add: encode_def encode_frame_plan body_plan_reference write_body_reference framed_def
      split: sum.split)
lemma encode_ok_iff:
  "encode mp m out = (Inr (), out') \<longleftrightarrow>
     (\<exists>b. body_bytes mp m = Inr b \<and> length b \<le> MAX_FRAME_BYTES \<and> out' = out @ framed b)"
  by (auto simp: encode_reference split: sum.splits)

lemma body_bytes_nonempty: "body_bytes mp m = Inr b \<Longrightarrow> b \<noteq> []"
  by (induction mp m rule: body_bytes.induct) (auto split: if_splits simp: map_sum_def pack_def split: sum.splits)

section \<open>Decoding what was encoded\<close>

lemma decode_dispatch_body:
  assumes "wf_string task" "length task \<le> 65535"
  shows "decode_dispatch (i64_to_le i @ i16_to_le a @ i16_to_le n @ le_bytes 2 (length task)
           @ as_bytes task @ payload) = Inr (Dispatch i a n task payload)"
proof -
  have len: "le_value (le_bytes 2 (length task)) = length task"
    using assms(2) by (simp add: le_value_le_bytes)
  show ?thesis
    using assms(1) by (simp add: decode_dispatch_def Let_def len)
qed

lemma decode_complete_body:
  "decode_complete (i64_to_le i @ OUTCOME_SUCCESS # result) = Inr (Complete i (Success result))"
  "wf_string e \<Longrightarrow> decode_complete (i64_to_le i @ (if r then OUTCOME_RETRY else OUTCOME_TERMINAL) # as_bytes e)
     = Inr (Complete i (Failure e r))"
  by (simp_all add: decode_complete_def Let_def nth_append)

lemma decode_body_bytes:
  assumes "msgpack_ok mp" "wf_message m" "body_bytes mp m = Inr b"
  shows "decode_body mp b = Inr m"
  using assms
proof (induction mp m rule: body_bytes.induct)
  case (2 mp i steps)
  then show ?case
    by (auto simp: msgpack_ok_def pack_def unpack_def map_sum_def comp_def case_prod_beta split: sum.splits)
next
  case (5 mp i a n task payload)
  then show ?case by (auto simp: decode_dispatch_body split: if_splits)
qed (auto simp: msgpack_ok_def pack_def unpack_def map_sum_def decode_complete_body split: sum.splits)

section \<open>The decoder as a function of the bytes still pending\<close>

definition wf_decoder :: "decoder \<Rightarrow> bool" where
  "wf_decoder d \<longleftrightarrow> pos d \<le> length (buf d) \<and> pos d < COMPACT_THRESHOLD"

definition pending_bytes :: "decoder \<Rightarrow> bytes" where
  "pending_bytes d = drop (pos d) (buf d)"

definition peek :: "msgpack \<Rightarrow> bytes \<Rightarrow> (protocol_error, (message \<times> bytes) option) result" where
  "peek mp bs =
     (if length bs < HEADER_BYTES then Inr None
      else let n = le_value (take HEADER_BYTES bs) in
        if MAX_FRAME_BYTES < n then Inl (FrameTooLarge n)
        else if length bs - HEADER_BYTES < n then Inr None
        else case decode_body mp (take n (drop HEADER_BYTES bs)) of
               Inl e \<Rightarrow> Inl e
             | Inr m \<Rightarrow> Inr (Some (m, drop (HEADER_BYTES + n) bs)))"

lemma wf_new_decoder [simp]: "wf_decoder new_decoder"
  by (simp add: wf_decoder_def new_decoder_def COMPACT_THRESHOLD_def)

lemma wf_extend [simp]: "wf_decoder d \<Longrightarrow> wf_decoder (extend d bs)"
  by (simp add: wf_decoder_def extend_def)

lemma pending_simps [simp]:
  "pending_bytes new_decoder = []"
  "wf_decoder d \<Longrightarrow> pending_bytes (extend d bs) = pending_bytes d @ bs"
  by (simp_all add: pending_bytes_def new_decoder_def extend_def wf_decoder_def)

lemma length_pending: "length (pending_bytes d) = buffered d"
  by (simp add: pending_bytes_def buffered_def)

lemma next_message_peek:
  assumes "wf_decoder d"
  shows "case peek mp (pending_bytes d) of
           Inl e \<Rightarrow> next_message mp d = (Inl e, d)
         | Inr None \<Rightarrow> next_message mp d = (Inr None, d)
         | Inr (Some (m, rest)) \<Rightarrow>
             (\<exists>d'. next_message mp d = (Inr (Some m), d') \<and> wf_decoder d' \<and> pending_bytes d' = rest)"
proof -
  let ?n = "le_value (take HEADER_BYTES (pending_bytes d))"
  have n: "le_value (take HEADER_BYTES (drop (pos d) (buf d))) = ?n"
    by (simp add: pending_bytes_def)
  have body: "take k (drop (pos d + HEADER_BYTES) (buf d)) = take k (drop HEADER_BYTES (pending_bytes d))" for k
    by (simp add: pending_bytes_def add.commute)
  have rest: "pending_bytes (d\<lparr>pos := pos d + HEADER_BYTES + k\<rparr>) = drop (HEADER_BYTES + k) (pending_bytes d)"
    "pending_bytes (d\<lparr>buf := drop (pos d + HEADER_BYTES + k) (buf d), pos := 0\<rparr>)
       = drop (HEADER_BYTES + k) (pending_bytes d)" for k
    by (simp_all add: pending_bytes_def add.commute add.left_commute)
  have "HEADER_BYTES \<le> buffered d \<Longrightarrow> k \<le> buffered d - HEADER_BYTES \<Longrightarrow>
      pos d + HEADER_BYTES + k \<le> length (buf d)" for k
    using assms by (simp add: buffered_def wf_decoder_def)
  with assms show ?thesis
    unfolding next_message_def peek_def length_pending Let_def n body
    by (auto simp: rest wf_decoder_def COMPACT_THRESHOLD_def split: sum.split)
qed

section \<open>Streams of frames\<close>

text \<open>
  \<open>pulls peek bs ms rest\<close>: taking messages off \<open>bs\<close> until more bytes are needed gives
  \<open>ms\<close> and leaves \<open>rest\<close>.
\<close>

inductive pulls :: "(bytes \<Rightarrow> ('e, ('m \<times> bytes) option) result) \<Rightarrow> bytes \<Rightarrow> 'm list \<Rightarrow> bytes \<Rightarrow> bool"
  for peek :: "bytes \<Rightarrow> ('e, ('m \<times> bytes) option) result" where
  pulls_wait: "peek bs = Inr None \<Longrightarrow> pulls peek bs [] bs"
| pulls_take: "peek bs = Inr (Some (m, r)) \<Longrightarrow> pulls peek r ms rest \<Longrightarrow> pulls peek bs (m # ms) rest"

locale framing =
  fixes peek :: "bytes \<Rightarrow> ('e, ('m \<times> bytes) option) result"
    and frame :: "'m \<Rightarrow> bytes"
    and valid :: "'m \<Rightarrow> bool"
  assumes peek_frame: "valid m \<Longrightarrow> peek (frame m @ rest) = Inr (Some (m, rest))"
    and peek_partial: "valid m \<Longrightarrow> strict_prefix p (frame m) \<Longrightarrow> peek p = Inr None"
    and peek_nothing: "peek [] = Inr None"
begin

text \<open>Any prefix of a stream of frames gives the whole frames it holds and keeps the rest.\<close>

lemma pulls_prefix:
  assumes "\<forall>m \<in> set ms. valid m" "p @ q = concat (map frame ms)"
  shows "\<exists>got todo rest. ms = got @ todo \<and> pulls peek p got rest \<and> rest @ q = concat (map frame todo)"
  using assms
proof (induction ms arbitrary: p)
  case Nil
  then show ?case by (auto intro: pulls_wait peek_nothing)
next
  case (Cons m ms)
  show ?case
  proof (cases "length (frame m) \<le> length p")
    case True
    define p' where "p' = drop (length (frame m)) p"
    have "take (length (frame m)) (p @ q) = frame m" "drop (length (frame m)) (p @ q) = concat (map frame ms)"
      by (simp_all only: Cons.prems(2)) simp_all
    with True have "take (length (frame m)) p = frame m" and p': "p' @ q = concat (map frame ms)"
      by (simp_all add: p'_def)
    then have p: "p = frame m @ p'" unfolding p'_def by (metis append_take_drop_id)
    from p' obtain got todo rest where "ms = got @ todo" "pulls peek p' got rest"
      "rest @ q = concat (map frame todo)"
      using Cons.IH [of p'] Cons.prems(1) by auto
    moreover have "pulls peek p (m # got) rest"
      using calculation(2) p peek_frame [of m p'] Cons.prems(1) by (auto intro: pulls_take)
    ultimately show ?thesis by (metis append_Cons)
  next
    case False
    have "prefix p (p @ q)" by simp
    moreover have "prefix (frame m) (p @ q)" by (simp add: Cons.prems(2))
    moreover have "length p \<le> length (frame m)" using False by simp
    ultimately have "prefix p (frame m)" by (rule prefix_length_prefix)
    with False have "strict_prefix p (frame m)" by (auto simp: strict_prefix_def)
    then have "pulls peek p [] p"
      using Cons.prems(1) by (auto intro: pulls_wait peek_partial)
    with Cons.prems(2) show ?thesis by (intro exI [of _ "[]"] exI [of _ "m # ms"] exI [of _ p]) simp
  qed
qed

end

lemma peek_framed:
  assumes "length b \<le> MAX_FRAME_BYTES" "decode_body mp b = Inr m"
  shows "peek mp (framed b @ rest) = Inr (Some (m, rest))"
proof -
  have "le_value (le_bytes HEADER_BYTES (length b)) = length b"
    using assms(1) by (simp add: le_value_le_bytes MAX_FRAME_BYTES_def)
  with assms show ?thesis by (simp add: peek_def framed_def Let_def)
qed

lemma peek_framed_partial:
  assumes "length b \<le> MAX_FRAME_BYTES" "strict_prefix p (framed b)"
  shows "peek mp p = Inr None"
proof (cases "length p < HEADER_BYTES")
  case False
  from assms(2) obtain c where c: "framed b = p @ c" "c \<noteq> []"
    by (auto simp: strict_prefix_def prefix_def)
  have "take HEADER_BYTES p = take HEADER_BYTES (framed b)"
    using False by (simp add: c)
  then have "le_value (take HEADER_BYTES p) = length b"
    using assms(1) by (simp add: framed_def le_value_le_bytes MAX_FRAME_BYTES_def)
  moreover have "length p < HEADER_BYTES + length b"
    using assms(2) by (auto dest: prefix_length_less)
  then have "length p - HEADER_BYTES < length b"
    using False by linarith
  ultimately show ?thesis using False assms(1) by (simp add: peek_def Let_def)
qed (simp add: peek_def)

definition frame_of :: "msgpack \<Rightarrow> message \<Rightarrow> bytes" where
  "frame_of mp m = snd (encode mp m [])"

definition sendable :: "msgpack \<Rightarrow> message \<Rightarrow> bool" where
  "sendable mp m \<longleftrightarrow> msgpack_ok mp \<and> wf_message m \<and> encodable mp m"

lemma encodable_body:
  "encodable mp m \<Longrightarrow> \<exists>b. body_bytes mp m = Inr b \<and> length b \<le> MAX_FRAME_BYTES \<and> frame_of mp m = framed b
     \<and> (\<forall>out. encode mp m out = (Inr (), out @ framed b))"
  by (auto simp: encodable_def frame_of_def encode_reference split: sum.splits if_splits)

interpretation wire: framing "peek mp" "frame_of mp" "sendable mp" for mp
proof unfold_locales
  fix m rest p
  show "peek mp (frame_of mp m @ rest) = Inr (Some (m, rest))" if "sendable mp m"
    using that encodable_body [of mp m] by (auto simp: sendable_def peek_framed decode_body_bytes)
  show "peek mp p = Inr None" if "sendable mp m" "strict_prefix p (frame_of mp m)"
    using that encodable_body [of mp m] by (auto simp: sendable_def peek_framed_partial)
qed (simp add: peek_def)

lemma decode_all_pulls:
  assumes "pulls (peek mp) bs ms rest" "pending_bytes d = bs" "wf_decoder d"
  shows "\<exists>d'. decode_all mp d = (ms, d') \<and> wf_decoder d' \<and> pending_bytes d' = rest"
  using assms
proof (induction arbitrary: d rule: pulls.induct)
  case (pulls_wait bs)
  then show ?case
    using next_message_peek [of d mp] by (auto simp: decode_all.simps [of mp d])
next
  case (pulls_take bs m r ms rest)
  then obtain d1 where "next_message mp d = (Inr (Some m), d1)" "wf_decoder d1" "pending_bytes d1 = r"
    using next_message_peek [of d mp] by auto
  with pulls_take.IH [of d1] show ?case
    by (auto simp: decode_all.simps [of mp d])
qed

lemma feed_stream:
  assumes "wf_decoder d" "\<forall>m \<in> set ms. sendable mp m"
    and "pending_bytes d @ concat chunks = concat (map (frame_of mp) ms)"
    and "peek mp (pending_bytes d) = Inr None"
  shows "\<exists>d'. feed mp d chunks = (ms, d') \<and> wf_decoder d' \<and> pending_bytes d' = []"
  using assms
proof (induction chunks arbitrary: d ms)
  case Nil
  have "ms = []"
  proof (cases ms)
    case (Cons m ms')
    with Nil have "peek mp (pending_bytes d) = Inr (Some (m, concat (map (frame_of mp) ms')))"
      by (simp add: wire.peek_frame)
    with Nil.prems(4) show ?thesis by simp
  qed simp
  with Nil show ?case by simp
next
  case (Cons chunk chunks)
  have wf: "wf_decoder (extend d chunk)" using Cons.prems(1) by simp
  have "(pending_bytes d @ chunk) @ concat chunks = concat (map (frame_of mp) ms)"
    using Cons.prems(3) by simp
  from wire.pulls_prefix [OF Cons.prems(2) this] obtain got todo rest where
    ms: "ms = got @ todo" and pulls: "pulls (peek mp) (pending_bytes d @ chunk) got rest"
    and rest: "rest @ concat chunks = concat (map (frame_of mp) todo)" by blast
  from decode_all_pulls [OF pulls _ wf] Cons.prems(1) obtain d1 where
    d1: "decode_all mp (extend d chunk) = (got, d1)" "wf_decoder d1" "pending_bytes d1 = rest"
    by auto
  have "peek mp rest = Inr None"
    using pulls by (induction rule: pulls.induct) auto
  then have "\<exists>d'. feed mp d1 chunks = (todo, d') \<and> wf_decoder d' \<and> pending_bytes d' = []"
    using Cons.IH [of d1 todo] d1(2,3) rest Cons.prems(2) ms by simp
  then show ?case using d1(1) ms by auto
qed

lemma encode_rejected: "\<not> encodable mp m \<Longrightarrow> snd (encode mp m out) = out"
  by (auto simp: encodable_def encode_reference split: sum.splits)

lemma encode_all_frames:
  "encode_all mp ms out = out @ concat (map (frame_of mp) (filter (encodable mp) ms))"
proof (induction ms arbitrary: out)
  case (Cons m ms)
  show ?case
  proof (cases "encodable mp m")
    case True
    then obtain b where "encode mp m out = (Inr (), out @ framed b)" "frame_of mp m = framed b"
      using encodable_body [of mp m] by auto
    with Cons True show ?thesis by simp
  next
    case False
    with Cons show ?thesis by (simp add: encode_rejected)
  qed
qed simp

section \<open>A MessagePack for the witnesses\<close>

text \<open>
  A small self-delimiting byte format at the four types, so that what the codec relies on
  is seen to be satisfiable: a length in unary, then the content.
\<close>

fun put_nat :: "nat \<Rightarrow> bytes" where
  "put_nat 0 = [0]"
| "put_nat (Suc n) = 1 # put_nat n"

fun get_nat :: "bytes \<Rightarrow> (nat \<times> bytes) option" where
  "get_nat [] = None"
| "get_nat (b # bs) =
     (if b = 0 then Some (0, bs) else map_option (\<lambda>(n, r). (Suc n, r)) (get_nat bs))"

definition put_bytes :: "bytes \<Rightarrow> bytes" where
  "put_bytes bs = put_nat (length bs) @ bs"

definition get_bytes :: "bytes \<Rightarrow> (bytes \<times> bytes) option" where
  "get_bytes bs = map_option (\<lambda>(n, r). (take n r, drop n r)) (get_nat bs)"

definition get_string :: "bytes \<Rightarrow> (string \<times> bytes) option" where
  "get_string bs = map_option (\<lambda>(s, r). (map byte_char s, r)) (get_bytes bs)"

lemma get_put_nat [simp]: "get_nat (put_nat n @ r) = Some (n, r)"
  by (induction n) auto

lemma get_put_bytes [simp]: "get_bytes (put_bytes bs @ r) = Some (bs, r)"
  by (simp add: get_bytes_def put_bytes_def)

lemma get_put_string [simp]: "get_string (put_bytes (as_bytes s) @ r) = Some (s, r)"
  by (simp add: get_string_def comp_def)

fun get_many :: "(bytes \<Rightarrow> ('a \<times> bytes) option) \<Rightarrow> nat \<Rightarrow> bytes \<Rightarrow> ('a list \<times> bytes) option" where
  "get_many g 0 bs = Some ([], bs)"
| "get_many g (Suc n) bs =
     (case g bs of None \<Rightarrow> None
      | Some (x, r) \<Rightarrow> map_option (\<lambda>(xs, r'). (x # xs, r')) (get_many g n r))"

lemma get_many_put:
  assumes "\<And>x r. g (p x @ r) = Some (x, r)"
  shows "get_many g (length xs) (concat (map p xs) @ r) = Some (xs, r)"
  by (induction xs) (simp_all add: assms)

definition put_entry :: "cron_registration \<Rightarrow> bytes" where
  "put_entry e = put_bytes (as_bytes (reg_name e)) @ put_bytes (as_bytes (reg_queue e))
     @ put_bytes (as_bytes (reg_task e)) @ put_bytes (as_bytes (reg_expression e))
     @ put_bytes (as_bytes (reg_timezone e)) @ put_bytes (reg_payload e)"

definition get_entry :: "bytes \<Rightarrow> (cron_registration \<times> bytes) option" where
  "get_entry b0 =
     (case get_string b0 of None \<Rightarrow> None | Some (n, b1) \<Rightarrow>
      (case get_string b1 of None \<Rightarrow> None | Some (q, b2) \<Rightarrow>
      (case get_string b2 of None \<Rightarrow> None | Some (t, b3) \<Rightarrow>
      (case get_string b3 of None \<Rightarrow> None | Some (e, b4) \<Rightarrow>
      (case get_string b4 of None \<Rightarrow> None | Some (z, b5) \<Rightarrow>
      (case get_bytes b5 of None \<Rightarrow> None | Some (p, b6) \<Rightarrow>
        Some (\<lparr>reg_name = n, reg_queue = q, reg_task = t, reg_expression = e,
               reg_timezone = z, reg_payload = p\<rparr>, b6)))))))"

definition put_step :: "wire_step \<Rightarrow> bytes" where
  "put_step s = put_bytes (as_bytes (ws_name s)) @ put_bytes (ws_result s)"

definition get_step :: "bytes \<Rightarrow> (wire_step \<times> bytes) option" where
  "get_step b0 =
     (case get_string b0 of None \<Rightarrow> None | Some (n, b1) \<Rightarrow>
      (case get_bytes b1 of None \<Rightarrow> None | Some (p, b2) \<Rightarrow>
        Some (\<lparr>ws_name = n, ws_result = p\<rparr>, b2)))"

definition finish :: "('a \<times> bytes) option \<Rightarrow> (string, 'a) result" where
  "finish r = (case r of Some (x, []) \<Rightarrow> Inr x | _ \<Rightarrow> Inl ''malformed'')"

definition unary_pack :: msgpack where
  "unary_pack =
     \<lparr>to_vec_entries = (\<lambda>es. Inr (put_nat (length es) @ concat (map put_entry es))),
      from_slice_entries = (\<lambda>bs. finish (case get_nat bs of None \<Rightarrow> None
        | Some (n, r) \<Rightarrow> get_many get_entry n r)),
      to_vec_steps = (\<lambda>(i, ss). Inr (i64_to_le i @ put_nat (length ss) @ concat (map put_step ss))),
      from_slice_steps = (\<lambda>bs. finish (case get_nat (drop 8 bs) of None \<Rightarrow> None
        | Some (n, r) \<Rightarrow> map_option (\<lambda>(ss, q). ((i64_from_le (take 8 bs), ss), q)) (get_many get_step n r))),
      to_vec_record = (\<lambda>r. Inr (i64_to_le (wr_id r) @ put_bytes (as_bytes (wr_name r)) @ put_bytes (wr_result r))),
      from_slice_record = (\<lambda>bs. finish (case get_step (drop 8 bs) of None \<Rightarrow> None
        | Some (s, q) \<Rightarrow> Some (\<lparr>wr_id = i64_from_le (take 8 bs), wr_name = ws_name s,
            wr_result = ws_result s\<rparr>, q))),
      to_vec_stored = (\<lambda>(i, n). Inr (i64_to_le i @ put_bytes (as_bytes n))),
      from_slice_stored = (\<lambda>bs. finish (map_option (\<lambda>(n, q). ((i64_from_le (take 8 bs), n), q))
        (get_string (drop 8 bs))))\<rparr>"

lemma get_put_entry [simp]: "get_entry (put_entry e @ r) = Some (e, r)"
  by (simp add: get_entry_def put_entry_def)

lemma get_put_step [simp]: "get_step (put_step s @ r) = Some (s, r)"
  by (simp add: get_step_def put_step_def)

lemma finish_simp [simp]: "finish (Some (x, [])) = Inr x"
  by (simp add: finish_def)

lemma get_many_entries: "get_many get_entry (length es) (concat (map put_entry es)) = Some (es, [])"
  using get_many_put [of get_entry put_entry es "[]"] by simp

lemma get_many_steps: "get_many get_step (length ss) (concat (map put_step ss)) = Some (ss, [])"
  using get_many_put [of get_step put_step ss "[]"] by simp

lemma get_step_record: "get_step (put_bytes (as_bytes n) @ put_bytes b) = Some (\<lparr>ws_name = n, ws_result = b\<rparr>, [])"
  using get_put_step [of "\<lparr>ws_name = n, ws_result = b\<rparr>" "[]"] by (simp add: put_step_def)

lemma get_string_end: "get_string (put_bytes (as_bytes n)) = Some (n, [])"
  using get_put_string [of n "[]"] by simp

lemma unary_pack_ok: "msgpack_ok unary_pack"
  by (auto simp: msgpack_ok_def unary_pack_def get_many_entries get_many_steps get_step_record get_string_end)

section \<open>Properties\<close>

text \<open>
  Encoding is all or nothing. On success the buffer has gained exactly one frame: the
  length of a non-empty body of at most 16 MiB as four little-endian bytes, then that body.
  On any error, whichever check raised it, the buffer is byte for byte what it was.
\<close>

theorem encode_all_or_nothing:
  "case encode mp m out of
     (Inl e, out') \<Rightarrow> out' = out
   | (Inr u, out') \<Rightarrow>
       (\<exists>body. out' = out @ le_bytes HEADER_BYTES (length body) @ body
          \<and> 0 < length body \<and> length body \<le> MAX_FRAME_BYTES)"
  using body_bytes_nonempty [of mp m]
  by (auto simp: encode_reference framed_def split: sum.split)

text \<open>
  Every message round-trips. What encode appended for a message is decoded as that
  message, whatever bytes follow it in the buffer, and exactly those bytes stay pending.
\<close>

theorem message_round_trip:
  assumes "msgpack_ok mp" and "wf_message m"
    and "encode mp m [] = (Inr (), frame)"
  shows "\<exists>d'. next_message mp (extend new_decoder (frame @ rest)) = (Inr (Some m), d')
           \<and> pending_bytes d' = rest \<and> buffered d' = length rest"
proof -
  have "sendable mp m" "frame_of mp m = frame"
    using assms by (simp_all add: sendable_def encodable_def frame_of_def)
  then have "peek mp (frame @ rest) = Inr (Some (m, rest))"
    using wire.peek_frame by blast
  then show ?thesis
    using next_message_peek [of "extend new_decoder (frame @ rest)" mp]
    by (auto simp flip: length_pending)
qed

lemma example_dispatch_frame:
  "encode unary_pack (Dispatch 7 1 20 ''a'' [255]) [] =
     (Inr (), [17, 0, 0, 0, 0, 7, 0, 0, 0, 0, 0, 0, 0, 1, 0, 20, 0, 1, 0, 97, 255])"
  by (simp add: encode_reference framed_def i64_to_le_def i16_to_le_def char_byte_def
      MAX_FRAME_BYTES_def le_bytes_numeral)

lemma wf_string_a: "wf_string ''a''"
  by (simp add: wf_string_def char_byte_def)

theorem message_round_trip_witness:
  "msgpack_ok unary_pack \<and> wf_message (Dispatch 7 1 20 ''a'' [255]) \<and>
   (\<exists>d'. next_message unary_pack
       (extend new_decoder ([17, 0, 0, 0, 0, 7, 0, 0, 0, 0, 0, 0, 0, 1, 0, 20, 0, 1, 0, 97, 255] @ [9, 9]))
     = (Inr (Some (Dispatch 7 1 20 ''a'' [255])), d') \<and> pending_bytes d' = [9, 9] \<and> buffered d' = 2)"
  using message_round_trip [OF unary_pack_ok _ example_dispatch_frame, of "[9, 9]"]
    unary_pack_ok wf_string_a by (simp add: numeral_2_eq_2)

text \<open>
  A batch survives any split of its bytes. Encode messages into one buffer (those that
  are refused drop out and disturb nothing around them) and deliver the buffer in reads of
  any sizes: the decoder gives exactly the accepted messages, in order, and ends empty.
\<close>

theorem batch_survives_any_split:
  assumes "msgpack_ok mp" and "\<forall>m \<in> set ms. wf_message m"
    and "concat reads = encode_all mp ms []"
  shows "\<exists>d'. feed mp new_decoder reads = (filter (encodable mp) ms, d') \<and> buffered d' = 0"
proof -
  have "\<forall>m \<in> set (filter (encodable mp) ms). sendable mp m"
    using assms(1,2) by (simp add: sendable_def)
  then show ?thesis
    using feed_stream [of new_decoder "filter (encodable mp) ms" mp reads] assms(3)
    by (auto simp: encode_all_frames wire.peek_nothing simp flip: length_pending)
qed

theorem batch_survives_any_split_witness:
  "\<exists>d'. feed unary_pack new_decoder
          [[17, 0], [0, 0, 0, 7, 0, 0, 0, 0, 0, 0, 0, 1, 0, 20, 0, 1, 0], [], [97, 255]]
        = ([Dispatch 7 1 20 ''a'' [255]], d') \<and> buffered d' = 0"
proof -
  have "encodable unary_pack (Dispatch 7 1 20 ''a'' [255])"
    by (simp add: encodable_def example_dispatch_frame)
  then show ?thesis
    using batch_survives_any_split [of unary_pack "[Dispatch 7 1 20 ''a'' [255]]"
        "[[17, 0], [0, 0, 0, 7, 0, 0, 0, 0, 0, 0, 0, 1, 0, 20, 0, 1, 0], [], [97, 255]]"]
    by (simp add: unary_pack_ok wf_string_a example_dispatch_frame)
qed

text \<open>
  Exactly which hand-framed messages are refused: a dispatch whose task name is longer
  than 65535 bytes or whose body exceeds 16 MiB, and a completion whose body does.
\<close>

theorem encodable_bounds:
  "(encodable mp (Dispatch i a n task payload) \<longleftrightarrow>
      length task \<le> 65535 \<and> 15 + length task + length payload \<le> 16777216)
   \<and> (encodable mp (Complete i (Success result)) \<longleftrightarrow> 10 + length result \<le> 16777216)
   \<and> (encodable mp (Complete i (Failure error r)) \<longleftrightarrow> 10 + length error \<le> 16777216)"
  by (auto simp: encodable_def encode_reference MAX_FRAME_BYTES_def)

text \<open>The steps of a decoder: bytes arrive, or the next message is asked for.\<close>

inductive decoder_step :: "msgpack \<Rightarrow> decoder \<Rightarrow> decoder \<Rightarrow> bool" for mp where
  step_extend: "decoder_step mp d (extend d bs)"
| step_next: "decoder_step mp d (snd (next_message mp d))"

lemma wf_next_message: "wf_decoder d \<Longrightarrow> wf_decoder (snd (next_message mp d))"
  using next_message_peek [of d mp] by (auto split: sum.splits option.splits)

interpretation decoder_inv: inductive_invariant "\<lambda>d. d = new_decoder" "decoder_step mp" wf_decoder for mp
  by unfold_locales (auto elim!: decoder_step.cases intro: wf_next_message)

text \<open>
  Whatever bytes arrive and however often a message is asked for, the read position
  stays inside the buffer, so every slice the decoder takes exists, and fewer than 64 KiB
  of already decoded bytes are ever retained.
\<close>

theorem decoder_stays_in_bounds:
  assumes "reach (\<lambda>d. d = new_decoder) (decoder_step mp) d"
  shows "pos d \<le> length (buf d) \<and> length (buf d) < buffered d + COMPACT_THRESHOLD"
  using decoder_inv.reach_inv [OF assms] by (auto simp: wf_decoder_def buffered_def)

theorem decoder_stays_in_bounds_witness:
  "pos (extend new_decoder [1]) \<le> length (buf (extend new_decoder [1]))
   \<and> length (buf (extend new_decoder [1])) < buffered (extend new_decoder [1]) + COMPACT_THRESHOLD"
  by (rule decoder_stays_in_bounds [of unary_pack]) (auto intro: reach.intros decoder_step.intros)

lemma peek_some_shorter: "peek mp bs = Inr (Some (m, rest)) \<Longrightarrow> 5 + length rest \<le> length bs"
proof -
  assume a: "peek mp bs = Inr (Some (m, rest))"
  let ?n = "le_value (take HEADER_BYTES bs)"
  from a have len: "HEADER_BYTES + ?n \<le> length bs" and rest: "rest = drop (HEADER_BYTES + ?n) bs"
    and dec: "decode_body mp (take ?n (drop HEADER_BYTES bs)) = Inr m"
    by (auto simp: peek_def Let_def split: if_splits sum.splits)
  have "?n \<noteq> 0" using dec by (intro notI) simp
  with len rest show ?thesis by simp
qed

lemma decode_all_bytes:
  "wf_decoder d \<Longrightarrow> decode_all mp d = (ms, d') \<Longrightarrow>
     wf_decoder d' \<and> 5 * length ms + buffered d' \<le> buffered d
     \<and> (\<forall>m d''. next_message mp d' \<noteq> (Inr (Some m), d''))"
proof (induction mp d arbitrary: ms d' rule: decode_all.induct)
  case (1 mp d)
  show ?case
  proof (cases "peek mp (pending_bytes d)")
    case (Inl e)
    with 1 next_message_peek [of d mp] show ?thesis by (auto simp: decode_all.simps [of mp d])
  next
    case (Inr r)
    show ?thesis
    proof (cases r)
      case None
      with Inr 1 next_message_peek [of d mp] show ?thesis by (auto simp: decode_all.simps [of mp d])
    next
      case (Some p)
      obtain m rest where p: "p = (m, rest)" by (cases p)
      with Inr Some next_message_peek [of d mp] 1(2) obtain d1 where
        d1: "next_message mp d = (Inr (Some m), d1)" "wf_decoder d1" "pending_bytes d1 = rest" by auto
      obtain ms1 where ms: "ms = m # ms1" and rec: "decode_all mp d1 = (ms1, d')"
        using 1(3) d1(1) by (auto simp: decode_all.simps [of mp d] split: prod.splits)
      have "5 + buffered d1 \<le> buffered d"
        using peek_some_shorter [of mp "pending_bytes d" m rest] Inr Some p d1(3)
        by (simp flip: length_pending)
      with 1(1) [OF d1(1) [symmetric] refl refl d1(2) rec] ms show ?thesis by simp
    qed
  qed
qed

text \<open>
  Draining a decoder always ends, on any bytes whatsoever: every message takes at least
  five bytes off the buffer, so the loop returns after at most a fifth as many messages as
  there were bytes, and stops only where the next call would give an error or wait for more.
\<close>

theorem drain_terminates:
  assumes "wf_decoder d"
  shows "\<exists>ms d'. decode_all mp d = (ms, d') \<and> 5 * length ms + buffered d' \<le> buffered d
     \<and> (\<forall>m d''. next_message mp d' \<noteq> (Inr (Some m), d''))"
  using decode_all_bytes [OF assms] by (cases "decode_all mp d") blast

theorem drain_terminates_witness:
  "wf_decoder (extend new_decoder [9, 9, 9]) \<and>
   (\<exists>ms d'. decode_all unary_pack (extend new_decoder [9, 9, 9]) = (ms, d')
     \<and> 5 * length ms + buffered d' \<le> buffered (extend new_decoder [9, 9, 9])
     \<and> (\<forall>m d''. next_message unary_pack d' \<noteq> (Inr (Some m), d'')))"
  using drain_terminates [of "extend new_decoder [9, 9, 9]" unary_pack] by simp

section \<open>Hand-framed bodies are canonical\<close>

lemma le_bytes_le_value: "length bs = n \<Longrightarrow> le_bytes n (le_value bs) = bs"
proof (induction bs arbitrary: n)
  case (Cons b bs)
  have "unat b < 256" by (rule unat_byte_less)
  then have "(unat b + 256 * le_value bs) mod 256 = unat b" "(unat b + 256 * le_value bs) div 256 = le_value bs"
    by simp_all
  with Cons show ?case by (auto simp del: mod_mult_self2)
qed simp

lemma i64_le_back: "length bs = 8 \<Longrightarrow> i64_to_le (i64_from_le bs) = bs"
  using le_value_bound [of bs] le_bytes_le_value [of bs 8]
  by (simp add: i64_to_le_def i64_from_le_def unat_of_nat)

lemma i16_le_back: "length bs = 2 \<Longrightarrow> i16_to_le (i16_from_le bs) = bs"
  using le_value_bound [of bs] le_bytes_le_value [of bs 2]
  by (simp add: i16_to_le_def i16_from_le_def unat_of_nat)

lemma split_at: "n \<le> length xs \<Longrightarrow> take n xs @ drop n xs = xs"
  by simp

lemma decode_dispatch_canonical:
  assumes "decode_dispatch r = Inr m"
  shows "body_bytes mp m = Inr (KIND_DISPATCH # r) \<and> wf_message m"
proof -
  let ?i = "take 8 r" and ?a = "take 2 (drop 8 r)" and ?n = "take 2 (drop 10 r)"
    and ?l = "take 2 (drop 12 r)" and ?p = "drop 14 r"
  from assms have len: "14 \<le> length r" by (simp add: decode_dispatch_def split: if_splits)
  from assms obtain task where task: "from_utf8 (take (le_value ?l) ?p) = Some task"
    and l: "le_value ?l \<le> length ?p"
    and m: "m = Dispatch (i64_from_le ?i) (i16_from_le ?a) (i16_from_le ?n) task (drop (le_value ?l) ?p)"
    by (auto simp: decode_dispatch_def Let_def not_less split: if_splits option.splits)
  have t: "as_bytes task = take (le_value ?l) ?p" "wf_string task"
    using from_utf8_wf [OF task] by simp_all
  have tl: "length task = le_value ?l"
    using t(1) l by (metis length_map length_take min.absorb2)
  have "le_value ?l < 256 ^ length ?l" by (rule le_value_bound)
  then have "le_value ?l \<le> 65535" using len by simp
  moreover have "drop 12 r = ?l @ ?p" "drop 10 r = ?n @ drop 12 r" "drop 8 r = ?a @ drop 10 r"
    using append_take_drop_id [of 2 "drop 12 r"] append_take_drop_id [of 2 "drop 10 r"]
      append_take_drop_id [of 2 "drop 8 r"] by simp_all
  then have "?i @ ?a @ ?n @ ?l @ take (le_value ?l) ?p @ drop (le_value ?l) ?p = r"
    using append_take_drop_id [of 8 r] by (simp del: drop_drop)
  ultimately show ?thesis
    using len t tl m by (simp add: i64_le_back i16_le_back le_bytes_le_value del: drop_drop)
qed


lemma decode_complete_canonical:
  assumes "decode_complete r = Inr m"
  shows "body_bytes mp m = Inr (KIND_COMPLETE # r) \<and> wf_message m"
proof -
  from assms have len: "9 \<le> length r" by (simp add: decode_complete_def split: if_splits)
  then have r: "r = take 8 r @ r ! 8 # drop 9 r"
    using id_take_nth_drop [of 8 r] by (simp add: numeral_eq_Suc)
  have i: "i64_to_le (i64_from_le (take 8 r)) = take 8 r" using len by (simp add: i64_le_back)
  show ?thesis
    using assms len r i
    by (auto simp: decode_complete_def Let_def split: if_splits option.splits dest!: from_utf8_wf)
qed

text \<open>
  The hand-framed messages have one encoding each. A body that decodes to a dispatch or
  a completion is exactly the body the encoder writes for that message, so two different
  byte strings never mean the same dispatch or the same completion.
\<close>

theorem decoded_body_is_canonical:
  assumes "decode_body mp body = Inr m"
    and "case m of Dispatch _ _ _ _ _ \<Rightarrow> True | Complete _ _ \<Rightarrow> True | _ \<Rightarrow> False"
    and "length body \<le> MAX_FRAME_BYTES"
  shows "encode mp m out = (Inr (), out @ le_bytes HEADER_BYTES (length body) @ body)"
proof (cases body)
  case Nil
  with assms(1) show ?thesis by simp
next
  case (Cons kind r)
  with assms(1,2) have "body_bytes mp m = Inr body"
    by (auto simp: decode_dispatch_canonical decode_complete_canonical unpack_def map_sum_def
        split: if_splits sum.splits)
  with assms(3) show ?thesis by (simp add: encode_reference framed_def)
qed

theorem decoded_body_is_canonical_witness:
  "decode_body unary_pack [1, 5, 0, 0, 0, 0, 0, 0, 0, 0] = Inr (Complete 5 (Success []))
   \<and> encode unary_pack (Complete 5 (Success [])) [9]
     = (Inr (), [9] @ [10, 0, 0, 0] @ [1, 5, 0, 0, 0, 0, 0, 0, 0, 0])"
proof -
  have d: "decode_body unary_pack [1, 5, 0, 0, 0, 0, 0, 0, 0, 0] = Inr (Complete 5 (Success []))"
    by (simp add: decode_complete_def i64_from_le_def)
  show ?thesis
    using decoded_body_is_canonical [OF d, of "[9]"] d
    by (simp add: MAX_FRAME_BYTES_def le_bytes_numeral)
qed

end
