(* ===== verification/Store.thy ===== *)
theory Store
  imports Prelude
begin

text \<open>
  The Postgres tables of gylo (\<open>migrations/0001\<close> to \<open>0011\<close>) and the structs of
  \<open>crates/gylo-pg/src/lib.rs\<close> that name their rows. A table is the list of its rows; a
  statement is a function from the database to a result and the database it leaves. A
  statement that fails leaves the tables alone. The constraints of the schema are
  predicates; the life of one row is a step relation, and every statement of the backend
  is shown, in the theories that follow, to move each row by these steps only.
\<close>

section \<open>Timestamps\<close>

text \<open>
  \<open>timestamptz\<close> in microseconds, with the value \<open>'infinity'\<close> at which a job with unmet
  dependencies is parked. A \<open>Duration\<close> handed to \<open>make_interval\<close> is a number of microseconds.
\<close>

datatype timestamptz = At int | Infinity

instantiation timestamptz :: linorder
begin

fun less_eq_timestamptz :: "timestamptz \<Rightarrow> timestamptz \<Rightarrow> bool" where
  "less_eq_timestamptz (At a) (At b) = (a \<le> b)"
| "less_eq_timestamptz (At a) Infinity = True"
| "less_eq_timestamptz Infinity (At b) = False"
| "less_eq_timestamptz Infinity Infinity = True"

definition less_timestamptz :: "timestamptz \<Rightarrow> timestamptz \<Rightarrow> bool" where
  "less_timestamptz a b = (a \<le> b \<and> \<not> b \<le> a)"

instance
proof
  fix x y z :: timestamptz
  show "x < y \<longleftrightarrow> x \<le> y \<and> \<not> y \<le> x" by (simp add: less_timestamptz_def)
  show "x \<le> x" by (cases x) simp_all
  show "x \<le> y \<Longrightarrow> y \<le> z \<Longrightarrow> x \<le> z" by (cases x; cases y; cases z) simp_all
  show "x \<le> y \<Longrightarrow> y \<le> x \<Longrightarrow> x = y" by (cases x; cases y) simp_all
  show "x \<le> y \<or> y \<le> x" by (cases x; cases y) auto
qed

end

lemma timestamptz_less [simp]:
  "At a < At b \<longleftrightarrow> a < b" "At a < Infinity" "\<not> Infinity < t"
  by (auto simp: less_timestamptz_def) (cases t; simp)

lemma Infinity_le [simp]: "Infinity \<le> t \<longleftrightarrow> t = Infinity"
  by (cases t) simp_all

type_synonym duration = nat

section \<open>Rows\<close>

datatype job_state = Available | Running | Completed | Discarded | Cancelled

record error_entry =
  ee_attempt :: i16
  ee_at :: int
  ee_error :: string

record job_row =
  row_id :: i64
  queue :: string
  task :: string
  state :: job_state
  priority :: i16
  payload :: bytes
  attempt :: i16
  max_attempts :: i16
  errors :: "error_entry list"
  scheduled_at :: timestamptz
  created_at :: int
  started_at :: "int option"
  finalized_at :: "int option"
  locked_by :: "uuid option"
  lease_expires_at :: "int option"
  unique_key :: "bytes option"
  job_result :: "bytes option"
  concurrency_key :: "string option"
  max_concurrency :: "i32 option"
  durable :: bool
  workflow_id :: "i64 option"
  pending_deps :: int

record cron_row =
  c_name :: string
  c_queue :: string
  c_task :: string
  c_payload :: bytes
  c_expression :: string
  c_timezone :: string
  c_paused :: bool
  c_next_run_at :: int
  c_last_run_at :: "int option"
  c_updated_at :: int

record step_row =
  s_job :: i64
  s_name :: string
  s_result :: bytes
  s_created_at :: int

record edge_row =
  e_workflow :: i64
  e_parent :: i64
  e_child :: i64

text \<open>
  The database: the five tables, the identity sequences of jobs and workflows, and the
  payloads sent on the channel \<open>gylo_available\<close> so far.
\<close>

record db =
  jobs :: "job_row list"
  crons :: "cron_row list"
  steps :: "step_row list"
  edges :: "edge_row list"
  workflow_ids :: "i64 list"
  job_seq :: int
  workflow_seq :: int
  notified :: "string list"

definition empty_db :: db where
  "empty_db =
     \<lparr>jobs = [], crons = [], steps = [], edges = [], workflow_ids = [], job_seq = 1,
      workflow_seq = 1, notified = []\<rparr>"

datatype db_error =
    CheckViolation string
  | UniqueViolation string
  | ForeignKeyViolation string
  | NumericOutOfRange
  | NegativeLimit
  | SequenceExhausted
  | InvalidText
  | ConnectionLost

datatype pg_error = Database db_error | Migration string

type_synonym 'a op = "db \<Rightarrow> (pg_error, 'a) result \<times> db"

text \<open>
  A string bound to a parameter of type \<open>text\<close> may hold every UTF-8 sequence but the NUL
  character, which the server refuses before it runs the statement.
\<close>

definition text_ok :: "string \<Rightarrow> bool" where
  "text_ok s \<longleftrightarrow> CHR 0x00 \<notin> set s"

definition bind_text :: "string list \<Rightarrow> 'a op \<Rightarrow> 'a op" where
  "bind_text ss stmt d =
     (if list_all text_ok ss then stmt d else (Inl (Database InvalidText), d))"

section \<open>Constraints\<close>

text \<open>The CHECK constraints of \<open>gylo_job\<close>.\<close>

definition attempt_bounds :: "job_row \<Rightarrow> bool" where
  "attempt_bounds r \<longleftrightarrow> sint (attempt r) \<le> sint (max_attempts r)"

definition lease_paired :: "job_row \<Rightarrow> bool" where
  "lease_paired r \<longleftrightarrow> (locked_by r = None) = (lease_expires_at r = None)"

definition concurrency_ok :: "job_row \<Rightarrow> bool" where
  "concurrency_ok r \<longleftrightarrow>
     (concurrency_key r = None) = (max_concurrency r = None)
   \<and> (case max_concurrency r of None \<Rightarrow> True | Some n \<Rightarrow> 0 < sint n)"

definition row_ok :: "job_row \<Rightarrow> bool" where
  "row_ok r \<longleftrightarrow> attempt_bounds r \<and> lease_paired r \<and> concurrency_ok r \<and> 0 \<le> pending_deps r"

text \<open>The partial unique index on \<open>unique_key\<close> covers waiting and running jobs.\<close>

definition live :: "job_row \<Rightarrow> bool" where
  "live r \<longleftrightarrow> state r = Available \<or> state r = Running"

definition unique_clash :: "job_row \<Rightarrow> job_row \<Rightarrow> bool" where
  "unique_clash r s \<longleftrightarrow>
     row_id r \<noteq> row_id s \<and> live r \<and> live s \<and> unique_key r \<noteq> None \<and> unique_key r = unique_key s"

definition unique_ok :: "job_row list \<Rightarrow> bool" where
  "unique_ok rs \<longleftrightarrow> list_all (\<lambda>r. list_all (\<lambda>s. \<not> unique_clash r s) rs) rs"

section \<open>Statements on the job table\<close>

definition job_ids :: "db \<Rightarrow> i64 set" where
  "job_ids d = row_id ` set (jobs d)"

definition find_job :: "i64 \<Rightarrow> db \<Rightarrow> job_row option" where
  "find_job i d = find (\<lambda>r. row_id r = i) (jobs d)"

text \<open>\<open>UPDATE gylo_job SET \<dots> WHERE \<dots>\<close>, row by row.\<close>

definition update_where :: "(job_row \<Rightarrow> bool) \<Rightarrow> (job_row \<Rightarrow> job_row) \<Rightarrow> db \<Rightarrow> db" where
  "update_where p f d = d\<lparr>jobs := map (\<lambda>r. if p r then f r else r) (jobs d)\<rparr>"

definition count_where :: "(job_row \<Rightarrow> bool) \<Rightarrow> db \<Rightarrow> nat" where
  "count_where p d = length (filter p (jobs d))"

text \<open>\<open>DELETE FROM gylo_job\<close>, with the cascades to steps and edges.\<close>

definition delete_jobs :: "(job_row \<Rightarrow> bool) \<Rightarrow> db \<Rightarrow> db" where
  "delete_jobs p d =
     (let gone = (\<lambda>i. list_ex (\<lambda>r. row_id r = i \<and> p r) (jobs d)) in
      d\<lparr>jobs := filter (\<lambda>r. \<not> p r) (jobs d),
        steps := filter (\<lambda>s. \<not> gone (s_job s)) (steps d),
        edges := filter (\<lambda>e. \<not> gone (e_parent e) \<and> \<not> gone (e_child e)) (edges d)\<rparr>)"

text \<open>
  One \<open>INSERT INTO gylo_job\<close> with \<open>RETURNING id\<close>. The identity sequence advances even when a
  constraint refuses the row. The trigger of migration 0002 notifies when the job is
  already due.
\<close>

definition insert_job :: "int \<Rightarrow> job_row \<Rightarrow> i64 op" where
  "insert_job now r d =
     (if 2 ^ 63 \<le> job_seq d then (Inl (Database SequenceExhausted), d)
      else
        let r' = r\<lparr>row_id := word_of_int (job_seq d)\<rparr>;
            d' = d\<lparr>job_seq := job_seq d + 1\<rparr>
        in if \<not> row_ok r' then (Inl (Database (CheckViolation ''gylo_job'')), d')
           else if list_ex (unique_clash r') (jobs d)
           then (Inl (Database (UniqueViolation ''gylo_job_unique'')), d')
           else (Inr (row_id r'),
                 d'\<lparr>jobs := jobs d @ [r'],
                    notified := notified d @ (if scheduled_at r \<le> At now then [queue r] else [])\<rparr>))"

text \<open>A row with the defaults of the schema.\<close>

definition default_row :: "int \<Rightarrow> string \<Rightarrow> string \<Rightarrow> bytes \<Rightarrow> job_row" where
  "default_row now q t p =
     \<lparr>row_id = 0, queue = q, task = t, state = Available, priority = 0, payload = p,
      attempt = 0, max_attempts = 20, errors = [], scheduled_at = At now, created_at = now,
      started_at = None, finalized_at = None, locked_by = None, lease_expires_at = None,
      unique_key = None, job_result = None, concurrency_key = None, max_concurrency = None,
      durable = False, workflow_id = None, pending_deps = 0\<rparr>"

section \<open>The life of a row\<close>

text \<open>
  What may happen to one row, whichever statement does it: at \<open>now\<close>, the row \<open>r\<close> becomes
  the second row.
\<close>

inductive row_step :: "int \<Rightarrow> job_row \<Rightarrow> job_row \<Rightarrow> bool" for now :: int where
  lease: "state r = Available \<Longrightarrow> scheduled_at r \<le> At now \<Longrightarrow> sint (attempt r) < sint (max_attempts r) \<Longrightarrow>
     row_step now r (r\<lparr>state := Running, locked_by := Some w, lease_expires_at := Some e,
        started_at := Some now, attempt := attempt r + 1\<rparr>)"
| finish: "state r = Running \<Longrightarrow>
     row_step now r (r\<lparr>state := Completed, finalized_at := Some now, locked_by := None,
        lease_expires_at := None, job_result := v\<rparr>)"
| discard: "state r = Running \<Longrightarrow>
     row_step now r (r\<lparr>state := Discarded, finalized_at := Some now, locked_by := None,
        lease_expires_at := None, errors := errors r @ [x]\<rparr>)"
| reschedule: "state r = Running \<Longrightarrow> sint (attempt r) < sint (max_attempts r) \<Longrightarrow>
     row_step now r (r\<lparr>state := Available, locked_by := None, lease_expires_at := None,
        scheduled_at := At t, errors := errors r @ [x]\<rparr>)"
| release: "state r = Running \<Longrightarrow> sint (attempt r) < sint (max_attempts r) \<Longrightarrow>
     row_step now r (r\<lparr>state := Available, locked_by := None, lease_expires_at := None\<rparr>)"
| extend_lease: "state r = Running \<Longrightarrow>
     row_step now r (r\<lparr>lease_expires_at := Some e\<rparr>)"
| cancel: "state r = Available \<Longrightarrow>
     row_step now r (r\<lparr>state := Cancelled, finalized_at := Some now, locked_by := None,
        lease_expires_at := None\<rparr>)"
| cascade: "state r = Available \<Longrightarrow>
     row_step now r (r\<lparr>state := Cancelled, finalized_at := Some now\<rparr>)"
| requeue: "state r = Discarded \<Longrightarrow>
     row_step now r (r\<lparr>state := Available, attempt := 0, scheduled_at := At now,
        locked_by := None, lease_expires_at := None, finalized_at := None\<rparr>)"
| unblock: "0 < n \<Longrightarrow> n \<le> pending_deps r \<Longrightarrow>
     row_step now r (r\<lparr>pending_deps := pending_deps r - n,
        scheduled_at := (if pending_deps r - n = 0 then At now else scheduled_at r)\<rparr>)"

text \<open>
  What every stored row satisfies beyond the constraints of the schema: a row is locked
  exactly while it runs, finalised exactly when it has ended, its attempts are counted
  from zero, and one that still waits for parents is parked or cancelled.
\<close>

definition row_wf :: "job_row \<Rightarrow> bool" where
  "row_wf r \<longleftrightarrow> row_ok r
   \<and> 0 \<le> sint (attempt r)
   \<and> (state r = Running \<longleftrightarrow> locked_by r \<noteq> None)
   \<and> (finalized_at r = None \<longleftrightarrow> live r)
   \<and> (state r = Running \<longrightarrow> 1 \<le> sint (attempt r))
   \<and> (0 < pending_deps r \<longrightarrow> state r = Available \<and> scheduled_at r = Infinity \<or> state r = Cancelled)"

lemmas row_wf_defs = row_wf_def row_ok_def attempt_bounds_def lease_paired_def concurrency_ok_def live_def

lemma attempt_step:
  "sint (attempt r) < sint (max_attempts r) \<Longrightarrow> sint (attempt r + 1) = sint (attempt r) + 1"
  using sint_bounds_i16(2) [of "max_attempts r"] by (intro sint_plus_one_i16) linarith

lemma row_step_wf: "row_step now r r' \<Longrightarrow> row_wf r \<Longrightarrow> row_wf r'"
proof (induction rule: row_step.induct)
  case (lease r w e)
  have "scheduled_at r \<noteq> Infinity" using lease(2) by (cases "scheduled_at r") auto
  with lease show ?case by (auto simp: row_wf_defs attempt_step)
next
  case (requeue r)
  then show ?case by (auto simp: row_wf_defs)
qed (auto simp: row_wf_defs split: option.splits)

text \<open>What no step of a row touches.\<close>

lemma row_step_frame [row_simps]:
  assumes "row_step now r r'"
  shows "row_id r' = row_id r" "queue r' = queue r" "task r' = task r" "payload r' = payload r"
    "priority r' = priority r" "max_attempts r' = max_attempts r" "unique_key r' = unique_key r"
    "concurrency_key r' = concurrency_key r" "max_concurrency r' = max_concurrency r"
    "durable r' = durable r" "workflow_id r' = workflow_id r" "created_at r' = created_at r"
  using assms by (cases; simp)+

text \<open>The life of a job as the states it may pass through.\<close>

inductive life :: "job_state \<Rightarrow> job_state \<Rightarrow> bool" where
  "life Available Running"
| "life Available Cancelled"
| "life Running Available"
| "life Running Completed"
| "life Running Discarded"
| "life Discarded Available"

inductive_simps life_simps: "life s t"

lemma row_step_life: "row_step now r r' \<Longrightarrow> state r' = state r \<or> life (state r) (state r')"
  by (induction rule: row_step.induct) (auto intro: life.intros)

section \<open>Statements that move rows\<close>

text \<open>
  A statement is lawful at \<open>now\<close> when it keeps the rows in place and moves each by a step of
  its life or not at all.
\<close>

definition lawful :: "int \<Rightarrow> db \<Rightarrow> db \<Rightarrow> bool" where
  "lawful now d d' \<longleftrightarrow> list_all2 (\<lambda>r r'. r' = r \<or> row_step now r r') (jobs d) (jobs d')"

lemma lawful_refl [simp]: "lawful now d d"
  by (simp add: lawful_def list_all2_same)

lemma lawful_same_jobs: "jobs d' = jobs d \<Longrightarrow> lawful now d d'"
  by (simp add: lawful_def list_all2_same)

lemma lawful_map:
  assumes "jobs d' = map f (jobs d)" "\<And>r. r \<in> set (jobs d) \<Longrightarrow> f r = r \<or> row_step now r (f r)"
  shows "lawful now d d'"
  using assms by (auto simp: lawful_def list_all2_map2 list_all2_same)

lemma lawful_update_where:
  assumes "\<And>r. r \<in> set (jobs d) \<Longrightarrow> p r \<Longrightarrow> row_step now r (f r)"
  shows "lawful now d (update_where p f d)"
  by (rule lawful_map [of _ "\<lambda>r. if p r then f r else r"]) (auto simp: update_where_def assms)

lemma lawful_ids: "lawful now d d' \<Longrightarrow> map row_id (jobs d') = map row_id (jobs d)"
  unfolding lawful_def by (induction rule: list_all2_induct) (auto simp: row_step_frame(1))

lemma lawful_rows:
  assumes "lawful now d d'" "r' \<in> set (jobs d')"
  shows "\<exists>r \<in> set (jobs d). r' = r \<or> row_step now r r'"
  using assms unfolding lawful_def list_all2_conv_all_nth set_conv_nth by auto blast

lemma lawful_wf:
  assumes "lawful now d d'" "\<forall>r \<in> set (jobs d). row_wf r"
  shows "\<forall>r \<in> set (jobs d'). row_wf r"
proof
  fix r' assume "r' \<in> set (jobs d')"
  then obtain r where "r \<in> set (jobs d)" "r' = r \<or> row_step now r r'"
    using lawful_rows [OF assms(1)] by blast
  with assms(2) show "row_wf r'" by (auto intro: row_step_wf)
qed

section \<open>The invariant of the database\<close>

text \<open>
  Identifiers are distinct and below the sequence, rows are well formed, the unique index
  holds, steps and edges refer to jobs that exist, and their primary keys hold.
\<close>

definition db_wf :: "db \<Rightarrow> bool" where
  "db_wf d \<longleftrightarrow>
     distinct (map row_id (jobs d))
   \<and> (\<forall>r \<in> set (jobs d). row_wf r \<and> sint (row_id r) < job_seq d)
   \<and> 1 \<le> job_seq d
   \<and> unique_ok (jobs d)
   \<and> (\<forall>s \<in> set (steps d). s_job s \<in> job_ids d)
   \<and> distinct (map (\<lambda>s. (s_job s, s_name s)) (steps d))
   \<and> (\<forall>e \<in> set (edges d). e_parent e \<in> job_ids d \<and> e_child e \<in> job_ids d)
   \<and> distinct (map (\<lambda>e. (e_parent e, e_child e)) (edges d))
   \<and> distinct (map c_name (crons d))"

text \<open>Outside the job table nothing changes.\<close>

definition same_rest :: "db \<Rightarrow> db \<Rightarrow> bool" where
  "same_rest d d' \<longleftrightarrow> steps d' = steps d \<and> edges d' = edges d \<and> crons d' = crons d
     \<and> job_seq d' = job_seq d \<and> workflow_ids d' = workflow_ids d \<and> workflow_seq d' = workflow_seq d"

lemma same_rest_refl [simp]: "same_rest d d"
  by (simp add: same_rest_def)

lemma same_rest_update_where [simp]: "same_rest d (update_where p f d)"
  by (simp add: same_rest_def update_where_def)

lemma db_wf_empty [simp]: "db_wf empty_db"
  by (simp add: db_wf_def empty_db_def unique_ok_def)

lemma job_row_eqI:
  assumes "distinct (map row_id rs)" "r \<in> set rs" "s \<in> set rs" "row_id r = row_id s"
  shows "r = s"
  using assms by (auto simp: distinct_map dest: inj_onD)

lemma lawful_job_ids: "lawful now d d' \<Longrightarrow> job_ids d' = job_ids d"
  using lawful_ids [of now d d'] by (simp add: job_ids_def flip: set_map)

lemma unique_ok_iff:
  "unique_ok rs \<longleftrightarrow> (\<forall>r \<in> set rs. \<forall>s \<in> set rs. \<not> unique_clash r s)"
  by (simp add: unique_ok_def list_all_iff)

lemma db_wf_lawful:
  assumes "db_wf d" "lawful now d d'" "same_rest d d'" "unique_ok (jobs d')"
  shows "db_wf d'"
proof -
  have "\<forall>r \<in> set (jobs d'). row_wf r"
    using lawful_wf [OF assms(2)] assms(1) by (simp add: db_wf_def)
  moreover have "\<forall>r \<in> set (jobs d'). sint (row_id r) < job_seq d'"
  proof
    fix r' assume "r' \<in> set (jobs d')"
    then obtain r where r: "r \<in> set (jobs d)" "r' = r \<or> row_step now r r'"
      using lawful_rows [OF assms(2)] by blast
    then have "row_id r' = row_id r" by (auto simp: row_step_frame)
    moreover have "sint (row_id r) < job_seq d" using assms(1) r(1) by (simp add: db_wf_def)
    ultimately show "sint (row_id r') < job_seq d'" using assms(3) by (simp add: same_rest_def)
  qed
  ultimately show ?thesis
    using assms lawful_ids [OF assms(2)] lawful_job_ids [OF assms(2)]
    by (simp add: db_wf_def same_rest_def)
qed

text \<open>The form most statements have: every row is kept or moved, and none comes back to life.\<close>

lemma db_wf_map:
  assumes "db_wf d" "jobs d' = map f (jobs d)" "same_rest d d'"
    and "\<And>r. r \<in> set (jobs d) \<Longrightarrow> f r = r \<or> row_step now r (f r) \<and> (live (f r) \<longrightarrow> live r)"
  shows "db_wf d'"
proof (rule db_wf_lawful [OF assms(1) _ assms(3)])
  show "lawful now d d'" using assms(4) by (intro lawful_map [OF assms(2)]) blast
  have keeps: "row_id (f r) = row_id r \<and> unique_key (f r) = unique_key r \<and> (live (f r) \<longrightarrow> live r)"
    if "r \<in> set (jobs d)" for r
    using assms(4) [OF that] by (auto simp: row_step_frame)
  show "unique_ok (jobs d')"
    using assms(1) keeps by (auto simp: db_wf_def unique_ok_iff unique_clash_def assms(2))
qed

lemma db_wf_update_where:
  assumes "db_wf d"
    and "\<And>r. r \<in> set (jobs d) \<Longrightarrow> p r \<Longrightarrow> row_step now r (f r) \<and> (live (f r) \<longrightarrow> live r)"
  shows "db_wf (update_where p f d)"
  by (rule db_wf_map [OF assms(1), of _ "\<lambda>r. if p r then f r else r" now])
    (auto simp: update_where_def same_rest_def assms(2))

section \<open>The invariant of workflows\<close>

text \<open>
  A job waits for at least as many parents as have edges into it and have not completed.
\<close>

definition completed_ids :: "db \<Rightarrow> i64 set" where
  "completed_ids d = row_id ` set (filter (\<lambda>r. state r = Completed) (jobs d))"

definition open_parents :: "i64 \<Rightarrow> db \<Rightarrow> int" where
  "open_parents c d = int (length (filter (\<lambda>e. e_child e = c \<and> e_parent e \<notin> completed_ids d) (edges d)))"

definition flow_ok :: "db \<Rightarrow> bool" where
  "flow_ok d \<longleftrightarrow> (\<forall>r \<in> set (jobs d). open_parents (row_id r) d \<le> pending_deps r)"

definition db_inv :: "db \<Rightarrow> bool" where
  "db_inv d \<longleftrightarrow> db_wf d \<and> flow_ok d"

lemma db_inv_empty [simp]: "db_inv empty_db"
  by (simp add: db_inv_def flow_ok_def) (simp add: empty_db_def)

lemma open_parents_antimono:
  assumes "completed_ids d \<subseteq> completed_ids d'" "edges d' = edges d"
  shows "open_parents c d' \<le> open_parents c d"
  using assms by (auto simp: open_parents_def intro!: length_filter_mono)

lemma row_step_completed: "row_step now r r' \<Longrightarrow> state r = Completed \<Longrightarrow> state r' = Completed"
  using row_step_life [of now r r'] by (auto simp: life_simps)

lemma lawful_completed:
  assumes "lawful now d d'"
  shows "completed_ids d \<subseteq> completed_ids d'"
proof
  fix i assume "i \<in> completed_ids d"
  then obtain k where "k < length (jobs d)" "state (jobs d ! k) = Completed" "i = row_id (jobs d ! k)"
    by (auto simp: completed_ids_def in_set_conv_nth)
  moreover have "k < length (jobs d')" "jobs d' ! k = jobs d ! k \<or> row_step now (jobs d ! k) (jobs d' ! k)"
    using assms calculation(1) by (auto simp: lawful_def list_all2_conv_all_nth)
  ultimately show "i \<in> completed_ids d'"
    by (auto simp: completed_ids_def row_step_frame(1) image_iff in_set_conv_nth
        intro!: bexI [of _ "jobs d' ! k"] dest: row_step_completed)
qed

lemma flow_ok_lawful:
  assumes "flow_ok d" "lawful now d d'" "edges d' = edges d"
    and "map pending_deps (jobs d') = map pending_deps (jobs d)"
  shows "flow_ok d'"
  unfolding flow_ok_def
proof
  fix r' assume "r' \<in> set (jobs d')"
  then obtain k where k: "k < length (jobs d')" "r' = jobs d' ! k" by (auto simp: in_set_conv_nth)
  have len: "length (jobs d) = length (jobs d')" using assms(4) by (metis length_map)
  let ?r = "jobs d ! k"
  have "row_id r' = row_id ?r" "pending_deps r' = pending_deps ?r"
    using lawful_ids [OF assms(2)] assms(4) k len by (metis nth_map)+
  moreover have "open_parents (row_id ?r) d \<le> pending_deps ?r"
    using assms(1) k(1) len by (simp add: flow_ok_def)
  ultimately show "open_parents (row_id r') d' \<le> pending_deps r'"
    using open_parents_antimono [OF lawful_completed [OF assms(2)] assms(3), of "row_id ?r"] by simp
qed

section \<open>Inserting\<close>

lemma insert_job_cases:
  obtains (exhausted_ids) "insert_job now r d = (Inl (Database SequenceExhausted), d)" "2 ^ 63 \<le> job_seq d"
  | (refused) e where "insert_job now r d = (Inl (Database e), d\<lparr>job_seq := job_seq d + 1\<rparr>)"
  | (inserted) "job_seq d < 2 ^ 63" "row_ok r" "\<not> list_ex (unique_clash (r\<lparr>row_id := word_of_int (job_seq d)\<rparr>)) (jobs d)"
      "insert_job now r d = (Inr (word_of_int (job_seq d)),
         d\<lparr>job_seq := job_seq d + 1, jobs := jobs d @ [r\<lparr>row_id := word_of_int (job_seq d)\<rparr>],
           notified := notified d @ (if scheduled_at r \<le> At now then [queue r] else [])\<rparr>)"
proof -
  have ok: "row_ok (r\<lparr>row_id := i\<rparr>) = row_ok r" for i
    by (simp add: row_ok_def attempt_bounds_def lease_paired_def concurrency_ok_def)
  consider "2 ^ 63 \<le> job_seq d" | "job_seq d < 2 ^ 63" "\<not> row_ok r"
    | "job_seq d < 2 ^ 63" "row_ok r" "list_ex (unique_clash (r\<lparr>row_id := word_of_int (job_seq d)\<rparr>)) (jobs d)"
    | "job_seq d < 2 ^ 63" "row_ok r" "\<not> list_ex (unique_clash (r\<lparr>row_id := word_of_int (job_seq d)\<rparr>)) (jobs d)"
    by linarith
  then show thesis
  proof cases
    case 1 then show thesis using exhausted_ids by (simp add: insert_job_def)
  next
    case 2 then show thesis using refused by (simp add: insert_job_def Let_def ok)
  next
    case 3 then show thesis using refused by (simp add: insert_job_def Let_def ok)
  next
    case 4 then show thesis using inserted by (simp add: insert_job_def Let_def ok)
  qed
qed

lemma row_wf_row_id [simp]: "row_wf (r\<lparr>row_id := i\<rparr>) = row_wf r"
  by (simp add: row_wf_defs)

lemma new_id:
  assumes "db_wf d" "job_seq d < 2 ^ 63"
  shows "sint (word_of_int (job_seq d) :: i64) = job_seq d" "word_of_int (job_seq d) \<notin> job_ids d"
proof -
  show sint: "sint (word_of_int (job_seq d) :: i64) = job_seq d"
    using assms by (intro sint_word_of_int_i64) (auto simp: db_wf_def)
  show "word_of_int (job_seq d) \<notin> job_ids d"
    using assms(1) sint by (auto simp: db_wf_def job_ids_def) 
qed

lemma db_wf_more_seq: "db_wf d \<Longrightarrow> db_wf (d\<lparr>job_seq := job_seq d + 1\<rparr>)"
  by (auto simp: db_wf_def job_ids_def)

lemma insert_job_wf:
  assumes "db_wf d" "row_ok r \<Longrightarrow> row_wf r"
  shows "db_wf (snd (insert_job now r d))"
proof (cases rule: insert_job_cases [of now r d])
  case exhausted_ids
  then show ?thesis using assms(1) by simp
next
  case (refused e)
  then show ?thesis using db_wf_more_seq [OF assms(1)] by simp
next
  case inserted
  let ?r = "r\<lparr>row_id := word_of_int (job_seq d)\<rparr>"
  have "unique_ok (jobs d @ [?r])"
    using assms(1) inserted(3) by (auto simp: db_wf_def unique_ok_iff list_ex_iff unique_clash_def)
  moreover have "\<forall>x \<in> set (jobs d @ [?r]). row_wf x \<and> sint (row_id x) < job_seq d + 1"
    using assms inserted(2) new_id(1) [OF assms(1) inserted(1)] by (force simp: db_wf_def)
  moreover have "distinct (map row_id (jobs d @ [?r]))"
    using assms(1) new_id(2) [OF assms(1) inserted(1)] by (auto simp: db_wf_def job_ids_def)
  ultimately show ?thesis
    using assms(1) by (auto simp: inserted(4) db_wf_def job_ids_def)
qed

lemma insert_job_inv:
  assumes "db_inv d" "row_ok r \<Longrightarrow> row_wf r" "state r \<noteq> Completed"
  shows "db_inv (snd (insert_job now r d))"
proof (cases rule: insert_job_cases [of now r d])
  case exhausted_ids
  then show ?thesis using assms(1) by simp
next
  case (refused e)
  then show ?thesis
    using assms(1) db_wf_more_seq by (simp add: db_inv_def flow_ok_def open_parents_def completed_ids_def)
next
  case inserted
  let ?i = "word_of_int (job_seq d) :: i64" and ?d = "snd (insert_job now r d)"
  have wf: "db_wf d" using assms(1) by (simp add: db_inv_def)
  have same: "completed_ids ?d = completed_ids d" "edges ?d = edges d"
    using assms(3) by (auto simp: inserted(4) completed_ids_def)
  have "filter (\<lambda>e. e_child e = ?i \<and> e_parent e \<notin> completed_ids d) (edges d) = []"
    using wf new_id(2) [OF wf inserted(1)] by (auto simp: filter_empty_conv db_wf_def)
  then have "open_parents ?i ?d = 0" by (simp add: open_parents_def same)
  moreover have "0 \<le> pending_deps r" using inserted(2) by (simp add: row_ok_def)
  moreover have "open_parents j ?d = open_parents j d" for j by (simp add: open_parents_def same)
  ultimately have "flow_ok ?d"
    using assms(1) by (auto simp: inserted(4) flow_ok_def db_inv_def)
  then show ?thesis using insert_job_wf [OF wf assms(2)] by (simp add: db_inv_def)
qed

lemma insert_job_plain:
  assumes "job_seq d < 2 ^ 63" "row_ok r" "unique_key r = None"
  shows "insert_job now r d = (Inr (word_of_int (job_seq d)),
         d\<lparr>job_seq := job_seq d + 1, jobs := jobs d @ [r\<lparr>row_id := word_of_int (job_seq d)\<rparr>],
           notified := notified d @ (if scheduled_at r \<le> At now then [queue r] else [])\<rparr>)"
proof -
  have "\<not> list_ex (unique_clash (r\<lparr>row_id := word_of_int (job_seq d)\<rparr>)) (jobs d)"
    using assms(3) by (simp add: list_ex_iff unique_clash_def)
  moreover have "row_ok (r\<lparr>row_id := i\<rparr>) = row_ok r" for i
    by (simp add: row_ok_def attempt_bounds_def lease_paired_def concurrency_ok_def)
  ultimately show ?thesis using assms(1,2) by (simp add: insert_job_def Let_def)
qed

lemma default_row_wf [simp]: "row_wf (default_row now q t p)"
  by (simp add: default_row_def row_wf_defs)

end
