(* ===== verification/WorkQueue.thy ===== *)
theory WorkQueue
  imports Prelude
begin

text \<open>
  The contract both backends give their workers: identifiers are waiting or held, never
  both, and a claim moves the ones it returns from waiting to held. The client's lemma,
  that no sequence of claims hands the same job out twice, is proved once from it.
\<close>

fun claims :: "('a \<Rightarrow> 's \<Rightarrow> i64 list \<times> 's) \<Rightarrow> 'a list \<Rightarrow> 's \<Rightarrow> i64 list list \<times> 's" where
  "claims c [] s = ([], s)"
| "claims c (a # as) s =
     (let (ids, s1) = c a s; (rest, s2) = claims c as s1 in (ids # rest, s2))"

locale work_queue =
  fixes inv :: "'s \<Rightarrow> bool"
    and waiting :: "'s \<Rightarrow> i64 set"
    and held :: "'s \<Rightarrow> i64 set"
    and claim :: "'a \<Rightarrow> 's \<Rightarrow> i64 list \<times> 's"
  assumes waiting_held: "inv s \<Longrightarrow> waiting s \<inter> held s = {}"
    and claim_inv: "inv s \<Longrightarrow> claim a s = (ids, s') \<Longrightarrow> inv s'"
    and claim_from: "inv s \<Longrightarrow> claim a s = (ids, s') \<Longrightarrow> set ids \<subseteq> waiting s"
    and claim_distinct: "inv s \<Longrightarrow> claim a s = (ids, s') \<Longrightarrow> distinct ids"
    and claim_waiting: "inv s \<Longrightarrow> claim a s = (ids, s') \<Longrightarrow> waiting s' = waiting s - set ids"
    and claim_held: "inv s \<Longrightarrow> claim a s = (ids, s') \<Longrightarrow> held s' = held s \<union> set ids"
begin

lemmas claim_laws = claim_inv claim_from claim_distinct claim_waiting claim_held

lemma claims_exclusive:
  assumes "inv s" "claims claim as s = (idss, s')"
  shows "inv s' \<and> distinct (concat idss) \<and> set (concat idss) \<subseteq> waiting s
    \<and> waiting s' = waiting s - set (concat idss) \<and> held s' = held s \<union> set (concat idss)"
  using assms
proof (induction as arbitrary: s idss s')
  case (Cons a as)
  obtain ids s1 where c: "claim a s = (ids, s1)" by (cases "claim a s")
  obtain rest s2 where r: "claims claim as s1 = (rest, s2)" by (cases "claims claim as s1")
  from Cons.prems(2) c r have eqs: "idss = ids # rest" "s' = s2" by simp_all
  note laws = claim_laws [OF Cons.prems(1) c]
  from Cons.IH [OF laws(1) r] laws show ?case unfolding eqs by auto
qed simp

text \<open>What is waiting or held stays so: a claim loses nothing.\<close>

lemma claims_conserve:
  assumes "inv s" "claims claim as s = (idss, s')"
  shows "waiting s' \<union> held s' = waiting s \<union> held s"
  using claims_exclusive [OF assms] by auto

end

end
