(* ===== verification/Leasing.thy ===== *)
theory Leasing
  imports Store WorkQueue
begin

text \<open>
  Enqueueing and leasing (\<open>crates/gylo-pg/src/lib.rs\<close>): \<open>enqueue\<close>, the two passes of
  \<open>fetch\<close> with the statements \<open>FETCH_UNKEYED\<close>, \<open>KEYED_WAITING\<close> and \<open>FETCH_KEYED\<close>. Rows
  that other transactions hold locks on, and so \<open>SKIP LOCKED\<close> passes over, are an
  argument of a statement. Each pass is shown to move rows lawfully and to keep the
  invariant of the database, and together they provide the contract of a work queue.
\<close>

section \<open>Jobs to insert\<close>

record new_job =
  nj_queue :: string
  nj_task :: string
  nj_payload :: bytes
  nj_priority :: i16
  nj_max_attempts :: i16
  nj_delay :: duration
  nj_concurrency :: "(string \<times> i32) option"
  nj_durable :: bool

definition new_job_for :: "string \<Rightarrow> bytes \<Rightarrow> new_job" where
  "new_job_for t p =
     \<lparr>nj_queue = ''default'', nj_task = t, nj_payload = p, nj_priority = 0, nj_max_attempts = 20,
      nj_delay = 0, nj_concurrency = None, nj_durable = False\<rparr>"

definition on_queue :: "string \<Rightarrow> new_job \<Rightarrow> new_job" where
  "on_queue q j = j\<lparr>nj_queue := q\<rparr>"

definition delayed_by :: "duration \<Rightarrow> new_job \<Rightarrow> new_job" where
  "delayed_by t j = j\<lparr>nj_delay := t\<rparr>"

definition with_priority :: "i16 \<Rightarrow> new_job \<Rightarrow> new_job" where
  "with_priority p j = j\<lparr>nj_priority := p\<rparr>"

definition limited_to :: "string \<Rightarrow> i32 \<Rightarrow> new_job \<Rightarrow> new_job" where
  "limited_to k n j = j\<lparr>nj_concurrency := Some (k, n)\<rparr>"

definition enqueue_row :: "int \<Rightarrow> new_job \<Rightarrow> job_row" where
  "enqueue_row now j =
     (default_row now (nj_queue j) (nj_task j) (nj_payload j))
       \<lparr>priority := nj_priority j, max_attempts := nj_max_attempts j,
        scheduled_at := At (now + int (nj_delay j)),
        concurrency_key := map_option fst (nj_concurrency j),
        max_concurrency := map_option snd (nj_concurrency j),
        durable := nj_durable j\<rparr>"

definition enqueue :: "int \<Rightarrow> new_job \<Rightarrow> i64 op" where
  "enqueue now j =
     bind_text ([nj_queue j, nj_task j] @ (case nj_concurrency j of None \<Rightarrow> [] | Some (k, _) \<Rightarrow> [k]))
       (insert_job now (enqueue_row now j))"

section \<open>Leasing\<close>

text \<open>The job as the worker sees it.\<close>

record job =
  job_id :: i64
  job_task :: string
  job_payload :: bytes
  job_attempt :: i16
  job_max_attempts :: i16
  job_durable :: bool

definition job_from :: "job_row \<Rightarrow> job" where
  "job_from r =
     \<lparr>job_id = row_id r, job_task = task r, job_payload = payload r, job_attempt = attempt r,
      job_max_attempts = max_attempts r, job_durable = durable r\<rparr>"

definition runnable :: "int \<Rightarrow> string list \<Rightarrow> job_row \<Rightarrow> bool" where
  "runnable now queues r \<longleftrightarrow>
     state r = Available \<and> queue r \<in> set queues \<and> scheduled_at r \<le> At now"

text \<open>\<open>ORDER BY priority, scheduled_at, id\<close>.\<close>

definition order_key :: "job_row \<Rightarrow> int \<times> timestamptz \<times> int" where
  "order_key r = (sint (priority r), scheduled_at r, sint (row_id r))"

definition lease_row :: "int \<Rightarrow> uuid \<Rightarrow> duration \<Rightarrow> job_row \<Rightarrow> job_row" where
  "lease_row now worker lease r =
     r\<lparr>state := Running, locked_by := Some worker, lease_expires_at := Some (now + int lease),
       started_at := Some now, attempt := attempt r + 1\<rparr>"

text \<open>The \<open>UPDATE \<dots> FROM\<close> both passes end in, with the errors its arithmetic and checks raise.\<close>

definition lease_selected :: "int \<Rightarrow> uuid \<Rightarrow> duration \<Rightarrow> job_row list \<Rightarrow> job_row list op" where
  "lease_selected now worker lease sel d =
     (if list_ex (\<lambda>r. 32767 < sint (attempt r) + 1) sel
      then (Inl (Database NumericOutOfRange), d)
      else if list_ex (\<lambda>r. \<not> attempt_bounds (lease_row now worker lease r)) sel
      then (Inl (Database (CheckViolation ''gylo_job_attempt_bounds'')), d)
      else (Inr (map (lease_row now worker lease) sel),
            update_where (\<lambda>r. row_id r \<in> row_id ` set sel) (lease_row now worker lease) d))"

definition keyed_waiting :: "int \<Rightarrow> string list \<Rightarrow> db \<Rightarrow> bool" where
  "keyed_waiting now queues d =
     list_ex (\<lambda>k. state k = Available \<and> queue k \<in> set queues \<and> concurrency_key k \<noteq> None
        \<and> scheduled_at k \<le> At now) (jobs d)"

definition select_unkeyed :: "int \<Rightarrow> string list \<Rightarrow> int \<Rightarrow> i64 list \<Rightarrow> db \<Rightarrow> job_row list" where
  "select_unkeyed now queues limit skip d =
     take (nat limit) (sort_key order_key
       (filter (\<lambda>r. runnable now queues r \<and> concurrency_key r = None \<and> row_id r \<notin> set skip) (jobs d)))"

definition fetch_unkeyed ::
  "string list \<Rightarrow> int \<Rightarrow> uuid \<Rightarrow> duration \<Rightarrow> int \<Rightarrow> i64 list \<Rightarrow> (job_row \<times> bool) list op"
where
  "fetch_unkeyed queues limit worker lease now skip = bind_text queues (\<lambda>d.
      if limit < 0 then (Inl (Database NegativeLimit), d)
      else case lease_selected now worker lease (select_unkeyed now queues limit skip d) d of
             (Inl e, d') \<Rightarrow> (Inl e, d')
           | (Inr rows, d') \<Rightarrow> (Inr (map (\<lambda>r. (r, keyed_waiting now queues d)) rows), d'))"

text \<open>Running jobs of a key, and the limit a row asks for.\<close>

definition running_with :: "string \<Rightarrow> db \<Rightarrow> nat" where
  "running_with k d = count_where (\<lambda>r. state r = Running \<and> concurrency_key r = Some k) d"

definition already_running :: "db \<Rightarrow> job_row \<Rightarrow> int" where
  "already_running d r = (case concurrency_key r of None \<Rightarrow> 0 | Some k \<Rightarrow> int (running_with k d))"

definition row_limit :: "job_row \<Rightarrow> int" where
  "row_limit r = (case max_concurrency r of None \<Rightarrow> 0 | Some n \<Rightarrow> sint n)"

definition select_keyed :: "int \<Rightarrow> string list \<Rightarrow> int \<Rightarrow> i64 list \<Rightarrow> db \<Rightarrow> job_row list" where
  "select_keyed now queues limit skip d =
     take (nat limit) (sort_key order_key
       (filter (\<lambda>r. runnable now queues r \<and> concurrency_key r \<noteq> None
            \<and> already_running d r < row_limit r \<and> row_id r \<notin> set skip) (jobs d)))"

text \<open>
  The ranking of the locked batch: \<open>row_number()\<close> within the key, in the batch's order, and
  the rows whose rank still fits under their limit.
\<close>

fun admit :: "(job_row \<Rightarrow> int) \<Rightarrow> job_row list \<Rightarrow> job_row list \<Rightarrow> job_row list" where
  "admit already seen [] = []"
| "admit already seen (r # rs) =
     (let n = 1 + int (length (filter (\<lambda>s. concurrency_key s = concurrency_key r) seen)) in
      if already r + n \<le> row_limit r then r # admit already (seen @ [r]) rs
      else admit already (seen @ [r]) rs)"

definition fetch_keyed ::
  "string list \<Rightarrow> int \<Rightarrow> uuid \<Rightarrow> duration \<Rightarrow> int \<Rightarrow> i64 list \<Rightarrow> job_row list op"
where
  "fetch_keyed queues limit worker lease now skip = bind_text queues (\<lambda>d.
      if limit < 0 then (Inl (Database NegativeLimit), d)
      else lease_selected now worker lease
             (admit (already_running d) [] (select_keyed now queues limit skip d)) d)"

text \<open>
  What surrounds the statements of one call: the clock, the locks others hold, what other
  sessions commit before a statement runs, and faults of the connection. A fault is either
  seen before the statement takes effect or after, when only the answer is lost. The
  advisory lock of the keyed pass keeps other keyed passes out for its whole transaction,
  so the pass is one statement here.
\<close>

datatype fault = NoFault | Refused | Unacknowledged

record env =
  clock :: "nat \<Rightarrow> int"
  skips :: "nat \<Rightarrow> i64 list"
  others :: "nat \<Rightarrow> db \<Rightarrow> db"
  faults :: "nat \<Rightarrow> fault"

definition quiet :: "int \<Rightarrow> env" where
  "quiet now = \<lparr>clock = (\<lambda>_. now), skips = (\<lambda>_. []), others = (\<lambda>_ d. d), faults = (\<lambda>_. NoFault)\<rparr>"

definition run_stmt :: "env \<Rightarrow> nat \<Rightarrow> (int \<Rightarrow> i64 list \<Rightarrow> 'a op) \<Rightarrow> 'a op" where
  "run_stmt v k stmt d =
     (let d1 = others v k d; (r, d2) = stmt (clock v k) (skips v k) d1 in
      case faults v k of
        NoFault \<Rightarrow> (r, d2)
      | Refused \<Rightarrow> (Inl (Database ConnectionLost), d1)
      | Unacknowledged \<Rightarrow> (Inl (Database ConnectionLost), d2))"

definition fetch :: "env \<Rightarrow> string list \<Rightarrow> int \<Rightarrow> duration \<Rightarrow> uuid \<Rightarrow> job list op" where
  "fetch v queues limit lease worker d =
     (case run_stmt v 0 (fetch_unkeyed queues limit worker lease) d of
        (Inl e, d1) \<Rightarrow> (Inl e, d1)
      | (Inr rows, d1) \<Rightarrow>
          (case (case rows of
                   (_, kw) # _ \<Rightarrow> (Inr kw, d1)
                 | [] \<Rightarrow> run_stmt v 1 (\<lambda>now _. bind_text queues (\<lambda>d. (Inr (keyed_waiting now queues d), d))) d1) of
             (Inl e, d2) \<Rightarrow> (Inl e, d2)
           | (Inr waiting, d2) \<Rightarrow>
               let jobs = map (\<lambda>p. job_from (fst p)) rows in
               if \<not> waiting then (Inr jobs, d2)
               else
                 let spare = max (limit - int (length jobs)) 1 in
                 case run_stmt v 2 (fetch_keyed queues spare worker lease) d2 of
                   (Inl e, d3) \<Rightarrow> (Inl e, d3)
                 | (Inr keyed, d3) \<Rightarrow> (Inr (jobs @ map job_from keyed), d3)))"

section \<open>Leasing moves rows along their life\<close>

lemma run_stmt_quiet [simp]: "run_stmt (quiet now) n stmt d = stmt now [] d"
  by (simp add: run_stmt_def quiet_def split: prod.splits)

lemma run_stmt_ok: "run_stmt v n stmt d = (Inr x, d') \<Longrightarrow> stmt (clock v n) (skips v n) (others v n d) = (Inr x, d')"
  by (auto simp: run_stmt_def Let_def split: prod.splits fault.splits)

lemma lease_row_simps [simp, row_simps]:
  "row_id (lease_row now w l r) = row_id r" "state (lease_row now w l r) = Running"
  "locked_by (lease_row now w l r) = Some w" "lease_expires_at (lease_row now w l r) = Some (now + int l)"
  "attempt (lease_row now w l r) = attempt r + 1" "max_attempts (lease_row now w l r) = max_attempts r"
  "concurrency_key (lease_row now w l r) = concurrency_key r"
  by (simp_all add: lease_row_def)

definition leasable :: "int \<Rightarrow> db \<Rightarrow> job_row list \<Rightarrow> bool" where
  "leasable now d sel \<longleftrightarrow> distinct (map row_id sel)
     \<and> (\<forall>r \<in> set sel. r \<in> set (jobs d) \<and> state r = Available \<and> scheduled_at r \<le> At now)"

lemma select_unkeyed_leasable: "db_wf d \<Longrightarrow> leasable now d (select_unkeyed now queues limit skip d)"
  using set_take_sort_key [of "nat limit" order_key "filter (\<lambda>r. runnable now queues r \<and> concurrency_key r = None \<and> row_id r \<notin> set skip) (jobs d)"]
  by (auto simp: leasable_def select_unkeyed_def distinct_map_sort_key distinct_map_filter db_wf_def
      runnable_def intro!: distinct_map_take)

lemma select_keyed_leasable: "db_wf d \<Longrightarrow> leasable now d (select_keyed now queues limit skip d)"
  using set_take_sort_key [of "nat limit" order_key "filter (\<lambda>r. runnable now queues r \<and> concurrency_key r \<noteq> None
            \<and> already_running d r < row_limit r \<and> row_id r \<notin> set skip) (jobs d)"]
  by (auto simp: leasable_def select_keyed_def distinct_map_sort_key distinct_map_filter db_wf_def
      runnable_def intro!: distinct_map_take)

lemma set_admit: "set (admit already seen rs) \<subseteq> set rs"
  by (induction already seen rs rule: admit.induct) (auto simp: Let_def)

lemma distinct_admit: "distinct (map row_id rs) \<Longrightarrow> distinct (map row_id (admit already seen rs))"
proof (induction already seen rs rule: admit.induct)
  case (2 already seen r rs)
  then show ?case
    using set_admit [of already "seen @ [r]" rs] by (auto simp: Let_def)
qed simp

lemma admit_leasable: "leasable now d rs \<Longrightarrow> leasable now d (admit already seen rs)"
  using set_admit [of already seen rs] by (auto simp: leasable_def distinct_admit)

lemma leasable_member:
  assumes "db_wf d" "leasable now d sel" "r \<in> set (jobs d)"
  shows "row_id r \<in> row_id ` set sel \<longleftrightarrow> r \<in> set sel"
  using assms job_row_eqI [of "jobs d" r] by (auto simp: leasable_def db_wf_def)

text \<open>The three outcomes of the closing \<open>UPDATE\<close>.\<close>

lemma lease_selected_cases:
  obtains (refused) e where "lease_selected now w l sel d = (Inl (Database e), d)"
  | (leased) "\<forall>r \<in> set sel. sint (attempt r) < sint (max_attempts r)"
      "lease_selected now w l sel d = (Inr (map (lease_row now w l) sel),
         update_where (\<lambda>r. row_id r \<in> row_id ` set sel) (lease_row now w l) d)"
proof (cases "list_ex (\<lambda>r. 32767 < sint (attempt r) + 1) sel \<or> list_ex (\<lambda>r. \<not> attempt_bounds (lease_row now w l r)) sel")
  case True
  then have "\<exists>e. lease_selected now w l sel d = (Inl (Database e), d)"
    by (auto simp: lease_selected_def)
  then show ?thesis using refused by blast
next
  case False
  have "sint (attempt r) < sint (max_attempts r)" if "r \<in> set sel" for r
  proof -
    have "sint (attempt r) < 32767" "sint (attempt r + 1) \<le> sint (max_attempts r)"
      using that False by (auto simp: list_ex_iff attempt_bounds_def)
    then show ?thesis using sint_plus_one_i16 [of "attempt r"] by linarith
  qed
  with False show ?thesis using leased by (simp add: lease_selected_def)
qed

lemma lease_selected_lawful:
  assumes "db_wf d" "leasable now d sel"
  shows "lawful now d (snd (lease_selected now w l sel d))"
proof (cases rule: lease_selected_cases [of now w l sel d])
  case leased
  have "row_step now r (lease_row now w l r)" if "r \<in> set sel" for r
    using that assms(2) leased(1) by (auto simp: leasable_def lease_row_def intro: row_step.lease)
  then show ?thesis
    unfolding leased(2) snd_conv
    by (intro lawful_update_where) (simp add: leasable_member [OF assms])
qed simp

lemma lease_selected_same_rest: "same_rest d (snd (lease_selected now w l sel d))"
  by (cases rule: lease_selected_cases [of now w l sel d]) simp_all

lemma lease_selected_wf:
  assumes "db_wf d" "leasable now d sel"
  shows "db_wf (snd (lease_selected now w l sel d))"
proof (cases rule: lease_selected_cases [of now w l sel d])
  case leased
  have "row_step now r (lease_row now w l r) \<and> live r" if "r \<in> set sel" for r
    using that assms(2) leased(1) by (auto simp: leasable_def lease_row_def live_def intro: row_step.lease)
  then show ?thesis
    unfolding leased(2) snd_conv
    by (intro db_wf_update_where [OF assms(1), of _ now]) (simp add: leasable_member [OF assms])
qed (simp add: assms(1))


text \<open>The passes, as the selection each hands to the closing \<open>UPDATE\<close>.\<close>

lemma fetch_unkeyed_cases:
  obtains (refused) e where "fetch_unkeyed queues limit w l now skip d = (Inl (Database e), d)"
  | (leased) sel where "sel = select_unkeyed now queues limit skip d" "0 \<le> limit"
      "\<forall>r \<in> set sel. sint (attempt r) < sint (max_attempts r)"
      "fetch_unkeyed queues limit w l now skip d =
         (Inr (map (\<lambda>r. (lease_row now w l r, keyed_waiting now queues d)) sel),
          snd (lease_selected now w l sel d))"
      "fst (lease_selected now w l sel d) = Inr (map (lease_row now w l) sel)"
proof (cases "list_all text_ok queues \<and> 0 \<le> limit")
  case True
  let ?sel = "select_unkeyed now queues limit skip d"
  have eq: "fetch_unkeyed queues limit w l now skip d = (case lease_selected now w l ?sel d of
      (Inl e, d') \<Rightarrow> (Inl e, d')
    | (Inr rows, d') \<Rightarrow> (Inr (map (\<lambda>r. (r, keyed_waiting now queues d)) rows), d'))"
    using True by (simp add: fetch_unkeyed_def bind_text_def)
  show ?thesis
  proof (cases rule: lease_selected_cases [of now w l ?sel d])
    case (refused e)
    show ?thesis by (rule that(1) [of e]) (simp add: eq refused)
  next
    case leased
    show ?thesis
      by (rule that(2) [OF refl]) (use True leased in \<open>simp_all add: eq\<close>)
  qed
next
  case False
  then have "\<exists>e. fetch_unkeyed queues limit w l now skip d = (Inl (Database e), d)"
    by (auto simp: fetch_unkeyed_def bind_text_def)
  then show ?thesis using that(1) by blast
qed

lemma fetch_keyed_cases:
  obtains (refused) e where "fetch_keyed queues limit w l now skip d = (Inl (Database e), d)"
  | (leased) sel where "sel = admit (already_running d) [] (select_keyed now queues limit skip d)" "0 \<le> limit"
      "\<forall>r \<in> set sel. sint (attempt r) < sint (max_attempts r)"
      "fetch_keyed queues limit w l now skip d =
         (Inr (map (lease_row now w l) sel), snd (lease_selected now w l sel d))"
      "fst (lease_selected now w l sel d) = Inr (map (lease_row now w l) sel)"
proof (cases "list_all text_ok queues \<and> 0 \<le> limit")
  case True
  let ?sel = "admit (already_running d) [] (select_keyed now queues limit skip d)"
  have eq: "fetch_keyed queues limit w l now skip d = lease_selected now w l ?sel d"
    using True by (simp add: fetch_keyed_def bind_text_def)
  show ?thesis
  proof (cases rule: lease_selected_cases [of now w l ?sel d])
    case (refused e)
    show ?thesis by (rule that(1) [of e]) (simp add: eq refused)
  next
    case leased
    show ?thesis
      by (rule that(2) [OF refl]) (use True leased in \<open>simp_all add: eq\<close>)
  qed
next
  case False
  then have "\<exists>e. fetch_keyed queues limit w l now skip d = (Inl (Database e), d)"
    by (auto simp: fetch_keyed_def bind_text_def)
  then show ?thesis using that(1) by blast
qed

lemma fetch_unkeyed_wf: "db_wf d \<Longrightarrow> db_wf (snd (fetch_unkeyed queues limit w l now skip d))"
  by (cases rule: fetch_unkeyed_cases [of queues limit w l now skip d])
    (simp_all add: lease_selected_wf select_unkeyed_leasable)

lemma fetch_keyed_wf: "db_wf d \<Longrightarrow> db_wf (snd (fetch_keyed queues limit w l now skip d))"
  by (cases rule: fetch_keyed_cases [of queues limit w l now skip d])
    (simp_all add: lease_selected_wf admit_leasable select_keyed_leasable)

lemma fetch_unkeyed_lawful: "db_wf d \<Longrightarrow> lawful now d (snd (fetch_unkeyed queues limit w l now skip d))"
  by (cases rule: fetch_unkeyed_cases [of queues limit w l now skip d])
    (simp_all add: lease_selected_lawful select_unkeyed_leasable)

lemma fetch_keyed_lawful: "db_wf d \<Longrightarrow> lawful now d (snd (fetch_keyed queues limit w l now skip d))"
  by (cases rule: fetch_keyed_cases [of queues limit w l now skip d])
    (simp_all add: lease_selected_lawful admit_leasable select_keyed_leasable)

section \<open>The contract of the queue\<close>

definition waiting_ids :: "db \<Rightarrow> i64 set" where
  "waiting_ids d = row_id ` set (filter (\<lambda>r. state r = Available) (jobs d))"

definition running_ids :: "db \<Rightarrow> i64 set" where
  "running_ids d = row_id ` set (filter (\<lambda>r. state r = Running) (jobs d))"

lemma waiting_idsI: "r \<in> set (jobs d) \<Longrightarrow> state r = Available \<Longrightarrow> row_id r \<in> waiting_ids d"
  by (simp add: waiting_ids_def)

text \<open>One pass of one worker, and the identifiers it was given.\<close>

record pass =
  p_keyed :: bool
  p_queues :: "string list"
  p_limit :: int
  p_worker :: uuid
  p_lease :: duration
  p_now :: int
  p_skip :: "i64 list"

definition run_pass :: "pass \<Rightarrow> db \<Rightarrow> i64 list \<times> db" where
  "run_pass p d =
     (if p_keyed p
      then case fetch_keyed (p_queues p) (p_limit p) (p_worker p) (p_lease p) (p_now p) (p_skip p) d of
             (Inl e, d') \<Rightarrow> ([], d') | (Inr rows, d') \<Rightarrow> (map row_id rows, d')
      else case fetch_unkeyed (p_queues p) (p_limit p) (p_worker p) (p_lease p) (p_now p) (p_skip p) d of
             (Inl e, d') \<Rightarrow> ([], d') | (Inr rows, d') \<Rightarrow> (map (row_id \<circ> fst) rows, d'))"

lemma lease_selected_jobs:
  assumes "db_wf d" "leasable now d sel" "fst (lease_selected now w l sel d) = Inr rows"
  shows "rows = map (lease_row now w l) sel"
    "jobs (snd (lease_selected now w l sel d)) = map (\<lambda>r. if r \<in> set sel then lease_row now w l r else r) (jobs d)"
  by (cases rule: lease_selected_cases [of now w l sel d];
      use assms in \<open>simp add: update_where_def leasable_member [OF assms(1,2)]\<close>)+

lemma lease_selected_moves:
  assumes "db_wf d" "leasable now d sel" "fst (lease_selected now w l sel d) = Inr rows"
  defines "d' \<equiv> snd (lease_selected now w l sel d)"
  shows "row_id ` set sel \<subseteq> waiting_ids d \<and> waiting_ids d' = waiting_ids d - row_id ` set sel
    \<and> running_ids d' = running_ids d \<union> row_id ` set sel"
proof -
  define f where "f = (\<lambda>r. if r \<in> set sel then lease_row now w l r else r)"
  have d': "jobs d' = map f (jobs d)"
    unfolding d'_def f_def by (rule lease_selected_jobs(2) [OF assms(1-3)])
  have f: "row_id (f r) = row_id r" "state (f r) = Available \<longleftrightarrow> r \<notin> set sel \<and> state r = Available"
    "state (f r) = Running \<longleftrightarrow> r \<in> set sel \<or> state r = Running" for r
    by (simp_all add: f_def)
  have sub: "r \<in> set (jobs d) \<and> state r = Available" if "r \<in> set sel" for r
    using that assms(2) by (simp add: leasable_def)
  have "waiting_ids d' = row_id ` {r \<in> set (jobs d). r \<notin> set sel \<and> state r = Available}"
    by (simp add: waiting_ids_def d' f filter_map image_image o_def)
  also have "{r \<in> set (jobs d). r \<notin> set sel \<and> state r = Available}
      = {r \<in> set (jobs d). state r = Available} - set sel" by auto
  also have "row_id ` \<dots> = waiting_ids d - row_id ` set sel"
    unfolding waiting_ids_def set_filter
    by (rule inj_on_image_set_diff [of _ "set (jobs d)"]) (use assms(1) sub in \<open>auto simp: db_wf_def distinct_map\<close>)
  finally have "waiting_ids d' = waiting_ids d - row_id ` set sel" .
  moreover have "running_ids d' = row_id ` {r \<in> set (jobs d). r \<in> set sel \<or> state r = Running}"
    by (simp add: running_ids_def d' f filter_map image_image o_def)
  then have "running_ids d' = running_ids d \<union> row_id ` set sel"
    using sub by (auto simp: running_ids_def)
  ultimately show ?thesis using sub by (auto simp: waiting_ids_def)
qed

lemma waiting_running_disjoint: "db_wf d \<Longrightarrow> waiting_ids d \<inter> running_ids d = {}"
  by (auto simp: waiting_ids_def running_ids_def db_wf_def dest: job_row_eqI)

lemma run_pass_cases:
  assumes "db_wf d"
  obtains (refused) "run_pass p d = ([], d)"
  | (leased) sel rows where "leasable (p_now p) d sel"
      "fst (lease_selected (p_now p) (p_worker p) (p_lease p) sel d) = Inr rows"
      "run_pass p d = (map row_id sel, snd (lease_selected (p_now p) (p_worker p) (p_lease p) sel d))"
proof (cases "p_keyed p")
  case True
  show ?thesis
  proof (cases rule: fetch_keyed_cases [of "p_queues p" "p_limit p" "p_worker p" "p_lease p" "p_now p" "p_skip p" d])
    case (refused e)
    show ?thesis by (rule that(1)) (simp add: run_pass_def True refused)
  next
    case (leased sel)
    show ?thesis
      by (rule that(2) [OF _ leased(5)])
        (use True leased in \<open>simp_all add: run_pass_def prod.case_eq_if o_def
           admit_leasable select_keyed_leasable assms\<close>)
  qed
next
  case False
  show ?thesis
  proof (cases rule: fetch_unkeyed_cases [of "p_queues p" "p_limit p" "p_worker p" "p_lease p" "p_now p" "p_skip p" d])
    case (refused e)
    show ?thesis by (rule that(1)) (simp add: run_pass_def False refused)
  next
    case (leased sel)
    show ?thesis
      by (rule that(2) [OF _ leased(5)])
        (use False leased in \<open>simp_all add: run_pass_def o_def select_unkeyed_leasable assms\<close>)
  qed
qed

interpretation pg_queue: work_queue db_wf waiting_ids running_ids run_pass
proof unfold_locales
  fix d :: db assume wf: "db_wf d"
  show "waiting_ids d \<inter> running_ids d = {}" by (rule waiting_running_disjoint [OF wf])
  fix p ids d' assume run: "run_pass p d = (ids, d')"
  have "db_wf d' \<and> set ids \<subseteq> waiting_ids d \<and> distinct ids
    \<and> waiting_ids d' = waiting_ids d - set ids \<and> running_ids d' = running_ids d \<union> set ids"
    using wf
  proof (cases rule: run_pass_cases [where p = p])
    case refused
    then show ?thesis using run wf by simp
  next
    case (leased sel rows)
    then have eqs: "ids = map row_id sel" "d' = snd (lease_selected (p_now p) (p_worker p) (p_lease p) sel d)"
      using run by simp_all
    show ?thesis
      using lease_selected_moves [OF wf leased(1,2)] lease_selected_wf [OF wf leased(1)] leased(1)
      by (simp add: eqs leasable_def)
  qed
  then show "db_wf d'" "set ids \<subseteq> waiting_ids d" "distinct ids"
    "waiting_ids d' = waiting_ids d - set ids" "running_ids d' = running_ids d \<union> set ids"
    by blast+
qed

end
