(* ===== verification/Samples.thy ===== *)
theory Samples
  imports Leasing
begin

text \<open>
  Small databases the witnesses of the development are evaluated on: two plain jobs, the
  second more urgent, and two jobs that share a key with room for one.
\<close>

definition plain_row :: "i64 \<Rightarrow> job_row" where
  "plain_row i = (default_row 0 ''default'' ''send'' [])\<lparr>row_id := i\<rparr>"

definition keyed_row :: "i64 \<Rightarrow> job_row" where
  "keyed_row i = (plain_row i)\<lparr>concurrency_key := Some ''k'', max_concurrency := Some 1\<rparr>"

definition db_with :: "job_row list \<Rightarrow> db" where
  "db_with rs = empty_db\<lparr>jobs := rs, job_seq := 100\<rparr>"

definition sample_db :: db where
  "sample_db = db_with [plain_row 1, (plain_row 2)\<lparr>priority := -1\<rparr>, keyed_row 3, keyed_row 4]"

lemmas sample_defs = sample_db_def db_with_def plain_row_def keyed_row_def default_row_def empty_db_def

lemmas sample_wf_simps = db_wf_def sample_defs row_wf_defs unique_ok_def unique_clash_def

lemma sample_db_wf [simp]: "db_wf sample_db"
  by (simp add: sample_wf_simps)

text \<open>A job enqueued with no attempts at all, and a keyed one in the same condition.\<close>

definition poison_db :: db where
  "poison_db = snd (enqueue 0 ((new_job_for ''send'' [])\<lparr>nj_max_attempts := 0\<rparr>) sample_db)"

definition stuck_db :: db where
  "stuck_db = db_with [plain_row 1, (keyed_row 2)\<lparr>max_attempts := 0\<rparr>]"

lemma stuck_db_wf [simp]: "db_wf stuck_db"
  by (simp add: stuck_db_def sample_wf_simps)

text \<open>Two workers hold a job each; the lease of the first ends at 30, of the second at 100.\<close>

definition leased_row :: "i64 \<Rightarrow> uuid \<Rightarrow> int \<Rightarrow> job_row" where
  "leased_row i w e =
     (plain_row i)\<lparr>state := Running, attempt := 1, started_at := Some 0, locked_by := Some w,
       lease_expires_at := Some e\<rparr>"

definition leased_db :: db where
  "leased_db = db_with [leased_row 1 7 30, leased_row 2 8 100]"

lemma leased_db_wf [simp]: "db_wf leased_db"
  by (simp add: leased_db_def leased_row_def sample_wf_simps)

text \<open>A workflow: jobs 1 and 2, both running, are the parents of 3, which is the parent of 4.\<close>

definition parked_row :: "i64 \<Rightarrow> int \<Rightarrow> job_row" where
  "parked_row i n = (plain_row i)\<lparr>scheduled_at := Infinity, pending_deps := n, workflow_id := Some 1\<rparr>"

definition flow_db :: db where
  "flow_db =
     (db_with [leased_row 1 7 30, leased_row 2 7 30, parked_row 3 2, parked_row 4 1, plain_row 5])
       \<lparr>edges := map (\<lambda>(p, c). \<lparr>e_workflow = 1, e_parent = p, e_child = c\<rparr>) [(1, 3), (2, 3), (3, 4)],
        workflow_ids := [1]\<rparr>"

lemma flow_db_inv [simp]: "db_inv flow_db"
  by (simp add: db_inv_def flow_db_def leased_row_def parked_row_def sample_wf_simps job_ids_def
      flow_ok_def open_parents_def completed_ids_def)

text \<open>Two completed jobs, a dead letter and one still waiting.\<close>

definition ended_row :: "i64 \<Rightarrow> job_state \<Rightarrow> int \<Rightarrow> job_row" where
  "ended_row i s t = (plain_row i)\<lparr>state := s, attempt := 1, finalized_at := Some t\<rparr>"

definition history_db :: db where
  "history_db = db_with [ended_row 1 Completed 10, ended_row 2 Completed 5, ended_row 3 Discarded 3, plain_row 4]"

lemma history_db_inv [simp]: "db_inv history_db"
  by (simp add: db_inv_def history_db_def ended_row_def sample_wf_simps flow_ok_def open_parents_def)

definition sample_pass :: "bool \<Rightarrow> uuid \<Rightarrow> pass" where
  "sample_pass keyed w =
     \<lparr>p_keyed = keyed, p_queues = [''default''], p_limit = 1, p_worker = w, p_lease = 30,
      p_now = 10, p_skip = []\<rparr>"

end
