(* ===== verification/Admission.thy ===== *)
theory Admission
  imports Samples
begin

text \<open>
  What a fetch promises: exclusivity, urgency, the limit of a key, the size of a batch and
  that keyed jobs do not starve; and what stops it.
\<close>

section \<open>What a pass hands out\<close>

lemma order_key_lease_row [simp]: "order_key (lease_row now w l r) = order_key r"
  by (simp add: order_key_def lease_row_def)

text \<open>
  C14: No two fetches ever hand out the same job. For any sequence of unkeyed and keyed
  passes, by any workers, over any queues, at any times and with any rows locked by others,
  the identifiers handed out are pairwise distinct and were all waiting; afterwards exactly
  they have moved from waiting to running, and the invariant of the database holds.
\<close>

theorem passes_never_overlap:
  assumes "db_wf d" "claims run_pass ps d = (idss, d')"
  shows "distinct (concat idss) \<and> set (concat idss) \<subseteq> waiting_ids d
    \<and> waiting_ids d' = waiting_ids d - set (concat idss)
    \<and> running_ids d' = running_ids d \<union> set (concat idss) \<and> db_wf d'"
  using pg_queue.claims_exclusive [OF assms] by blast

theorem passes_never_overlap_witness:
  "fst (claims run_pass [sample_pass False 7, sample_pass True 8, sample_pass False 9, sample_pass True 7] sample_db)
     = [[2], [3], [1], []]
   \<and> distinct (concat (fst (claims run_pass [sample_pass False 7, sample_pass True 8, sample_pass False 9, sample_pass True 7] sample_db)))"
  using passes_never_overlap [OF sample_db_wf surjective_pairing,
      of "[sample_pass False 7, sample_pass True 8, sample_pass False 9, sample_pass True 7]"]
  by (intro conjI) (code_simp, blast)

definition unkeyed_candidate :: "int \<Rightarrow> string list \<Rightarrow> i64 list \<Rightarrow> job_row \<Rightarrow> bool" where
  "unkeyed_candidate now queues skip c \<longleftrightarrow>
     runnable now queues c \<and> concurrency_key c = None \<and> row_id c \<notin> set skip"

lemma select_unkeyed_urgent:
  assumes "c \<in> set (jobs d)" "unkeyed_candidate now queues skip c"
    "c \<notin> set (select_unkeyed now queues limit skip d)"
  shows "length (select_unkeyed now queues limit skip d) = nat limit
    \<and> (\<forall>r \<in> set (select_unkeyed now queues limit skip d). order_key r \<le> order_key c)"
proof -
  let ?cs = "filter (unkeyed_candidate now queues skip) (jobs d)"
  have sel: "select_unkeyed now queues limit skip d = take (nat limit) (sort_key order_key ?cs)"
    by (simp add: select_unkeyed_def unkeyed_candidate_def [abs_def])
  have c: "c \<in> set ?cs" using assms(1,2) by simp
  have "\<not> length (take (nat limit) (sort_key order_key ?cs)) < nat limit"
    using take_sort_key_all [of "nat limit" order_key ?cs] c assms(3) by (auto simp: sel)
  then have "length (select_unkeyed now queues limit skip d) = nat limit" by (simp add: sel)
  moreover have "order_key r \<le> order_key c" if "r \<in> set (select_unkeyed now queues limit skip d)" for r
    using take_sort_key_least [OF c, of "nat limit" order_key r] assms(3) that by (simp add: sel)
  ultimately show ?thesis by blast
qed

lemma select_keyed_urgent:
  assumes "c \<in> set (jobs d)" "runnable now queues c" "concurrency_key c \<noteq> None" "row_id c \<notin> set skip"
    "already_running d c < row_limit c" "c \<notin> set (select_keyed now queues limit skip d)"
  shows "length (select_keyed now queues limit skip d) = nat limit
    \<and> (\<forall>r \<in> set (select_keyed now queues limit skip d). order_key r \<le> order_key c)"
proof -
  let ?cs = "filter (\<lambda>r. runnable now queues r \<and> concurrency_key r \<noteq> None
      \<and> already_running d r < row_limit r \<and> row_id r \<notin> set skip) (jobs d)"
  have c: "c \<in> set ?cs" using assms(1-5) by simp
  have "\<not> length (take (nat limit) (sort_key order_key ?cs)) < nat limit"
    using take_sort_key_all [of "nat limit" order_key ?cs] c assms(6) by (auto simp: select_keyed_def)
  then have "length (select_keyed now queues limit skip d) = nat limit" by (simp add: select_keyed_def)
  moreover have "order_key r \<le> order_key c" if "r \<in> set (select_keyed now queues limit skip d)" for r
    using take_sort_key_least [OF c, of "nat limit" order_key r] assms(6) that by (simp add: select_keyed_def)
  ultimately show ?thesis by blast
qed

definition same_key :: "job_row \<Rightarrow> job_row list \<Rightarrow> int" where
  "same_key c rs = int (length (filter (\<lambda>r. concurrency_key r = concurrency_key c) rs))"

lemma admit_leaves:
  assumes "c \<in> set rs" "c \<notin> set (admit already seen rs)"
  shows "\<exists>ahead behind. rs = ahead @ c # behind \<and> row_limit c \<le> already c + same_key c (seen @ ahead)"
  using assms
proof (induction already seen rs rule: admit.induct)
  case (2 already seen r rs)
  show ?case
  proof (cases "c = r")
    case True
    then have "row_limit c \<le> already c + same_key c (seen @ [])"
      using "2.prems"(2) by (auto simp: same_key_def Let_def split: if_splits)
    then show ?thesis using True by blast
  next
    case False
    then have "c \<in> set rs" "c \<notin> set (admit already (seen @ [r]) rs)"
      using "2.prems" by (auto simp: Let_def split: if_splits)
    then obtain ahead behind where "rs = ahead @ c # behind" "row_limit c \<le> already c + same_key c ((seen @ [r]) @ ahead)"
      using "2.IH" by (auto simp: Let_def split: if_splits)
    then show ?thesis by (intro exI [of _ "r # ahead"] exI [of _ behind]) simp
  qed
qed simp

text \<open>
  C31: A fetch takes the most urgent jobs. A runnable job that no other session has locked is left
  behind by its pass only for these reasons. One without a key: the limit is reached, and every job
  handed out comes before it by priority, then scheduled time, then identifier. One with a key:
  as many jobs of its key run as its limit allows; or the batch is full of jobs that come
  before it; or with the running jobs of its key those ahead of it in the batch reach its limit.
\<close>

theorem fetch_takes_the_most_urgent:
  assumes "db_wf d" "c \<in> set (jobs d)" "runnable now queues c" "row_id c \<notin> set skip"
  shows "(concurrency_key c = None \<and> fetch_unkeyed queues limit w l now skip d = (Inr rows, d1)
        \<and> row_id c \<notin> (row_id \<circ> fst) ` set rows \<longrightarrow>
        length rows = nat limit \<and> (\<forall>r \<in> fst ` set rows. order_key r \<le> order_key c))
    \<and> (concurrency_key c \<noteq> None \<and> fetch_keyed queues limit w l now skip d = (Inr keyed, d2) \<and> row_id c \<notin> row_id ` set keyed \<longrightarrow>
        row_limit c \<le> already_running d c
        \<or> length (select_keyed now queues limit skip d) = nat limit
          \<and> (\<forall>r \<in> set (select_keyed now queues limit skip d). order_key r \<le> order_key c)
        \<or> (\<exists>ahead behind. select_keyed now queues limit skip d = ahead @ c # behind
          \<and> row_limit c \<le> already_running d c + same_key c ahead))"
proof (intro conjI impI)
  assume h: "concurrency_key c = None \<and> fetch_unkeyed queues limit w l now skip d = (Inr rows, d1)
    \<and> row_id c \<notin> (row_id \<circ> fst) ` set rows"
  then have cand: "unkeyed_candidate now queues skip c" using assms by (simp add: unkeyed_candidate_def)
  show "length rows = nat limit" "\<forall>r \<in> fst ` set rows. order_key r \<le> order_key c"
  proof (atomize (full), cases rule: fetch_unkeyed_cases [of queues limit w l now skip d])
    case (leased sel)
    then have rows: "rows = map (\<lambda>r. (lease_row now w l r, keyed_waiting now queues d)) sel" using h by simp
    then have "c \<notin> set sel" using h by (auto simp: image_image)
    from select_unkeyed_urgent [OF assms(2) cand this [unfolded leased(1)]]
    show "length rows = nat limit \<and> (\<forall>r \<in> fst ` set rows. order_key r \<le> order_key c)" by (auto simp: rows leased(1))
  qed (use h in simp)
next
  assume h: "concurrency_key c \<noteq> None \<and> fetch_keyed queues limit w l now skip d = (Inr keyed, d2) \<and> row_id c \<notin> row_id ` set keyed"
  let ?batch = "select_keyed now queues limit skip d"
  show "row_limit c \<le> already_running d c
      \<or> length ?batch = nat limit \<and> (\<forall>r \<in> set ?batch. order_key r \<le> order_key c)
      \<or> (\<exists>ahead behind. ?batch = ahead @ c # behind \<and> row_limit c \<le> already_running d c + same_key c ahead)"
  proof (cases rule: fetch_keyed_cases [of queues limit w l now skip d])
    case (leased sel)
    have "keyed = map (lease_row now w l) sel" using h leased(4) by simp
    then have "c \<notin> set sel" using h by (auto simp: image_image lease_row_def)
    then have left: "c \<notin> set (admit (already_running d) [] ?batch)" by (simp add: leased(1))
    show ?thesis
    proof (cases "c \<in> set ?batch")
      case True
      then show ?thesis using admit_leaves [OF _ left] by simp
    next
      case False
      then show ?thesis using select_keyed_urgent [OF assms(2,3) _ assms(4) _ False] h by (meson not_less)
    qed
  qed (use h in simp)
qed

theorem fetch_takes_the_most_urgent_witness:
  "\<exists>rows d'. fetch_unkeyed [''default''] 1 7 30 10 [] sample_db = (Inr rows, d')
     \<and> map (row_id \<circ> fst) rows = [2] \<and> (\<forall>r \<in> fst ` set rows. order_key r \<le> order_key (plain_row 1))"
proof -
  let ?f = "fetch_unkeyed [''default''] 1 7 30 10 [] sample_db"
  have "map_sum id (map (row_id \<circ> fst)) (fst ?f) = Inr [2]" by code_simp
  then obtain rows where rows: "?f = (Inr rows, snd ?f)" "map (row_id \<circ> fst) rows = [2]" by (rule ok_pair)
  have "(row_id \<circ> fst) ` set rows = {2}" using rows(2) by (metis list.set(1,2) set_map)
  then have "row_id (plain_row 1) \<notin> (row_id \<circ> fst) ` set rows" by (simp add: plain_row_def)
  moreover have "plain_row 1 \<in> set (jobs sample_db)" "runnable 10 [''default''] (plain_row 1)" "concurrency_key (plain_row 1) = None"
    by code_simp+
  ultimately have "\<forall>r \<in> fst ` set rows. order_key r \<le> order_key (plain_row 1)"
    using fetch_takes_the_most_urgent [OF sample_db_wf, of "plain_row 1" 10 "[''default'']" "[]" 1 7 30 rows "snd ?f"] rows(1) by simp
  with rows show ?thesis by (intro exI conjI)
qed

text \<open>What a pass returns is what the table then holds.\<close>

lemma lease_selected_rows:
  assumes "db_wf d" "leasable now d sel" "fst (lease_selected now w l sel d) = Inr rows"
  shows "set rows \<subseteq> set (jobs (snd (lease_selected now w l sel d)))"
  using assms(2) by (auto simp: lease_selected_jobs [OF assms] leasable_def)

section \<open>The limit of a key\<close>

lemma admit_count:
  assumes "\<And>r. r \<in> set rs \<Longrightarrow> concurrency_key r = Some k \<Longrightarrow> already r = a \<and> row_limit r \<le> L"
  shows "int (length (filter (\<lambda>r. concurrency_key r = Some k) (admit already seen rs)))
    \<le> max 0 (L - a - int (length (filter (\<lambda>r. concurrency_key r = Some k) seen)))"
  using assms
proof (induction already seen rs rule: admit.induct)
  case (2 already seen r rs)
  let ?n = "\<lambda>xs. int (length (filter (\<lambda>r. concurrency_key r = Some k) xs))"
  have IH: "?n (admit already (seen @ [r]) rs) \<le> max 0 (L - a - ?n (seen @ [r]))"
    using 2 by (cases "already r + (1 + int (length (filter (\<lambda>s. concurrency_key s = concurrency_key r) seen))) \<le> row_limit r")
      simp_all
  show ?case
  proof (cases "concurrency_key r = Some k")
    case True
    then have "already r = a" "row_limit r \<le> L" using "2.prems" by simp_all
    with IH True show ?thesis by (auto simp: Let_def)
  next
    case False
    with IH show ?thesis by (auto simp: Let_def)
  qed
qed simp

lemma running_with_lease:
  assumes "db_wf d" "leasable now d sel"
  shows "running_with k (snd (lease_selected now w l sel d))
    \<le> running_with k d + length (filter (\<lambda>r. concurrency_key r = Some k) sel)"
proof (cases rule: lease_selected_cases [of now w l sel d])
  case refused
  then show ?thesis by simp
next
  case leased
  then have ok: "fst (lease_selected now w l sel d) = Inr (map (lease_row now w l) sel)" by simp
  let ?run = "\<lambda>r. state r = Running \<and> concurrency_key r = Some k"
  let ?key = "\<lambda>r. concurrency_key r = Some k"
  have "running_with k (snd (lease_selected now w l sel d))
      = length (filter (\<lambda>r. ?run r \<or> r \<in> set sel \<and> ?key r) (jobs d))"
    by (auto simp: running_with_def count_where_def lease_selected_jobs(2) [OF assms ok] filter_map o_def
        intro!: arg_cong [where f = length] filter_cong)
  also have "\<dots> \<le> length (filter ?run (jobs d)) + length (filter (\<lambda>r. r \<in> set sel \<and> ?key r) (jobs d))"
    by (rule length_filter_or_le)
  also have "length (filter (\<lambda>r. r \<in> set sel \<and> ?key r) (jobs d)) \<le> length (filter ?key sel)"
  proof -
    have "distinct (filter (\<lambda>r. r \<in> set sel \<and> ?key r) (jobs d))"
      using assms(1) by (auto simp: db_wf_def distinct_map intro: distinct_filter)
    then have "length (filter (\<lambda>r. r \<in> set sel \<and> ?key r) (jobs d))
        = card (set (filter (\<lambda>r. r \<in> set sel \<and> ?key r) (jobs d)))"
      by (simp only: distinct_card)
    also have "\<dots> \<le> card (set (filter ?key sel))" by (intro card_mono) auto
    also have "\<dots> \<le> length (filter ?key sel)" by (rule card_length)
    finally show ?thesis .
  qed
  finally show ?thesis by (simp add: running_with_def count_where_def)
qed

lemma fetch_unkeyed_running_with:
  assumes "db_wf d"
  shows "running_with k (snd (fetch_unkeyed queues limit w l now skip d)) \<le> running_with k d"
proof (cases rule: fetch_unkeyed_cases [of queues limit w l now skip d])
  case (leased sel)
  have "filter (\<lambda>r. concurrency_key r = Some k) sel = []"
    using set_take_sort_key by (fastforce simp: leased(1) select_unkeyed_def filter_empty_conv)
  then show ?thesis
    using running_with_lease [OF assms select_unkeyed_leasable [OF assms, of now queues limit skip], of k w l]
    by (simp add: leased(1,4))
qed simp

lemma fetch_keyed_running_with:
  assumes "db_wf d"
    and "\<And>r. r \<in> set (jobs d) \<Longrightarrow> concurrency_key r = Some k \<Longrightarrow> row_limit r \<le> L"
  shows "int (running_with k (snd (fetch_keyed queues limit w l now skip d))) \<le> max (int (running_with k d)) L"
proof (cases rule: fetch_keyed_cases [of queues limit w l now skip d])
  case (leased sel)
  let ?b = "select_keyed now queues limit skip d"
  have "already_running d r = int (running_with k d) \<and> row_limit r \<le> L"
    if "r \<in> set ?b" "concurrency_key r = Some k" for r
    using that assms(2) select_keyed_leasable [OF assms(1), of now queues limit skip]
    by (auto simp: already_running_def leasable_def)
  from admit_count [of ?b k "already_running d", OF this, of "[]"]
  have "int (length (filter (\<lambda>r. concurrency_key r = Some k) sel)) \<le> max 0 (L - int (running_with k d))"
    by (simp add: leased(1))
  moreover have "leasable now d sel"
    unfolding leased(1) by (intro admit_leasable select_keyed_leasable assms(1))
  ultimately show ?thesis
    using running_with_lease [OF assms(1), of now sel k w l] by (simp add: leased(4))
qed simp

text \<open>
  C22: A key is never over-admitted. If every job of a key asks for a limit of at most L,
  then no pass, keyed or not, leaves more than L of them running, unless more were already
  running, and then it adds none.
\<close>

theorem key_limit_respected:
  assumes "db_wf d" "\<forall>r \<in> set (jobs d). concurrency_key r = Some k \<longrightarrow> row_limit r \<le> L"
  shows "int (running_with k (snd (run_pass p d))) \<le> max (int (running_with k d)) L"
proof -
  have "int (running_with k (snd (run_pass p d))) \<le> max (int (running_with k d)) L"
    if "p_keyed p"
    using that fetch_keyed_running_with [OF assms(1), of k L "p_queues p" "p_limit p" "p_worker p" "p_lease p" "p_now p" "p_skip p"]
      assms(2) by (auto simp: run_pass_def split: prod.splits sum.splits)
  moreover have "int (running_with k (snd (run_pass p d))) \<le> max (int (running_with k d)) L"
    if "\<not> p_keyed p"
    using that fetch_unkeyed_running_with [OF assms(1), of k "p_queues p" "p_limit p" "p_worker p" "p_lease p" "p_now p" "p_skip p"]
    by (auto simp: run_pass_def split: prod.splits sum.splits)
  ultimately show ?thesis by blast
qed

theorem key_limit_respected_witness:
  "running_with ''k'' (snd (run_pass (sample_pass True 7) sample_db)) = 1
   \<and> int (running_with ''k'' (snd (run_pass (sample_pass True 7) sample_db))) \<le> max (int (running_with ''k'' sample_db)) 1"
proof (rule conjI)
  show "running_with ''k'' (snd (run_pass (sample_pass True 7) sample_db)) = 1" by code_simp
  have "\<forall>r \<in> set (jobs sample_db). concurrency_key r = Some ''k'' \<longrightarrow> row_limit r \<le> 1" by code_simp
  from key_limit_respected [OF sample_db_wf this, of "sample_pass True 7"]
  show "int (running_with ''k'' (snd (run_pass (sample_pass True 7) sample_db))) \<le> max (int (running_with ''k'' sample_db)) 1" .
qed

section \<open>The whole of fetch\<close>

lemma length_admit: "length (admit already seen rs) \<le> length rs"
  by (induction already seen rs rule: admit.induct) (auto simp: Let_def)

lemma fetch_unkeyed_length:
  assumes "fetch_unkeyed queues limit w l now skip d = (Inr rows, d')"
  shows "0 \<le> limit" "int (length rows) \<le> limit"
  by (cases rule: fetch_unkeyed_cases [of queues limit w l now skip d];
      use assms in \<open>auto simp: select_unkeyed_def\<close>)+

lemma fetch_keyed_length:
  assumes "fetch_keyed queues limit w l now skip d = (Inr rows, d')"
  shows "int (length rows) \<le> limit"
proof (cases rule: fetch_keyed_cases [of queues limit w l now skip d])
  case (leased sel)
  then have "length rows = length sel" using assms by simp
  also have "\<dots> \<le> nat limit"
    using length_admit [of "already_running d" "[]" "select_keyed now queues limit skip d"]
    by (simp add: leased(1) select_keyed_def)
  finally show ?thesis using leased(2) by linarith
qed (use assms in simp)

lemma fetch_ok_cases:
  assumes "fetch v queues limit lease w d = (Inr js, d')"
  obtains (plain) rows where "run_stmt v 0 (fetch_unkeyed queues limit w lease) d = (Inr rows, d')"
      "js = map (\<lambda>p. job_from (fst p)) rows"
  | (probed) d1 where "run_stmt v 0 (fetch_unkeyed queues limit w lease) d = (Inr [], d1)" "js = []"
  | (both) rows d1 d2 keyed where "run_stmt v 0 (fetch_unkeyed queues limit w lease) d = (Inr rows, d1)"
      "run_stmt v 2 (fetch_keyed queues (max (limit - int (length rows)) 1) w lease) d2 = (Inr keyed, d')"
      "js = map (\<lambda>p. job_from (fst p)) rows @ map job_from keyed"
  using assms unfolding fetch_def
  by (auto simp: Let_def split: prod.splits sum.splits list.splits if_splits)

text \<open>
  A successful fetch returns at most one job more than the limit it was given, whatever
  other sessions do in between; the one above the limit is the floor that keeps keyed jobs
  from starving.
\<close>

theorem fetch_overshoots_by_one:
  assumes "fetch v queues limit lease w d = (Inr js, d')"
  shows "int (length js) \<le> limit + 1"
  using assms
proof (cases rule: fetch_ok_cases)
  case (plain rows)
  then show ?thesis using fetch_unkeyed_length run_stmt_ok by fastforce
next
  case (probed d1)
  then show ?thesis using fetch_unkeyed_length run_stmt_ok by fastforce
next
  case (both rows d1 d2 keyed)
  have "0 \<le> limit" "int (length rows) \<le> limit"
    using fetch_unkeyed_length [OF run_stmt_ok [OF both(1)]] .
  moreover have "int (length keyed) \<le> max (limit - int (length rows)) 1"
    using fetch_keyed_length [OF run_stmt_ok [OF both(2)]] .
  ultimately show ?thesis by (simp add: both(3))
qed


lemma sample_fetch:
  "map_sum id (map job_id) (fst (fetch (quiet 10) [''default''] 1 30 7 sample_db)) = Inr [2, 3]"
  by code_simp

theorem fetch_overshoots_by_one_witness:
  "\<exists>js d'. fetch (quiet 10) [''default''] 1 30 7 sample_db = (Inr js, d') \<and> map job_id js = [2, 3]
     \<and> int (length js) \<le> 1 + 1"
proof -
  obtain js where js: "fetch (quiet 10) [''default''] 1 30 7 sample_db =
      (Inr js, snd (fetch (quiet 10) [''default''] 1 30 7 sample_db))" "map job_id js = [2, 3]"
    by (rule ok_pair [OF sample_fetch])
  from js fetch_overshoots_by_one [OF js(1)] show ?thesis by (intro exI conjI)
qed

lemma admit_nonempty:
  "rs \<noteq> [] \<Longrightarrow> \<forall>r \<in> set rs. already r < row_limit r \<Longrightarrow> admit already [] rs \<noteq> []"
  by (cases rs) (auto simp: Let_def)

lemma fetch_unkeyed_keeps_keyed:
  assumes "db_wf d" "c \<in> set (jobs d)" "concurrency_key c \<noteq> None"
  shows "c \<in> set (jobs (snd (fetch_unkeyed queues limit w l now skip d)))"
proof (cases rule: fetch_unkeyed_cases [of queues limit w l now skip d])
  case (refused e)
  then show ?thesis using assms(2) by simp
next
  case (leased sel)
  have "c \<notin> set sel"
    using assms(3) set_take_sort_key by (fastforce simp: leased(1) select_unkeyed_def)
  moreover have "leasable now d sel"
    unfolding leased(1) by (rule select_unkeyed_leasable [OF assms(1)])
  ultimately show ?thesis
    using assms(2) by (force simp: leased(4) lease_selected_jobs(2) [OF assms(1) _ leased(5)])
qed

lemma fetch_keyed_admits:
  assumes "c \<in> set (jobs d)" "runnable now queues c" "concurrency_key c \<noteq> None"
    and "already_running d c < row_limit c" "0 < limit"
    and "fetch_keyed queues limit w l now [] d = (Inr rows, d')"
  shows "rows \<noteq> []"
proof (cases rule: fetch_keyed_cases [of queues limit w l now "[]" d])
  case (refused e)
  then show ?thesis using assms(6) by simp
next
  case (leased sel)
  let ?cs = "filter (\<lambda>r. runnable now queues r \<and> concurrency_key r \<noteq> None
    \<and> already_running d r < row_limit r \<and> row_id r \<notin> set []) (jobs d)"
  have "c \<in> set (sort_key order_key ?cs)" using assms(1-4) by simp
  then have "sort_key order_key ?cs \<noteq> []" by (metis empty_iff empty_set)
  then have "select_keyed now queues limit [] d \<noteq> []"
    using assms(5) by (simp add: select_keyed_def take_eq_Nil)
  moreover have "\<forall>r \<in> set (select_keyed now queues limit [] d). already_running d r < row_limit r"
    using set_take_sort_key by (fastforce simp: select_keyed_def)
  ultimately have "sel \<noteq> []" unfolding leased(1) by (rule admit_nonempty)
  moreover have "rows = map (lease_row now w l) sel" using leased(4) assms(6) by simp
  ultimately show ?thesis by simp
qed

lemma fetch_quiet:
  assumes "fetch_unkeyed queues limit w lease now [] d = (Inr rows, d1)"
    and "keyed_waiting now queues d" "keyed_waiting now queues d1"
  shows "fetch (quiet now) queues limit lease w d =
    (case fetch_keyed queues (max (limit - int (length rows)) 1) w lease now [] d1 of
       (Inl e, d2) \<Rightarrow> (Inl e, d2)
     | (Inr keyed, d2) \<Rightarrow> (Inr (map (\<lambda>p. job_from (fst p)) rows @ map job_from keyed), d2))"
proof -
  have ok: "list_all text_ok queues"
    using assms(1) by (auto simp: fetch_unkeyed_def bind_text_def split: if_splits)
  have "snd ` set rows \<subseteq> {True}"
    using assms(1,2) by (cases rule: fetch_unkeyed_cases [of queues limit w lease now "[]" d]) auto
  then show ?thesis
    by (cases rows) (auto simp: fetch_def assms bind_text_def ok split: prod.splits sum.splits)
qed

text \<open>
  C32: Keyed jobs do not starve. While a keyed job is due on one of the queues and its key has
  room, an undisturbed fetch that succeeds leases and returns a keyed job, however deep the backlog of
  jobs without a key.
\<close>

theorem keyed_jobs_do_not_starve:
  assumes "db_wf d" "c \<in> set (jobs d)" "runnable now queues c" "concurrency_key c \<noteq> None"
    and "already_running d c < row_limit c"
    and "fetch (quiet now) queues limit lease w d = (Inr js, d')"
  shows "\<exists>r \<in> set (jobs d'). job_from r \<in> set js \<and> concurrency_key r \<noteq> None
    \<and> state r = Running \<and> locked_by r = Some w"
proof -
  let ?d1 = "snd (fetch_unkeyed queues limit w lease now [] d)"
  have wf1: "db_wf ?d1" by (rule fetch_unkeyed_wf [OF assms(1)])
  have c1: "c \<in> set (jobs ?d1)" by (rule fetch_unkeyed_keeps_keyed [OF assms(1,2,4)])
  have waits: "keyed_waiting now queues d" "keyed_waiting now queues ?d1"
    using assms(2-4) c1 by (auto simp: keyed_waiting_def list_ex_iff runnable_def)
  obtain k where k: "concurrency_key c = Some k" using assms(4) by auto
  then have room: "already_running ?d1 c < row_limit c"
    using assms(5) fetch_unkeyed_running_with [OF assms(1), of k queues limit w lease now "[]"]
    by (simp add: already_running_def)
  obtain rows where rows: "fetch_unkeyed queues limit w lease now [] d = (Inr rows, ?d1)"
    using assms(6) by (cases rule: fetch_unkeyed_cases [of queues limit w lease now "[]" d]) (auto simp: fetch_def)
  obtain keyed where fk: "fetch_keyed queues (max (limit - int (length rows)) 1) w lease now [] ?d1 = (Inr keyed, d')"
    and js: "js = map (\<lambda>p. job_from (fst p)) rows @ map job_from keyed"
    using assms(6) unfolding fetch_quiet [OF rows waits] by (auto split: prod.splits sum.splits)
  have "keyed \<noteq> []"
    by (rule fetch_keyed_admits [OF c1 assms(3,4) room _ fk]) simp
  moreover have "r \<in> set (jobs d') \<and> concurrency_key r \<noteq> None \<and> state r = Running \<and> locked_by r = Some w"
    if "r \<in> set keyed" for r
    using fk
  proof (cases rule: fetch_keyed_cases [of queues "max (limit - int (length rows)) 1" w lease now "[]" ?d1])
    case (leased sel)
    let ?sel = "select_keyed now queues (max (limit - int (length rows)) 1) [] ?d1"
    have keyed: "keyed = map (lease_row now w lease) sel" "d' = snd (lease_selected now w lease sel ?d1)"
      using leased(4) fk by simp_all
    have sub: "set sel \<subseteq> set ?sel" unfolding leased(1) by (rule set_admit)
    have "leasable now ?d1 sel" unfolding leased(1) by (intro admit_leasable select_keyed_leasable wf1)
    from lease_selected_rows [OF wf1 this leased(5)] have "r \<in> set (jobs d')" using that by (auto simp: keyed)
    then show ?thesis using that sub set_take_sort_key by (fastforce simp: keyed(1) select_keyed_def)
  qed simp
  ultimately show ?thesis
    by (cases keyed) (auto simp: js)
qed

theorem keyed_jobs_do_not_starve_witness:
  "\<exists>js d'. fetch (quiet 10) [''default''] 1 30 7 sample_db = (Inr js, d')
     \<and> (\<exists>r \<in> set (jobs d'). job_from r \<in> set js \<and> concurrency_key r \<noteq> None \<and> state r = Running \<and> locked_by r = Some 7)"
proof -
  obtain js where js: "fetch (quiet 10) [''default''] 1 30 7 sample_db =
      (Inr js, snd (fetch (quiet 10) [''default''] 1 30 7 sample_db))"
    by (rule ok_pair [OF sample_fetch])
  have "keyed_row 3 \<in> set (jobs sample_db)" "runnable 10 [''default''] (keyed_row 3)"
    "concurrency_key (keyed_row 3) \<noteq> None" "already_running sample_db (keyed_row 3) < row_limit (keyed_row 3)"
    by code_simp+
  from keyed_jobs_do_not_starve [OF sample_db_wf this js] js show ?thesis by blast
qed

section \<open>What stops a fetch\<close>

text \<open>
  One job without attempts left stops the whole pass. If a job whose attempts are used up
  is waiting and is among those a pass would lease, the statement is refused by the constraint
  on attempts, and nothing is leased, however many healthy jobs wait with it.
\<close>

theorem exhausted_job_stops_the_pass:
  assumes "c \<in> set (select_unkeyed now queues limit skip d)" "sint (max_attempts c) \<le> sint (attempt c)"
  shows "\<exists>e. fetch_unkeyed queues limit w l now skip d = (Inl (Database e), d)"
  using assms by (cases rule: fetch_unkeyed_cases [of queues limit w l now skip d]) force+

theorem exhausted_job_stops_the_pass_witness:
  "map row_id (jobs poison_db) = [1, 2, 3, 4, 100]
   \<and> (\<exists>e. fetch_unkeyed [''default''] 3 7 30 10 [] poison_db = (Inl (Database e), poison_db))"
proof (rule conjI)
  show "map row_id (jobs poison_db) = [1, 2, 3, 4, 100]" by code_simp
  have "find_job 100 poison_db \<noteq> None
      \<and> the (find_job 100 poison_db) \<in> set (select_unkeyed 10 [''default''] 3 [] poison_db)
      \<and> sint (max_attempts (the (find_job 100 poison_db))) \<le> sint (attempt (the (find_job 100 poison_db)))"
    by code_simp
  then show "\<exists>e. fetch_unkeyed [''default''] 3 7 30 10 [] poison_db = (Inl (Database e), poison_db)"
    using exhausted_job_stops_the_pass by blast
qed

text \<open>
  A keyed pass that fails strands the first pass. When the unkeyed pass has leased jobs and
  the keyed pass then errs, the caller gets only the error, while the jobs of the first pass
  stay leased to it.
\<close>

theorem failed_keyed_pass_strands_jobs:
  assumes "db_wf d" "fetch_unkeyed queues limit w lease now [] d = (Inr rows, d1)" "rows \<noteq> []"
    and "keyed_waiting now queues d"
    and "fst (fetch_keyed queues (max (limit - int (length rows)) 1) w lease now [] d1) = Inl e"
  shows "fst (fetch (quiet now) queues limit lease w d) = Inl e
    \<and> (\<forall>r \<in> fst ` set rows. r \<in> set (jobs (snd (fetch (quiet now) queues limit lease w d)))
        \<and> state r = Running \<and> locked_by r = Some w)"
proof -
  let ?fk = "fetch_keyed queues (max (limit - int (length rows)) 1) w lease now [] d1"
  have fk: "?fk = (Inl e, d1)"
    using assms(5)
    by (cases rule: fetch_keyed_cases [of queues "max (limit - int (length rows)) 1" w lease now "[]" d1]) auto
  from assms(2) show ?thesis
  proof (cases rule: fetch_unkeyed_cases [of queues limit w lease now "[]" d])
    case (leased sel)
    then have rows: "rows = map (\<lambda>r. (lease_row now w lease r, True)) sel"
      and d1: "d1 = snd (lease_selected now w lease sel d)"
      using assms(2,4) by simp_all
    obtain r sel' where sel: "sel = r # sel'" using assms(3) rows by (cases sel) auto
    have "fetch (quiet now) queues limit lease w d = (Inl e, d1)"
      using fk assms(2) by (simp add: fetch_def rows sel)
    moreover have "leasable now d sel" unfolding leased(1) by (rule select_unkeyed_leasable [OF assms(1)])
    ultimately show ?thesis
      using lease_selected_rows [OF assms(1) _ leased(5)] by (auto simp: rows d1)
  qed simp
qed

theorem failed_keyed_pass_strands_jobs_witness:
  "fst (fetch (quiet 10) [''default''] 2 30 7 stuck_db) = Inl (Database (CheckViolation ''gylo_job_attempt_bounds''))
   \<and> (\<exists>r \<in> set (jobs (snd (fetch (quiet 10) [''default''] 2 30 7 stuck_db))). state r = Running \<and> locked_by r = Some 7)"
proof -
  let ?f = "fetch_unkeyed [''default''] 2 7 30 10 [] stuck_db"
  have "map_sum id (map (row_id \<circ> fst)) (fst ?f) = Inr [1]" by code_simp
  then obtain rows where rows: "?f = (Inr rows, snd ?f)" "map (row_id \<circ> fst) rows = [1]" by (rule ok_pair)
  then have ne: "rows \<noteq> []" "length rows = 1" by auto
  have "fst (fetch_keyed [''default''] (max (2 - 1) 1) 7 30 10 [] (snd ?f))
      = Inl (Database (CheckViolation ''gylo_job_attempt_bounds''))" by code_simp
  then have "fst (fetch_keyed [''default''] (max (2 - int (length rows)) 1) 7 30 10 [] (snd ?f))
      = Inl (Database (CheckViolation ''gylo_job_attempt_bounds''))" by (simp add: ne(2))
  moreover have "keyed_waiting 10 [''default''] stuck_db" by code_simp
  ultimately show ?thesis
    using failed_keyed_pass_strands_jobs [OF stuck_db_wf rows(1) ne(1)] ne(1)
    by (metis hd_in_set imageI)
qed

end
