(* ===== verification/Recovery.thy ===== *)
theory Recovery
  imports Samples
begin

text \<open>
  Holding and recovering leases (\<open>crates/gylo-pg/src/lib.rs\<close>): \<open>renew_leases\<close>,
  \<open>abandon_leases\<close> and \<open>reclaim_expired\<close>. A lease is extended or given up by its holder
  only, a lease that has not run out is left alone, and one that has is recovered.
\<close>

section \<open>Holding and recovering leases\<close>

definition holds :: "uuid \<Rightarrow> i64 list \<Rightarrow> job_row \<Rightarrow> bool" where
  "holds worker ids r \<longleftrightarrow> row_id r \<in> set ids \<and> locked_by r = Some worker \<and> state r = Running"

definition held_ids :: "uuid \<Rightarrow> i64 list \<Rightarrow> db \<Rightarrow> i64 set" where
  "held_ids w ids d = row_id ` set (filter (holds w ids) (jobs d))"

lemma holds_running: "holds w ids r \<Longrightarrow> state r = Running"
  by (simp add: holds_def)

definition renew_leases :: "int \<Rightarrow> i64 list \<Rightarrow> uuid \<Rightarrow> duration \<Rightarrow> nat op" where
  "renew_leases now ids worker lease d =
     (if ids = [] then (Inr 0, d)
      else (Inr (count_where (holds worker ids) d),
            update_where (holds worker ids) (\<lambda>r. r\<lparr>lease_expires_at := Some (now + int lease)\<rparr>) d))"

definition abandon_leases :: "int \<Rightarrow> i64 list \<Rightarrow> uuid \<Rightarrow> nat op" where
  "abandon_leases now ids worker d =
     (if ids = [] then (Inr 0, d)
      else (Inr (count_where (holds worker ids) d),
            update_where (holds worker ids) (\<lambda>r. r\<lparr>lease_expires_at := Some (now - 1)\<rparr>) d))"

record reclaimed =
  rc_released :: nat
  rc_exhausted :: nat

definition lease_expired :: "int \<Rightarrow> job_row \<Rightarrow> bool" where
  "lease_expired now r \<longleftrightarrow>
     state r = Running \<and> (case lease_expires_at r of None \<Rightarrow> False | Some e \<Rightarrow> e < now)"

definition exhausted :: "job_row \<Rightarrow> bool" where
  "exhausted r \<longleftrightarrow> sint (max_attempts r) \<le> sint (attempt r)"

definition discard_row :: "int \<Rightarrow> string \<Rightarrow> job_row \<Rightarrow> job_row" where
  "discard_row now message r =
     r\<lparr>state := Discarded, finalized_at := Some now, locked_by := None, lease_expires_at := None,
       errors := errors r @ [\<lparr>ee_attempt = attempt r, ee_at = now, ee_error = message\<rparr>]\<rparr>"

definition release_row :: "job_row \<Rightarrow> job_row" where
  "release_row r = r\<lparr>state := Available, locked_by := None, lease_expires_at := None\<rparr>"

text \<open>
  \<open>LIMIT\<close> without an order takes any of the expired rows; the model takes the first of the table. What is
  shown of a sweep holds when the limit covers them all, or of each row it leaves or takes.
\<close>

definition expired_rows :: "int \<Rightarrow> int \<Rightarrow> db \<Rightarrow> job_row list" where
  "expired_rows now limit d = take (nat limit) (filter (lease_expired now) (jobs d))"

definition reclaim_row :: "int \<Rightarrow> job_row \<Rightarrow> job_row" where
  "reclaim_row now r =
     (if exhausted r
      then discard_row now ''lease expired before the worker reported an outcome'' r
      else release_row r)"

definition reclaim_expired :: "int \<Rightarrow> int \<Rightarrow> reclaimed op" where
  "reclaim_expired limit now d =
     (if limit < 0 then (Inl (Database NegativeLimit), d)
      else
        let expired = expired_rows now limit d;
            released = filter (\<lambda>r. \<not> exhausted r) expired;
            d' = update_where (\<lambda>r. row_id r \<in> row_id ` set expired \<and> state r = Running) (reclaim_row now) d
        in (Inr \<lparr>rc_released = length released,
                 rc_exhausted = length (filter exhausted expired)\<rparr>,
            d'\<lparr>notified := notified d @ remdups (map queue released)\<rparr>))"

section \<open>Renewal and abandonment\<close>

lemma holds_step:
  "holds w ids r \<Longrightarrow> row_step now r (r\<lparr>lease_expires_at := Some e\<rparr>) \<and> (live (r\<lparr>lease_expires_at := Some e\<rparr>) \<longrightarrow> live r)"
  by (auto simp: holds_def live_def intro: row_step.extend_lease)

lemma renew_leases_eq:
  "snd (renew_leases now ids w l d) = update_where (holds w ids) (\<lambda>r. r\<lparr>lease_expires_at := Some (now + int l)\<rparr>) d"
  by (simp add: renew_leases_def update_where_def holds_def [abs_def])

lemma abandon_leases_eq:
  "snd (abandon_leases now ids w d) = update_where (holds w ids) (\<lambda>r. r\<lparr>lease_expires_at := Some (now - 1)\<rparr>) d"
  by (simp add: abandon_leases_def update_where_def holds_def [abs_def])

lemma renew_leases_lawful: "lawful now d (snd (renew_leases now ids w l d))"
  unfolding renew_leases_eq by (rule lawful_update_where) (use holds_step in blast)

lemma abandon_leases_lawful: "lawful now d (snd (abandon_leases now ids w d))"
  unfolding abandon_leases_eq by (rule lawful_update_where) (use holds_step in blast)

lemma renew_leases_wf: "db_wf d \<Longrightarrow> db_wf (snd (renew_leases now ids w l d))"
  unfolding renew_leases_eq by (rule db_wf_update_where [of _ _ now]) (use holds_step in blast)+

lemma abandon_leases_wf: "db_wf d \<Longrightarrow> db_wf (snd (abandon_leases now ids w d))"
  unfolding abandon_leases_eq by (rule db_wf_update_where [of _ _ now]) (use holds_step in blast)+

section \<open>The sweep\<close>

lemma expired_rows_subset: "set (expired_rows now limit d) \<subseteq> {r \<in> set (jobs d). lease_expired now r}"
  using set_take_subset by (fastforce simp: expired_rows_def)

lemma reclaim_expired_jobs:
  assumes "db_wf d" "reclaim_expired limit now d = (Inr c, d')"
  shows "jobs d' = map (\<lambda>r. if r \<in> set (expired_rows now limit d) then reclaim_row now r else r) (jobs d)"
    "same_rest d d'"
proof -
  have "row_id r \<in> row_id ` set (expired_rows now limit d) \<and> state r = Running
      \<longleftrightarrow> r \<in> set (expired_rows now limit d)" if "r \<in> set (jobs d)" for r
    using that expired_rows_subset [of now limit d] assms(1) job_row_eqI [of "jobs d" r]
    by (auto simp: db_wf_def lease_expired_def)
  then show "jobs d' = map (\<lambda>r. if r \<in> set (expired_rows now limit d) then reclaim_row now r else r) (jobs d)"
    using assms(2) by (auto simp: reclaim_expired_def Let_def update_where_def split: if_splits)
  show "same_rest d d'"
    using assms(2) by (auto simp: reclaim_expired_def Let_def update_where_def same_rest_def split: if_splits)
qed

lemma reclaim_row_step:
  assumes "lease_expired now r"
  shows "row_step now r (reclaim_row now r) \<and> (live (reclaim_row now r) \<longrightarrow> live r)"
  using assms
  by (auto simp: reclaim_row_def discard_row_def release_row_def lease_expired_def exhausted_def live_def
      intro: row_step.discard row_step.release)

lemma reclaim_row_simps [simp]:
  "row_id (reclaim_row now r) = row_id r" "locked_by (reclaim_row now r) = None"
  "lease_expires_at (reclaim_row now r) = None"
  "state (reclaim_row now r) = (if sint (attempt r) < sint (max_attempts r) then Available else Discarded)"
  by (simp_all add: reclaim_row_def discard_row_def release_row_def exhausted_def)

lemma reclaim_expired_lawful:
  assumes "db_wf d"
  shows "lawful now d (snd (reclaim_expired limit now d))"
proof (cases "fst (reclaim_expired limit now d)")
  case (Inl e)
  then show ?thesis by (auto simp: reclaim_expired_def Let_def split: if_splits)
next
  case (Inr c)
  then have "reclaim_expired limit now d = (Inr c, snd (reclaim_expired limit now d))" by (metis prod.collapse)
  then show ?thesis
    by (rule lawful_map [OF reclaim_expired_jobs(1) [OF assms]])
      (use reclaim_row_step expired_rows_subset [of now limit d] in auto)
qed

lemma reclaim_expired_wf:
  assumes "db_wf d"
  shows "db_wf (snd (reclaim_expired limit now d))"
proof (cases "fst (reclaim_expired limit now d)")
  case (Inl e)
  then show ?thesis using assms by (auto simp: reclaim_expired_def Let_def split: if_splits)
next
  case (Inr c)
  then have "reclaim_expired limit now d = (Inr c, snd (reclaim_expired limit now d))" by (metis prod.collapse)
  note jobs = reclaim_expired_jobs [OF assms this]
  show ?thesis
    using reclaim_row_step expired_rows_subset [of now limit d]
    by (intro db_wf_map [OF assms jobs, of now]) auto
qed

lemma expired_rows_all:
  "int (length (filter (lease_expired now) (jobs d))) \<le> limit \<Longrightarrow> expired_rows now limit d = filter (lease_expired now) (jobs d)"
  by (simp add: expired_rows_def nat_le_iff)

text \<open>
  C24: A sweep recovers every expired lease and nothing else. When the limit covers them, each
  running job whose lease has run out is waiting again if it has attempts left and dead-lettered
  otherwise, with its lock gone; every other row is untouched, those of the jobs that depend on a
  dead-lettered one included, which a sweep does not cancel; and the counts returned are those of
  the two groups.
\<close>

theorem sweep_recovers_expired_leases:
  assumes "db_wf d" "reclaim_expired limit now d = (Inr c, d')"
    and "int (length (filter (lease_expired now) (jobs d))) \<le> limit" "r \<in> set (jobs d)"
  shows "(if \<not> lease_expired now r then r \<in> set (jobs d')
    else \<exists>r' \<in> set (jobs d'). row_id r' = row_id r \<and> locked_by r' = None
      \<and> state r' = (if sint (attempt r) < sint (max_attempts r) then Available else Discarded))
    \<and> rc_released c + rc_exhausted c = length (filter (lease_expired now) (jobs d))
    \<and> \<not> list_ex (lease_expired now) (jobs d')"
proof -
  note exp = expired_rows_all [OF assms(3)]
  note jobs = reclaim_expired_jobs(1) [OF assms(1,2)]
  have "rc_released c + rc_exhausted c = length (filter (lease_expired now) (jobs d))"
    using assms(2) sum_length_filter_compl [of exhausted "filter (lease_expired now) (jobs d)"]
    by (auto simp: reclaim_expired_def Let_def exp split: if_splits)
  moreover have "\<not> lease_expired now (reclaim_row now s)" for s
    by (simp add: lease_expired_def)
  then have "\<not> list_ex (lease_expired now) (jobs d')"
    by (auto simp: jobs exp list_ex_iff)
  moreover have "(if lease_expired now r then reclaim_row now r else r) \<in> set (jobs d')"
    unfolding jobs exp set_map by (rule image_eqI [OF _ assms(4)]) (simp add: assms(4))
  ultimately show ?thesis by (auto intro!: bexI [of _ "reclaim_row now r"])
qed

theorem sweep_recovers_expired_leases_witness:
  "\<exists>c d'. reclaim_expired 10 50 leased_db = (Inr c, d') \<and> rc_released c = 1
     \<and> (\<exists>r' \<in> set (jobs d'). row_id r' = 1 \<and> locked_by r' = None \<and> state r' = Available)
     \<and> \<not> list_ex (lease_expired 50) (jobs d')"
proof -
  have "map_sum id rc_released (fst (reclaim_expired 10 50 leased_db)) = Inr 1" by code_simp
  then obtain c where c: "reclaim_expired 10 50 leased_db = (Inr c, snd (reclaim_expired 10 50 leased_db))" "rc_released c = 1"
    by (rule ok_pair)
  have "int (length (filter (lease_expired 50) (jobs leased_db))) \<le> 10" "leased_row 1 7 30 \<in> set (jobs leased_db)"
    "lease_expired 50 (leased_row 1 7 30)" "row_id (leased_row 1 7 30) = 1"
    "sint (attempt (leased_row 1 7 30)) < sint (max_attempts (leased_row 1 7 30))" by code_simp+
  note facts = this
  let ?d = "snd (reclaim_expired 10 50 leased_db)"
  have "\<exists>r' \<in> set (jobs ?d). row_id r' = 1 \<and> locked_by r' = None \<and> state r' = Available"
    "\<not> list_ex (lease_expired 50) (jobs ?d)"
    using sweep_recovers_expired_leases [OF leased_db_wf c(1) facts(1,2)] by (simp_all add: facts(3-))
  with c show ?thesis by (intro exI conjI)
qed

text \<open>
  A renewed lease holds. A job that a worker still holds when it renews is still running
  under that worker after any sweep up to the end of the renewed lease.
\<close>

theorem renewed_lease_survives_sweeps:
  assumes "db_wf d" "r \<in> set (jobs d)" "holds w ids r"
    and "now' \<le> now + int l" "reclaim_expired limit now' (snd (renew_leases now ids w l d)) = (Inr c, d')"
  shows "\<exists>r' \<in> set (jobs d'). row_id r' = row_id r \<and> state r' = Running \<and> locked_by r' = Some w"
proof -
  let ?d = "snd (renew_leases now ids w l d)" and ?r = "r\<lparr>lease_expires_at := Some (now + int l)\<rparr>"
  have "?r \<in> set (jobs ?d)" using assms(2,3) by (auto simp: renew_leases_eq update_where_def)
  moreover have "?r \<notin> set (expired_rows now' limit ?d)"
    using assms(4) expired_rows_subset [of now' limit ?d] by (auto simp: lease_expired_def)
  ultimately have "?r \<in> set (jobs d')"
    by (force simp: reclaim_expired_jobs(1) [OF renew_leases_wf [OF assms(1)] assms(5)])
  then show ?thesis using assms(3) by (intro bexI [of _ ?r]) (simp_all add: holds_def)
qed

theorem renewed_lease_survives_sweeps_witness:
  "\<exists>c d'. reclaim_expired 10 50 (snd (renew_leases 20 [1, 2] 7 30 leased_db)) = (Inr c, d')
     \<and> (\<exists>r' \<in> set (jobs d'). row_id r' = row_id (leased_row 1 7 30) \<and> state r' = Running \<and> locked_by r' = Some 7)"
proof -
  let ?s = "reclaim_expired 10 50 (snd (renew_leases 20 [1, 2] 7 30 leased_db))"
  have "map_sum id rc_released (fst ?s) = Inr 0" by code_simp
  then obtain c where c: "?s = (Inr c, snd ?s)" by (rule ok_pair)
  have "leased_row 1 7 30 \<in> set (jobs leased_db)" "holds 7 [1, 2] (leased_row 1 7 30)" by code_simp+
  from c renewed_lease_survives_sweeps [OF leased_db_wf this _ c] show ?thesis
    by (intro exI conjI) simp_all
qed

text \<open>
  A worker that gives its jobs up loses nothing. What it abandons is taken by the next sweep
  at that time or later, if the sweep's limit covers the expired leases, and waits again if it
  has attempts left.
\<close>

theorem abandoned_jobs_are_recovered:
  assumes "db_wf d" "r \<in> set (jobs d)" "holds w ids r" "sint (attempt r) < sint (max_attempts r)"
    and "now \<le> now'" "reclaim_expired limit now' (snd (abandon_leases now ids w d)) = (Inr c, d')"
    and "int (length (filter (lease_expired now') (jobs (snd (abandon_leases now ids w d))))) \<le> limit"
  shows "row_id r \<in> waiting_ids d'"
proof -
  let ?d = "snd (abandon_leases now ids w d)" and ?r = "r\<lparr>lease_expires_at := Some (now - 1)\<rparr>"
  have r: "?r \<in> set (jobs ?d)" using assms(2,3) by (auto simp: abandon_leases_eq update_where_def)
  moreover have "lease_expired now' ?r" using assms(3,5) by (simp add: lease_expired_def holds_def)
  ultimately have "?r \<in> set (expired_rows now' limit ?d)" by (simp add: expired_rows_all [OF assms(7)])
  then have "reclaim_row now' ?r \<in> set (jobs d')"
    using r by (force simp: reclaim_expired_jobs(1) [OF abandon_leases_wf [OF assms(1)] assms(6)])
  moreover have "state (reclaim_row now' ?r) = Available" "row_id (reclaim_row now' ?r) = row_id r"
    using assms(4) by simp_all
  ultimately show ?thesis using waiting_idsI by metis
qed
theorem abandoned_jobs_are_recovered_witness:
  "\<exists>c d'. reclaim_expired 10 20 (snd (abandon_leases 20 [2] 8 leased_db)) = (Inr c, d')
     \<and> row_id (leased_row 2 8 100) \<in> waiting_ids d'"
proof -
  let ?d = "snd (abandon_leases 20 [2] 8 leased_db)"
  let ?s = "reclaim_expired 10 20 ?d"
  have "map_sum id rc_released (fst ?s) = Inr 1" by code_simp
  then obtain c where c: "?s = (Inr c, snd ?s)" by (rule ok_pair)
  have "leased_row 2 8 100 \<in> set (jobs leased_db)" "holds 8 [2] (leased_row 2 8 100)"
    "sint (attempt (leased_row 2 8 100)) < sint (max_attempts (leased_row 2 8 100))"
    "int (length (filter (lease_expired 20) (jobs ?d))) \<le> 10" by code_simp+
  note facts = this
  from c abandoned_jobs_are_recovered [OF leased_db_wf facts(1-3) order_refl c facts(4)] show ?thesis
    by (intro exI conjI)
qed


end
