(* ===== verification/Completion.thy ===== *)
theory Completion
  imports Recovery
begin

text \<open>
  How a job ends well (\<open>crates/gylo-pg/src/lib.rs\<close>): \<open>complete\<close> and its two entry points, which
  also release the jobs that waited for the completed ones, \<open>cancel\<close>, \<open>outcome\<close>, and the
  steps of a durable job. A completion is never refused, a job never runs before the jobs it
  depends on are complete, and the last of them makes it due.
\<close>

section \<open>Completing\<close>

text \<open>Edges from the given parents into a child.\<close>

definition edges_into :: "i64 set \<Rightarrow> i64 \<Rightarrow> db \<Rightarrow> int" where
  "edges_into ps c d = int (length (filter (\<lambda>e. e_parent e \<in> ps \<and> e_child e = c) (edges d)))"

definition finish_row :: "int \<Rightarrow> bytes option \<Rightarrow> job_row \<Rightarrow> job_row" where
  "finish_row now v r =
     r\<lparr>state := Completed, finalized_at := Some now, locked_by := None, lease_expires_at := None,
       job_result := v\<rparr>"

definition unblock_row :: "int \<Rightarrow> int \<Rightarrow> job_row \<Rightarrow> job_row" where
  "unblock_row now n r =
     r\<lparr>pending_deps := pending_deps r - n,
       scheduled_at := (if pending_deps r - n = 0 then At now else scheduled_at r)\<rparr>"

text \<open>
  \<open>COMPLETE\<close>. Both updates see the table as the statement found it. The result stored is the
  one at the identifier's position; a position past the end of the results is NULL. Of the results of an
  identifier given twice the server may store any; the model takes the first.
\<close>

definition complete_stmt :: "int \<Rightarrow> i64 list \<Rightarrow> bytes option list \<Rightarrow> uuid \<Rightarrow> nat op" where
  "complete_stmt now ids results worker d =
     (let done_ids = held_ids worker ids d;
          freed = filter (\<lambda>r. 0 < edges_into done_ids (row_id r) d \<and> \<not> holds worker ids r) (jobs d);
          woken = filter (\<lambda>r. pending_deps r - edges_into done_ids (row_id r) d = 0) freed;
          result_of = (\<lambda>i. case map_of (zip ids results) i of None \<Rightarrow> None | Some v \<Rightarrow> v)
      in if list_ex (\<lambda>r. pending_deps r < edges_into done_ids (row_id r) d) freed
         then (Inl (Database (CheckViolation ''gylo_job_pending_deps_positive'')), d)
         else (Inr (count_where (holds worker ids) d),
               d\<lparr>jobs := map (\<lambda>r.
                    if holds worker ids r then finish_row now (result_of (row_id r)) r
                    else if 0 < edges_into done_ids (row_id r) d
                    then unblock_row now (edges_into done_ids (row_id r) d) r
                    else r) (jobs d),
                 notified := notified d @ remdups (map queue woken)\<rparr>))"

definition complete :: "int \<Rightarrow> i64 list \<Rightarrow> bytes option list \<Rightarrow> uuid \<Rightarrow> nat op" where
  "complete now ids results worker d =
     (if ids = [] then (Inr 0, d) else complete_stmt now ids results worker d)"

definition complete_many :: "int \<Rightarrow> i64 list \<Rightarrow> uuid \<Rightarrow> nat op" where
  "complete_many now ids worker = complete now ids (replicate (length ids) None) worker"

definition complete_many_with_results :: "int \<Rightarrow> i64 list \<Rightarrow> bytes list \<Rightarrow> uuid \<Rightarrow> nat op" where
  "complete_many_with_results now ids results worker = complete now ids (map Some results) worker"

section \<open>Cancelling, looking, and steps\<close>

definition cancel_row :: "int \<Rightarrow> job_row \<Rightarrow> job_row" where
  "cancel_row now r =
     r\<lparr>state := Cancelled, finalized_at := Some now, locked_by := None, lease_expires_at := None\<rparr>"

definition cancellable :: "i64 list \<Rightarrow> job_row \<Rightarrow> bool" where
  "cancellable ids r \<longleftrightarrow> row_id r \<in> set ids \<and> state r = Available"

definition cancel :: "int \<Rightarrow> i64 list \<Rightarrow> nat op" where
  "cancel now ids d =
     (if ids = [] then (Inr 0, d)
      else (Inr (count_where (cancellable ids) d), update_where (cancellable ids) (cancel_row now) d))"

record job_outcome =
  o_state :: string
  o_result :: "bytes option"
  o_errors :: "error_entry list"

definition state_text :: "job_state \<Rightarrow> string" where
  "state_text s =
     (case s of Available \<Rightarrow> ''available'' | Running \<Rightarrow> ''running'' | Completed \<Rightarrow> ''completed''
      | Discarded \<Rightarrow> ''discarded'' | Cancelled \<Rightarrow> ''cancelled'')"

definition outcome_of :: "i64 \<Rightarrow> job_outcome option op" where
  "outcome_of i d =
     (Inr (map_option (\<lambda>r. \<lparr>o_state = state_text (state r), o_result = job_result r, o_errors = errors r\<rparr>)
        (find_job i d)), d)"

definition record_step :: "int \<Rightarrow> i64 \<Rightarrow> string \<Rightarrow> bytes \<Rightarrow> unit op" where
  "record_step now i name v = bind_text [name] (\<lambda>d.
     if list_ex (\<lambda>s. s_job s = i \<and> s_name s = name) (steps d) then (Inr (), d)
     else if i \<notin> job_ids d then (Inl (Database (ForeignKeyViolation ''gylo_step_job_id_fkey'')), d)
     else (Inr (), d\<lparr>steps := steps d @ [\<lparr>s_job = i, s_name = name, s_result = v, s_created_at = now\<rparr>]\<rparr>))"

text \<open>\<open>ORDER BY created_at, name\<close>, the names under the collation of the database.\<close>

definition steps_for :: "(string \<Rightarrow> 'k::linorder) \<Rightarrow> i64 \<Rightarrow> (string \<times> bytes) list op" where
  "steps_for coll i d =
     (Inr (map (\<lambda>s. (s_name s, s_result s))
        (sort_key (\<lambda>s. (s_created_at s, coll (s_name s))) (filter (\<lambda>s. s_job s = i) (steps d)))), d)"

section \<open>Completion and the jobs that wait\<close>

text \<open>The jobs a worker holds are running, so none of them is complete.\<close>

lemma held_not_completed: "db_wf d \<Longrightarrow> held_ids w ids d \<inter> completed_ids d = {}"
  by (auto simp: held_ids_def completed_ids_def holds_def db_wf_def dest: job_row_eqI)

lemma edges_split:
  assumes "ps \<inter> completed_ids d = {}"
  shows "int (length (filter (\<lambda>e. e_child e = c \<and> e_parent e \<notin> completed_ids d \<union> ps) (edges d)))
    = open_parents c d - edges_into ps c d"
proof -
  have "length (filter (\<lambda>e. e_child e = c \<and> e_parent e \<notin> C) es)
      = length (filter (\<lambda>e. e_child e = c \<and> e_parent e \<notin> C \<union> ps) es)
        + length (filter (\<lambda>e. e_parent e \<in> ps \<and> e_child e = c) es)"
    if "ps \<inter> C = {}" for C es
    using that by (induction es) auto
  from this [OF assms, of "edges d"] show ?thesis by (simp add: open_parents_def edges_into_def)
qed

lemma edges_into_le_open:
  assumes "ps \<inter> completed_ids d = {}"
  shows "edges_into ps c d \<le> open_parents c d"
  using edges_split [OF assms, of c] by linarith

lemma edges_into_nonneg [simp]: "0 \<le> edges_into ps c d"
  by (simp add: edges_into_def)

lemma edges_into_pos: "0 < edges_into ps c d \<longleftrightarrow> edges_into ps c d \<noteq> 0"
  using edges_into_nonneg [of ps c d] by linarith

lemma edges_into_pending:
  assumes "db_inv d" "r \<in> set (jobs d)"
  shows "edges_into (held_ids w ids d) (row_id r) d \<le> pending_deps r"
    "state r = Running \<Longrightarrow> edges_into (held_ids w ids d) (row_id r) d = 0"
proof -
  have le: "edges_into (held_ids w ids d) (row_id r) d \<le> open_parents (row_id r) d"
    using assms(1) by (simp add: db_inv_def edges_into_le_open held_not_completed)
  also have "\<dots> \<le> pending_deps r" using assms by (simp add: db_inv_def flow_ok_def)
  finally show pend: "edges_into (held_ids w ids d) (row_id r) d \<le> pending_deps r" .
  assume "state r = Running"
  then have "pending_deps r \<le> 0" using assms by (auto simp: db_inv_def db_wf_def row_wf_def)
  then show "edges_into (held_ids w ids d) (row_id r) d = 0" using pend edges_into_nonneg [of "held_ids w ids d" "row_id r" d] by linarith
qed

definition complete_row :: "int \<Rightarrow> i64 list \<Rightarrow> bytes option list \<Rightarrow> uuid \<Rightarrow> db \<Rightarrow> job_row \<Rightarrow> job_row" where
  "complete_row now ids results w d r =
     (if holds w ids r then finish_row now (case map_of (zip ids results) (row_id r) of None \<Rightarrow> None | Some v \<Rightarrow> v) r
      else if 0 < edges_into (held_ids w ids d) (row_id r) d
      then unblock_row now (edges_into (held_ids w ids d) (row_id r) d) r
      else r)"

lemma complete_ok:
  assumes "db_inv d"
  shows "fst (complete now ids results w d) = Inr (count_where (holds w ids) d)"
    "jobs (snd (complete now ids results w d)) = map (complete_row now ids results w d) (jobs d)"
    "same_rest d (snd (complete now ids results w d))"
proof -
  have none: "\<not> list_ex (\<lambda>r. pending_deps r < edges_into (held_ids w ids d) (row_id r) d)
      (filter (\<lambda>r. 0 < edges_into (held_ids w ids d) (row_id r) d \<and> \<not> holds w ids r) (jobs d))"
    using edges_into_pending(1) [OF assms, of _ w ids] by (force simp: list_ex_iff)
  have empty: "ids = [] \<Longrightarrow> holds w ids = (\<lambda>_. False)" by (simp add: holds_def [abs_def])
  then have "complete_row now [] results w d r = r" for r
    by (simp add: complete_row_def holds_def held_ids_def edges_into_def)
  with none empty show "fst (complete now ids results w d) = Inr (count_where (holds w ids) d)"
    "jobs (snd (complete now ids results w d)) = map (complete_row now ids results w d) (jobs d)"
    "same_rest d (snd (complete now ids results w d))"
    by (auto simp: complete_def complete_stmt_def Let_def held_ids_def count_where_def complete_row_def same_rest_def cong: map_cong)
qed

lemma finish_row_step: "state r = Running \<Longrightarrow> row_step now r (finish_row now v r)"
  unfolding finish_row_def by (rule row_step.finish)

lemma unblock_row_step: "0 < n \<Longrightarrow> n \<le> pending_deps r \<Longrightarrow> row_step now r (unblock_row now n r)"
  unfolding unblock_row_def by (rule row_step.unblock)

lemma live_finish_unblock [simp]: "\<not> live (finish_row now v r)" "live (unblock_row now n r) = live r"
  by (simp_all add: live_def finish_row_def unblock_row_def)

lemma complete_row_step:
  assumes "db_inv d" "r \<in> set (jobs d)"
  shows "complete_row now ids results w d r = r
    \<or> row_step now r (complete_row now ids results w d r)
      \<and> (live (complete_row now ids results w d r) \<longrightarrow> live r)"
  using edges_into_pending(1) [OF assms, of w ids]
  by (simp add: complete_row_def finish_row_step holds_running unblock_row_step)

lemma complete_lawful: "db_inv d \<Longrightarrow> lawful now d (snd (complete now ids results w d))"
  using complete_row_step by (intro lawful_map [OF complete_ok(2)]) blast+

lemma complete_completed_ids:
  assumes "db_inv d"
  shows "completed_ids (snd (complete now ids results w d)) = completed_ids d \<union> held_ids w ids d"
proof -
  have "row_id (complete_row now ids results w d r) = row_id r"
    "state (complete_row now ids results w d r) = Completed \<longleftrightarrow> holds w ids r \<or> state r = Completed" for r
    by (simp_all add: complete_row_def finish_row_def unblock_row_def)
  then show ?thesis
    by (auto simp: completed_ids_def complete_ok(2) [OF assms] held_ids_def filter_map o_def image_image)
qed

lemma complete_inv:
  assumes "db_inv d"
  shows "db_inv (snd (complete now ids results w d))"
proof -
  let ?d = "snd (complete now ids results w d)"
  have wf: "db_wf ?d"
    by (rule db_wf_map [OF _ complete_ok(2,3) [OF assms], where now = now])
      (use assms complete_row_step [OF assms] in \<open>auto simp: db_inv_def\<close>)
  have "flow_ok ?d"
    unfolding flow_ok_def
  proof
    fix r' assume "r' \<in> set (jobs ?d)"
    then obtain r where r: "r \<in> set (jobs d)" "r' = complete_row now ids results w d r"
      by (auto simp: complete_ok(2) [OF assms])
    have "row_id r' = row_id r" by (simp add: r(2) complete_row_def finish_row_def unblock_row_def)
    moreover have "pending_deps r' = pending_deps r - edges_into (held_ids w ids d) (row_id r) d"
      using edges_into_pending(2) [OF assms r(1), of w ids]
      by (auto simp: edges_into_pos r(2) complete_row_def finish_row_def unblock_row_def holds_def)
    moreover have "open_parents (row_id r) ?d = open_parents (row_id r) d - edges_into (held_ids w ids d) (row_id r) d"
      using edges_split [OF held_not_completed [of d w ids], of "row_id r"] assms complete_ok(3) [OF assms, of now ids results w]
      by (simp add: open_parents_def complete_completed_ids [OF assms] db_inv_def same_rest_def)
    moreover have "open_parents (row_id r) d \<le> pending_deps r"
      using assms r(1) by (simp add: db_inv_def flow_ok_def)
    ultimately show "open_parents (row_id r') ?d \<le> pending_deps r'" by simp
  qed
  with wf show ?thesis by (simp add: db_inv_def)
qed

text \<open>
  C16: Completing a batch is never refused, and settles exactly the jobs the worker still holds.
  Under the invariant of the database the count of outstanding parents of a child never goes
  below zero, so the constraint on it never fires, however many parents of one child are in the
  batch; the number returned is that of the held jobs, each of which is then complete with the
  result at its position, and the invariant is kept.
\<close>

theorem completion_settles_the_held_jobs:
  assumes "db_inv d" "complete now ids results w d = (res, d')"
  shows "res = Inr (count_where (holds w ids) d) \<and> db_inv d'
    \<and> completed_ids d' = completed_ids d \<union> held_ids w ids d
    \<and> (\<forall>r \<in> set (jobs d). holds w ids r \<longrightarrow>
          (\<exists>r' \<in> set (jobs d'). row_id r' = row_id r \<and> state r' = Completed \<and> locked_by r' = None
             \<and> job_result r' = (case map_of (zip ids results) (row_id r) of None \<Rightarrow> None | Some v \<Rightarrow> v)))"
proof -
  have mem: "complete_row now ids results w d r \<in> set (jobs d')" if "r \<in> set (jobs d)" for r
    using that complete_ok(2) [OF assms(1), of now ids results w] assms(2) by simp
  have "\<exists>r' \<in> set (jobs d'). row_id r' = row_id r \<and> state r' = Completed \<and> locked_by r' = None
      \<and> job_result r' = (case map_of (zip ids results) (row_id r) of None \<Rightarrow> None | Some v \<Rightarrow> v)"
    if "r \<in> set (jobs d)" "holds w ids r" for r
    by (rule bexI [OF _ mem [OF that(1)]]) (use that(2) in \<open>simp add: complete_row_def finish_row_def\<close>)
  then show ?thesis
    using complete_ok(1) [OF assms(1), of now ids results w] complete_inv [OF assms(1), of now ids results w]
      complete_completed_ids [OF assms(1), of now ids results w] assms(2) by simp
qed

theorem completion_settles_the_held_jobs_witness:
  "fst (complete 20 [2, 1, 9] [Some [5], None, None] 7 flow_db) = Inr 2
   \<and> db_inv (snd (complete 20 [2, 1, 9] [Some [5], None, None] 7 flow_db))"
proof -
  have "count_where (holds 7 [2, 1, 9]) flow_db = 2" by code_simp
  with completion_settles_the_held_jobs [OF flow_db_inv surjective_pairing, of 20 "[2, 1, 9]" "[Some [5], None, None]" 7]
  show ?thesis by simp
qed

text \<open>A job with a parent that is not complete counts it, so it is neither due nor run.\<close>

lemma open_parent_pending:
  assumes "db_inv d" "r \<in> set (jobs d)" "e \<in> set (edges d)" "e_child e = row_id r" "e_parent e \<notin> completed_ids d"
  shows "0 < pending_deps r"
proof -
  have "e \<in> set (filter (\<lambda>e. e_child e = row_id r \<and> e_parent e \<notin> completed_ids d) (edges d))" using assms(3-5) by simp
  then have "0 < open_parents (row_id r) d"
    unfolding open_parents_def of_nat_0_less_iff by (rule length_pos_if_in_set)
  moreover have "open_parents (row_id r) d \<le> pending_deps r" using assms(1,2) by (simp add: db_inv_def flow_ok_def)
  ultimately show ?thesis by simp
qed

lemma pending_not_due:
  assumes "db_inv d" "r \<in> set (jobs d)" "0 < pending_deps r"
  shows "state r = Available \<and> scheduled_at r = Infinity \<or> state r = Cancelled"
  using assms by (simp add: db_inv_def db_wf_def row_wf_def)

text \<open>
  C17: The last parent to complete makes its child due. If every outstanding parent of a waiting
  job is in the batch, the same statement leaves the job with nothing outstanding and scheduled
  now, and wakes its queue.
\<close>

theorem last_parent_wakes_child:
  assumes "db_inv d" "complete now ids results w d = (res, d')" "r \<in> set (jobs d)" "state r = Available"
    and "0 < pending_deps r" "edges_into (held_ids w ids d) (row_id r) d = pending_deps r"
  shows "(\<exists>r' \<in> set (jobs d'). row_id r' = row_id r \<and> runnable now [queue r] r' \<and> pending_deps r' = 0)
    \<and> queue r \<in> set (drop (length (notified d)) (notified d'))"
proof -
  have nh: "\<not> holds w ids r" using assms(4) by (auto simp: holds_def)
  have "complete_row now ids results w d r = unblock_row now (pending_deps r) r"
    using assms(5,6) nh by (simp add: complete_row_def)
  moreover have "complete_row now ids results w d r \<in> set (jobs d')"
    using assms(2,3) complete_ok(2) [OF assms(1), of now ids results w] by simp
  ultimately have "unblock_row now (pending_deps r) r \<in> set (jobs d')" by simp
  then have "\<exists>r' \<in> set (jobs d'). row_id r' = row_id r \<and> runnable now [queue r] r' \<and> pending_deps r' = 0"
    using assms(4) by (intro bexI [of _ "unblock_row now (pending_deps r) r"]) (simp_all add: unblock_row_def runnable_def)
  moreover have "queue r \<in> set (drop (length (notified d)) (notified d'))"
  proof -
    have "ids \<noteq> []" using assms(5,6) by (auto simp: edges_into_def held_ids_def holds_def)
    moreover have "fst (complete now ids results w d) = Inr (count_where (holds w ids) d)"
      by (rule complete_ok(1) [OF assms(1)])
    ultimately have "notified d' = notified d @ remdups (map queue (filter (\<lambda>r. pending_deps r - edges_into (held_ids w ids d) (row_id r) d = 0)
        (filter (\<lambda>r. 0 < edges_into (held_ids w ids d) (row_id r) d \<and> \<not> holds w ids r) (jobs d))))"
      using assms(2) by (auto simp: complete_def complete_stmt_def Let_def held_ids_def split: if_splits)
    then show ?thesis using assms(3,5,6) nh by auto
  qed
  ultimately show ?thesis by blast
qed

theorem last_parent_wakes_child_witness:
  "\<exists>r' \<in> set (jobs (snd (complete 20 [1, 2] [] 7 flow_db))). row_id r' = row_id (parked_row 3 2)
     \<and> runnable 20 [queue (parked_row 3 2)] r' \<and> pending_deps r' = 0"
proof -
  have "parked_row 3 2 \<in> set (jobs flow_db)" "state (parked_row 3 2) = Available" "0 < pending_deps (parked_row 3 2)"
    "edges_into (held_ids 7 [1, 2] flow_db) (row_id (parked_row 3 2)) flow_db = pending_deps (parked_row 3 2)"
    by code_simp+
  from last_parent_wakes_child [OF flow_db_inv surjective_pairing this] show ?thesis by blast
qed

end
