(* ===== verification/Failure.thy ===== *)
theory Failure
  imports Complex_Main Recovery
begin

text \<open>
  How a job fails (\<open>crates/gylo-pg/src/lib.rs\<close>): \<open>retry_many\<close> with its backoff and
  \<open>discard_many\<close> with the cancellation of everything downstream of a dead job.
\<close>

section \<open>Retrying\<close>

text \<open>
  The delay before the next attempt, in microseconds: \<open>least(base * 2 ^ (attempt - 1), cap)\<close>
  times a jitter of one half to one, rounded to the nearest microsecond, ties to even.
  \<open>random\<close> gives each row its own number. The arithmetic is exact where the server's is in
  double precision; what overflows there is an error here too.
\<close>

definition pow2 :: "int \<Rightarrow> rat" where
  "pow2 k = (if 0 \<le> k then 2 ^ nat k else 1 / 2 ^ nat (- k))"

definition rint :: "rat \<Rightarrow> int" where
  "rint x =
     (let n = \<lfloor>x\<rfloor>; f = x - of_int n in
      if f < 1 / 2 then n else if f > 1 / 2 then n + 1 else if even n then n else n + 1)"

definition nominal_delay :: "duration \<Rightarrow> duration \<Rightarrow> int \<Rightarrow> rat" where
  "nominal_delay base cap a = min (of_nat base * pow2 (a - 1)) (of_nat cap)"

definition backoff :: "duration \<Rightarrow> duration \<Rightarrow> int \<Rightarrow> rat \<Rightarrow> int" where
  "backoff base cap a u = rint (nominal_delay base cap a * (1 / 2 + u * (1 / 2)))"

definition delay_overflows :: "duration \<Rightarrow> int \<Rightarrow> bool" where
  "delay_overflows base a \<longleftrightarrow>
     1024 \<le> a - 1 \<or> (2 ^ 1024 - 2 ^ 970) * 1000000 \<le> of_nat base * pow2 (a - 1)"

record retried =
  rt_scheduled :: nat
  rt_exhausted :: nat

text \<open>Of the errors of an identifier given twice the server may record any; the model takes the first.\<close>

definition error_for :: "i64 list \<Rightarrow> string list \<Rightarrow> i64 \<Rightarrow> string" where
  "error_for ids errs i = (case map_of (zip ids errs) i of None \<Rightarrow> [] | Some s \<Rightarrow> s)"

definition reschedule_row :: "int \<Rightarrow> int \<Rightarrow> string \<Rightarrow> job_row \<Rightarrow> job_row" where
  "reschedule_row now delay message r =
     r\<lparr>state := Available, locked_by := None, lease_expires_at := None,
       scheduled_at := At (now + delay),
       errors := errors r @ [\<lparr>ee_attempt = attempt r, ee_at = now, ee_error = message\<rparr>]\<rparr>"

definition retry_many ::
  "(i64 \<Rightarrow> rat) \<Rightarrow> int \<Rightarrow> i64 list \<Rightarrow> string list \<Rightarrow> uuid \<Rightarrow> duration \<Rightarrow> duration \<Rightarrow> retried op"
where
  "retry_many random now ids errs worker base cap d =
     (if ids = [] then (Inr \<lparr>rt_scheduled = 0, rt_exhausted = 0\<rparr>, d)
      else bind_text errs (\<lambda>d.
        if list_ex (\<lambda>r. holds worker ids r \<and> \<not> exhausted r \<and> delay_overflows base (sint (attempt r))) (jobs d)
        then (Inl (Database NumericOutOfRange), d)
        else
          (Inr \<lparr>rt_scheduled = count_where (\<lambda>r. holds worker ids r \<and> \<not> exhausted r) d,
                rt_exhausted = count_where (\<lambda>r. holds worker ids r \<and> exhausted r) d\<rparr>,
           update_where (holds worker ids) (\<lambda>r.
             if exhausted r then discard_row now (error_for ids errs (row_id r)) r
             else reschedule_row now (backoff base cap (sint (attempt r)) (random (row_id r)))
                    (error_for ids errs (row_id r)) r) d)) d)"

section \<open>Discarding\<close>

text \<open>
  The recursive query \<open>walk\<close>: each round follows the edges out of what the previous round
  found, and the query ends when a round finds nothing new.
\<close>

definition children :: "edge_row list \<Rightarrow> i64 set \<Rightarrow> i64 list" where
  "children es ps = remdups (map e_child (filter (\<lambda>e. e_parent e \<in> ps) es))"

function walk :: "edge_row list \<Rightarrow> i64 list \<Rightarrow> i64 set \<Rightarrow> i64 list" where
  "walk es seen ps =
     (let found = filter (\<lambda>c. c \<notin> set seen) (children es ps) in
      if found = [] then seen else walk es (seen @ found) (set found))"
  by pat_completeness auto

lemma walk_decreases:
  assumes "found = filter (\<lambda>c. c \<notin> set seen) (children es ps)" "found \<noteq> []"
  shows "card (set (map e_child es) - set (seen @ found)) < card (set (map e_child es) - set seen)"
proof (rule psubset_card_mono)
  obtain c where "c \<in> set found" using assms(2) by (meson hd_in_set)
  then have "c \<in> set (map e_child es)" "c \<notin> set seen" by (auto simp: assms(1) children_def)
  with \<open>c \<in> set found\<close> show "set (map e_child es) - set (seen @ found) \<subset> set (map e_child es) - set seen"
    by auto
qed simp

termination walk
  by (relation "measure (\<lambda>(es, seen, ps). card (set (map e_child es) - set seen))")
    (use walk_decreases in auto)

declare walk.simps [simp del]

definition downstream :: "edge_row list \<Rightarrow> i64 set \<Rightarrow> i64 set" where
  "downstream es ps = set (walk es [] ps)"

definition cascade_row :: "int \<Rightarrow> job_row \<Rightarrow> job_row" where
  "cascade_row now r = r\<lparr>state := Cancelled, finalized_at := Some now\<rparr>"

definition discard_stmt :: "int \<Rightarrow> i64 list \<Rightarrow> string list \<Rightarrow> uuid \<Rightarrow> nat op" where
  "discard_stmt now ids errs worker = bind_text errs (\<lambda>d.
     let dead = held_ids worker ids d;
         below = downstream (edges d) dead
     in (Inr (count_where (holds worker ids) d),
         d\<lparr>jobs := map (\<lambda>r.
              if holds worker ids r then discard_row now (error_for ids errs (row_id r)) r
              else if row_id r \<in> below \<and> state r = Available then cascade_row now r
              else r) (jobs d)\<rparr>))"

definition discard_many :: "int \<Rightarrow> i64 list \<Rightarrow> string list \<Rightarrow> uuid \<Rightarrow> nat op" where
  "discard_many now ids errs worker d =
     (if ids = [] then (Inr 0, d) else discard_stmt now ids errs worker d)"

section \<open>Discarding and everything downstream\<close>

definition edge_rel :: "edge_row list \<Rightarrow> (i64 \<times> i64) set" where
  "edge_rel es = (\<lambda>e. (e_parent e, e_child e)) ` set es"

lemma set_children: "set (children es ps) = edge_rel es `` ps"
  by (auto simp: children_def edge_rel_def)

lemma trancl_image_closed:
  assumes "R `` ps \<subseteq> X" "R `` X \<subseteq> X"
  shows "R\<^sup>+ `` ps \<subseteq> X"
proof
  fix x assume "x \<in> R\<^sup>+ `` ps"
  then obtain p where "p \<in> ps" "(p, x) \<in> R\<^sup>+" by blast
  from this(2,1) show "x \<in> X" by (induction rule: trancl_induct) (use assms in blast)+
qed

lemma walk_trancl:
  assumes "edge_rel es `` (set seen - ps) \<subseteq> set seen"
  shows "set (walk es seen ps) = set seen \<union> (edge_rel es)\<^sup>+ `` ps"
  using assms
proof (induction es seen ps rule: walk.induct)
  case (1 es seen ps)
  let ?R = "edge_rel es" and ?found = "filter (\<lambda>c. c \<notin> set seen) (children es ps)"
  have found: "set ?found = ?R `` ps - set seen" by (auto simp: set_children)
  show ?case
  proof (cases "?found = []")
    case True
    then have "?R `` ps \<subseteq> set seen" using found by auto
    then have "?R\<^sup>+ `` ps \<subseteq> set seen" using "1.prems" by (intro trancl_image_closed) blast+
    then show ?thesis using True by (subst walk.simps) auto
  next
    case False
    let ?X = "set seen \<union> set ?found \<union> ?R\<^sup>+ `` set ?found"
    have "?R `` (set (seen @ ?found) - set ?found) \<subseteq> set (seen @ ?found)"
      using "1.prems" unfolding set_append found by blast
    from "1.IH" [OF refl False this] have w: "set (walk es seen ps) = ?X"
      using False by (subst walk.simps) (auto simp: Let_def)
    have "?R `` ?X \<subseteq> ?X"
      using "1.prems" unfolding found by (blast intro: trancl_into_trancl)
    moreover have "?R `` ps \<subseteq> ?X" unfolding found by blast
    ultimately have "?R\<^sup>+ `` ps \<subseteq> ?X" by (intro trancl_image_closed)
    moreover have "?X \<subseteq> set seen \<union> ?R\<^sup>+ `` ps" unfolding found by (blast intro: trancl_into_trancl2)
    ultimately show ?thesis using w by auto
  qed
qed

lemma downstream_trancl: "downstream es ps = (edge_rel es)\<^sup>+ `` ps"
  unfolding downstream_def by (subst walk_trancl) simp_all

definition discard_many_row :: "int \<Rightarrow> i64 list \<Rightarrow> string list \<Rightarrow> uuid \<Rightarrow> db \<Rightarrow> job_row \<Rightarrow> job_row" where
  "discard_many_row now ids errs w d r =
     (if holds w ids r then discard_row now (error_for ids errs (row_id r)) r
      else if row_id r \<in> downstream (edges d) (held_ids w ids d) \<and> state r = Available then cascade_row now r
      else r)"

lemma downstream_empty [simp]: "downstream es {} = {}"
  by (simp add: downstream_trancl)

lemma discard_many_jobs:
  shows "same_rest d (snd (discard_many now ids errs w d))"
    "list_all text_ok errs \<Longrightarrow> jobs (snd (discard_many now ids errs w d)) = map (discard_many_row now ids errs w d) (jobs d)"
    "\<not> list_all text_ok errs \<Longrightarrow> snd (discard_many now ids errs w d) = d"
proof -
  have "discard_many_row now [] errs w d r = r" for r
    by (simp add: discard_many_row_def holds_def held_ids_def)
  then show "list_all text_ok errs \<Longrightarrow> jobs (snd (discard_many now ids errs w d)) = map (discard_many_row now ids errs w d) (jobs d)"
    by (auto simp: discard_many_def discard_stmt_def bind_text_def Let_def discard_many_row_def cong: map_cong)
qed (auto simp: discard_many_def discard_stmt_def bind_text_def Let_def same_rest_def)

lemma discard_row_step: "state r = Running \<Longrightarrow> row_step now r (discard_row now x r)"
  unfolding discard_row_def by (rule row_step.discard)

lemma cascade_row_step: "state r = Available \<Longrightarrow> row_step now r (cascade_row now r)"
  unfolding cascade_row_def by (rule row_step.cascade)

lemma reschedule_row_step:
  "state r = Running \<Longrightarrow> \<not> exhausted r \<Longrightarrow> row_step now r (reschedule_row now k x r)"
  unfolding reschedule_row_def exhausted_def by (intro row_step.reschedule) auto

lemma not_live_ended [simp]: "\<not> live (discard_row now x r)" "\<not> live (cascade_row now r)"
  by (simp_all add: live_def discard_row_def cascade_row_def)

lemma discard_many_row_step:
  "discard_many_row now ids errs w d r = r
   \<or> row_step now r (discard_many_row now ids errs w d r) \<and> (live (discard_many_row now ids errs w d r) \<longrightarrow> live r)"
  by (simp add: discard_many_row_def discard_row_step holds_running cascade_row_step)

lemma discard_many_lawful: "lawful now d (snd (discard_many now ids errs w d))"
proof (cases "list_all text_ok errs")
  case True
  then show ?thesis using discard_many_row_step by (intro lawful_map [OF discard_many_jobs(2)]) blast+
qed (simp add: discard_many_jobs(3))

lemma discard_many_wf:
  assumes "db_wf d"
  shows "db_wf (snd (discard_many now ids errs w d))"
proof (cases "list_all text_ok errs")
  case True
  then show ?thesis
    using discard_many_row_step by (intro db_wf_map [OF assms discard_many_jobs(2,1), where now = now]) blast+
qed (simp add: discard_many_jobs(3) assms)

lemma discard_many_inv:
  assumes "db_inv d"
  shows "db_inv (snd (discard_many now ids errs w d))"
proof -
  have "map pending_deps (jobs (snd (discard_many now ids errs w d))) = map pending_deps (jobs d)"
    by (cases "list_all text_ok errs")
      (simp_all add: discard_many_jobs discard_many_row_def discard_row_def cascade_row_def)
  moreover have "edges (snd (discard_many now ids errs w d)) = edges d"
    using discard_many_jobs(1) by (simp add: same_rest_def)
  ultimately show ?thesis
    using assms flow_ok_lawful [OF _ discard_many_lawful] discard_many_wf by (simp add: db_inv_def)
qed

text \<open>
  C23: Discarding a batch cancels exactly what is downstream of it. With messages Postgres can
  store, a job the worker holds is dead-lettered; a waiting job that some chain of edges reaches from one of those is cancelled;
  every other row is left as it was.
\<close>

theorem discard_cancels_exactly_downstream:
  assumes "ids \<noteq> []" "list_all text_ok errs" "r \<in> set (jobs d)" "discard_many now ids errs w d = (res, d')"
  defines "below \<equiv> \<exists>p \<in> held_ids w ids d. (p, row_id r) \<in> (edge_rel (edges d))\<^sup>+"
  shows "\<exists>r' \<in> set (jobs d'). row_id r' = row_id r
    \<and> (if holds w ids r then state r' = Discarded \<and> locked_by r' = None
          \<and> map ee_error (errors r') = map ee_error (errors r) @ [error_for ids errs (row_id r)]
       else if below \<and> state r = Available then state r' = Cancelled
       else r' = r)"
proof (rule bexI)
  show "discard_many_row now ids errs w d r \<in> set (jobs d')"
    using assms(3,4) discard_many_jobs(2) [OF assms(2), of now ids w d] by simp
  have "row_id r \<in> downstream (edges d) (held_ids w ids d) \<longleftrightarrow> below"
    by (auto simp: below_def downstream_trancl)
  then show "row_id (discard_many_row now ids errs w d r) = row_id r
    \<and> (if holds w ids r then state (discard_many_row now ids errs w d r) = Discarded
          \<and> locked_by (discard_many_row now ids errs w d r) = None
          \<and> map ee_error (errors (discard_many_row now ids errs w d r)) = map ee_error (errors r) @ [error_for ids errs (row_id r)]
       else if below \<and> state r = Available then state (discard_many_row now ids errs w d r) = Cancelled
       else discard_many_row now ids errs w d r = r)"
    by (simp add: discard_many_row_def discard_row_def cascade_row_def)
qed

theorem discard_cancels_exactly_downstream_witness:
  "\<exists>r' \<in> set (jobs (snd (discard_many 20 [1] [''boom''] 7 flow_db))). row_id r' = 4 \<and> state r' = Cancelled"
proof -
  have facts: "[1 :: i64] \<noteq> []" "list_all text_ok [''boom'']" "parked_row 4 1 \<in> set (jobs flow_db)"
    "state (parked_row 4 1) = Available" "row_id (parked_row 4 1) = 4" "\<not> holds 7 [1] (parked_row 4 1)"
    "1 \<in> held_ids 7 [1] flow_db" "4 \<in> downstream (edges flow_db) {1}"
    by code_simp+
  then have "(1, 4) \<in> (edge_rel (edges flow_db))\<^sup>+" by (simp add: downstream_trancl)
  with facts(7) have "\<exists>p \<in> held_ids 7 [1] flow_db. (p, row_id (parked_row 4 1)) \<in> (edge_rel (edges flow_db))\<^sup>+"
    unfolding facts(5) by blast
  with discard_cancels_exactly_downstream [OF facts(1-3) surjective_pairing, of 20 7] show ?thesis
    by (simp add: facts(4-6))
qed

section \<open>Retrying and the backoff\<close>

definition retry_row ::
  "(i64 \<Rightarrow> rat) \<Rightarrow> int \<Rightarrow> i64 list \<Rightarrow> string list \<Rightarrow> duration \<Rightarrow> duration \<Rightarrow> job_row \<Rightarrow> job_row"
where
  "retry_row random now ids errs base cap r =
     (if exhausted r then discard_row now (error_for ids errs (row_id r)) r
      else reschedule_row now (backoff base cap (sint (attempt r)) (random (row_id r))) (error_for ids errs (row_id r)) r)"

lemma retry_many_cases:
  obtains (refused) e where "retry_many random now ids errs w base cap d = (Inl (Database e), d)"
  | (retried) res where "retry_many random now ids errs w base cap d =
      (Inr res, update_where (holds w ids) (retry_row random now ids errs base cap) d)"
proof (cases "ids = []")
  case True
  then have "update_where (holds w ids) (retry_row random now ids errs base cap) d = d"
    by (simp add: holds_def update_where_def)
  then show ?thesis using True retried by (simp add: retry_many_def)
next
  case False
  show ?thesis
  proof (cases "list_all text_ok errs \<and> \<not> list_ex (\<lambda>r. holds w ids r \<and> \<not> exhausted r \<and> delay_overflows base (sint (attempt r))) (jobs d)")
    case True
    then show ?thesis
      using False retried by (simp add: retry_many_def bind_text_def retry_row_def [abs_def])
  next
    case no: False
    then have "\<exists>e. retry_many random now ids errs w base cap d = (Inl (Database e), d)"
      using False by (auto simp: retry_many_def bind_text_def)
    then show ?thesis using refused by blast
  qed
qed

lemma retry_many_accepted:
  assumes "ids \<noteq> []" "list_all text_ok errs"
    and "\<And>r. r \<in> set (jobs d) \<Longrightarrow> holds w ids r \<Longrightarrow> \<not> delay_overflows base (sint (attempt r))"
  shows "fst (retry_many random now ids errs w base cap d) =
    Inr \<lparr>rt_scheduled = count_where (\<lambda>r. holds w ids r \<and> \<not> exhausted r) d,
         rt_exhausted = count_where (\<lambda>r. holds w ids r \<and> exhausted r) d\<rparr>"
  using assms by (auto simp: retry_many_def bind_text_def list_ex_iff)

lemma retry_row_step:
  assumes "holds w ids r"
  shows "row_step now r (retry_row random now ids errs base cap r)
    \<and> (live (retry_row random now ids errs base cap r) \<longrightarrow> live r)"
  using assms
  by (auto simp: retry_row_def discard_row_step reschedule_row_step holds_running) (simp add: live_def holds_def)

lemma retry_many_lawful: "lawful now d (snd (retry_many random now ids errs w base cap d))"
  by (cases rule: retry_many_cases [of random now ids errs w base cap d])
    (use retry_row_step in \<open>auto intro!: lawful_update_where\<close>)

lemma retry_many_wf: "db_wf d \<Longrightarrow> db_wf (snd (retry_many random now ids errs w base cap d))"
  by (cases rule: retry_many_cases [of random now ids errs w base cap d])
    (use retry_row_step in \<open>auto intro!: db_wf_update_where [where now = now]\<close>)

lemma retry_many_inv:
  assumes "db_inv d"
  shows "db_inv (snd (retry_many random now ids errs w base cap d))"
proof -
  have "map pending_deps (jobs (snd (retry_many random now ids errs w base cap d))) = map pending_deps (jobs d)
      \<and> edges (snd (retry_many random now ids errs w base cap d)) = edges d"
    by (cases rule: retry_many_cases [of random now ids errs w base cap d])
      (simp_all add: update_where_def retry_row_def discard_row_def reschedule_row_def)
  then show ?thesis
    using assms flow_ok_lawful [OF _ retry_many_lawful] retry_many_wf by (simp add: db_inv_def)
qed

lemma rint_near: "x - 1 / 2 \<le> of_int (rint x)" "of_int (rint x) \<le> x + 1 / 2"
proof -
  have "of_int \<lfloor>x\<rfloor> \<le> x" "x < of_int \<lfloor>x\<rfloor> + 1" by linarith+
  moreover have "rint x = \<lfloor>x\<rfloor> \<and> x - of_int \<lfloor>x\<rfloor> \<le> 1 / 2 \<or> rint x = \<lfloor>x\<rfloor> + 1 \<and> 1 / 2 \<le> x - of_int \<lfloor>x\<rfloor>"
    unfolding rint_def Let_def by auto
  then have "of_int (rint x) = (of_int \<lfloor>x\<rfloor> :: rat) \<and> x - of_int \<lfloor>x\<rfloor> \<le> 1 / 2
      \<or> of_int (rint x) = (of_int \<lfloor>x\<rfloor> + 1 :: rat) \<and> 1 / 2 \<le> x - of_int \<lfloor>x\<rfloor>" by auto
  ultimately show "x - 1 / 2 \<le> of_int (rint x)" "of_int (rint x) \<le> x + 1 / 2" by linarith+
qed

lemma rint_mono_int: "x \<le> of_int n \<Longrightarrow> rint x \<le> n" "of_int n \<le> x \<Longrightarrow> n \<le> rint x"
proof -
  assume "x \<le> of_int n"
  then have "of_int (rint x) \<le> (of_int n + 1 / 2 :: rat)" using rint_near(2) [of x] by linarith
  then show "rint x \<le> n" by linarith
next
  assume "of_int n \<le> x"
  then have "of_int n - 1 / 2 \<le> (of_int (rint x) :: rat)" using rint_near(1) [of x] by linarith
  then show "n \<le> rint x" by linarith
qed

lemma nominal_delay_range: "0 \<le> nominal_delay base cap a" "nominal_delay base cap a \<le> of_nat cap"
  by (simp_all add: nominal_delay_def pow2_def)

lemma backoff_range:
  assumes "0 \<le> u" "u < 1"
  shows "0 \<le> backoff base cap a u" "backoff base cap a u \<le> int cap"
    "nominal_delay base cap a / 2 - 1 / 2 \<le> of_int (backoff base cap a u)"
    "of_int (backoff base cap a u) \<le> nominal_delay base cap a + 1 / 2"
proof -
  let ?n = "nominal_delay base cap a" and ?x = "nominal_delay base cap a * (1 / 2 + u * (1 / 2))"
  have lo: "?n / 2 \<le> ?x" and hi: "?x \<le> ?n"
    using assms nominal_delay_range(1) [of base cap a] mult_left_mono [of "1 / 2 + u * (1 / 2)" 1 ?n]
      mult_left_mono [of "1 / 2" "1 / 2 + u * (1 / 2)" ?n]
    by simp_all
  have "of_int 0 \<le> ?x" using lo nominal_delay_range(1) [of base cap a] by simp
  then show "0 \<le> backoff base cap a u" unfolding backoff_def by (rule rint_mono_int(2))
  have "?x \<le> of_int (int cap)" using hi nominal_delay_range(2) [of base cap a] by simp
  then show "backoff base cap a u \<le> int cap" unfolding backoff_def by (rule rint_mono_int(1))
  show "?n / 2 - 1 / 2 \<le> of_int (backoff base cap a u)" "of_int (backoff base cap a u) \<le> ?n + 1 / 2"
    using rint_near [of ?x] lo hi unfolding backoff_def by linarith+
qed

text \<open>
  C30: A failed job is retried after its backoff, or dead-lettered. In a batch that is accepted,
  each job the worker holds gives up its lock and gains the reported error; with attempts left
  it waits, scheduled between half and all of min (base * 2 ^ (attempt - 1)) cap from now, to
  the microsecond and never past the cap; without, it is dead-lettered. Other rows are untouched.
\<close>

theorem retry_backs_off:
  assumes "retry_many random now ids errs w base cap d = (Inr res, d')" "r \<in> set (jobs d)"
    and "\<forall>i. 0 \<le> random i \<and> random i < 1"
  shows "if \<not> holds w ids r then r \<in> set (jobs d')
    else \<exists>r' \<in> set (jobs d'). row_id r' = row_id r \<and> locked_by r' = None
      \<and> map ee_error (errors r') = map ee_error (errors r) @ [error_for ids errs (row_id r)]
      \<and> (if sint (attempt r) < sint (max_attempts r)
         then state r' = Available \<and> (\<exists>t. scheduled_at r' = At (now + t) \<and> 0 \<le> t \<and> t \<le> int cap
           \<and> nominal_delay base cap (sint (attempt r)) / 2 - 1 / 2 \<le> of_int t
           \<and> of_int t \<le> nominal_delay base cap (sint (attempt r)) + 1 / 2)
         else state r' = Discarded)"
proof (cases rule: retry_many_cases [of random now ids errs w base cap d])
  case (retried res')
  let ?f = "retry_row random now ids errs base cap"
  have jobs: "jobs d' = map (\<lambda>r. if holds w ids r then ?f r else r) (jobs d)"
    using assms(1) retried by (auto simp: update_where_def)
  have "0 \<le> random (row_id r)" "random (row_id r) < 1" using assms(3) by auto
  note range = backoff_range [OF this, of base cap "sint (attempt r)"]
  show ?thesis
  proof (cases "holds w ids r")
    case True
    then have "?f r \<in> set (jobs d')" using assms(2) by (force simp: jobs)
    moreover have "row_id (?f r) = row_id r \<and> locked_by (?f r) = None
      \<and> map ee_error (errors (?f r)) = map ee_error (errors r) @ [error_for ids errs (row_id r)]"
      by (simp add: retry_row_def discard_row_def reschedule_row_def)
    moreover have "if sint (attempt r) < sint (max_attempts r)
         then state (?f r) = Available \<and> (\<exists>t. scheduled_at (?f r) = At (now + t) \<and> 0 \<le> t \<and> t \<le> int cap
           \<and> nominal_delay base cap (sint (attempt r)) / 2 - 1 / 2 \<le> of_int t
           \<and> of_int t \<le> nominal_delay base cap (sint (attempt r)) + 1 / 2)
         else state (?f r) = Discarded"
      using range by (simp add: retry_row_def discard_row_def reschedule_row_def exhausted_def)
    ultimately show ?thesis unfolding if_not_P [OF not_not [THEN iffD2, OF True]] by blast
  next
    case False
    then show ?thesis using assms(2) by (force simp: jobs)
  qed
qed (use assms(1) in simp)

theorem retry_backs_off_witness:
  "\<exists>res d'. retry_many (\<lambda>_. 0) 20 [1] [''boom''] 7 1000 60000 leased_db = (Inr res, d') \<and> rt_scheduled res = 1
     \<and> (\<exists>r' \<in> set (jobs d'). row_id r' = 1 \<and> state r' = Available \<and> map ee_error (errors r') = [''boom''])"
proof -
  let ?f = "retry_many (\<lambda>_. 0) 20 [1] [''boom''] 7 1000 60000 leased_db"
  have ok: "[1 :: i64] \<noteq> []" "list_all text_ok [''boom'']"
    "count_where (\<lambda>r. holds 7 [1] r \<and> \<not> exhausted r) leased_db = 1" by code_simp+
  have "\<not> delay_overflows 1000 (sint (attempt r))" if "r \<in> set (jobs leased_db)" for r
    using that by (auto simp: leased_db_def leased_row_def sample_defs delay_overflows_def pow2_def)
  from retry_many_accepted [OF ok(1,2) this]
  have "map_sum id rt_scheduled (fst ?f) = Inr 1" using ok(3) by simp
  then obtain res where res: "?f = (Inr res, snd ?f)" "rt_scheduled res = 1" by (rule ok_pair)
  have facts: "leased_row 1 7 30 \<in> set (jobs leased_db)" "holds 7 [1] (leased_row 1 7 30)" "row_id (leased_row 1 7 30) = 1"
    "sint (attempt (leased_row 1 7 30)) < sint (max_attempts (leased_row 1 7 30))" "errors (leased_row 1 7 30) = []"
    "error_for [1] [''boom''] 1 = ''boom''"
    by code_simp+
  have "\<exists>r' \<in> set (jobs (snd ?f)). row_id r' = 1 \<and> state r' = Available \<and> map ee_error (errors r') = [''boom'']"
    using retry_backs_off [OF res(1) facts(1)] by (auto simp: facts(2-))
  with res show ?thesis by (intro exI conjI)
qed

text \<open>
  A job that runs out of attempts leaves its dependants parked. Unlike discard_many, a retry
  that dead-letters a job cancels nothing: a waiting job keeps its row as it was, also when an
  edge leads to it from the job that just died.
\<close>

theorem exhausted_retry_strands_dependants:
  assumes "retry_many random now ids errs w base cap d = (Inr res, d')"
    and "p \<in> set (jobs d)" "holds w ids p" "sint (max_attempts p) \<le> sint (attempt p)"
    and "c \<in> set (jobs d)" "state c = Available" "(row_id p, row_id c) \<in> edge_rel (edges d)"
  shows "(\<exists>p' \<in> set (jobs d'). row_id p' = row_id p \<and> state p' = Discarded)
    \<and> c \<in> set (jobs d') \<and> (row_id p, row_id c) \<in> edge_rel (edges d')"
proof (cases rule: retry_many_cases [of random now ids errs w base cap d])
  case (retried res')
  let ?f = "retry_row random now ids errs base cap"
  have d': "d' = update_where (holds w ids) ?f d" using assms(1) retried by simp
  have "?f p \<in> set (jobs d')" using assms(2,3) by (force simp: d' update_where_def)
  moreover have "row_id (?f p) = row_id p \<and> state (?f p) = Discarded"
    using assms(4) by (simp add: retry_row_def exhausted_def discard_row_def)
  moreover have "c \<in> set (jobs d')" using assms(5,6) by (force simp: d' update_where_def holds_def)
  ultimately show ?thesis using assms(7) by (auto simp: d' update_where_def)
qed (use assms(1) in simp)

definition dying_row :: job_row where
  "dying_row = (leased_row 1 7 30)\<lparr>max_attempts := 1\<rparr>"

definition dying_db :: db where
  "dying_db = flow_db\<lparr>jobs := dying_row # tl (jobs flow_db)\<rparr>"

theorem exhausted_retry_strands_dependants_witness:
  "\<exists>res d'. retry_many (\<lambda>_. 0) 20 [1] [''boom''] 7 1000 60000 dying_db = (Inr res, d') \<and> rt_exhausted res = 1
     \<and> parked_row 3 2 \<in> set (jobs d')"
proof -
  let ?f = "retry_many (\<lambda>_. 0) 20 [1] [''boom''] 7 1000 60000 dying_db"
  have ok: "[1 :: i64] \<noteq> []" "list_all text_ok [''boom'']"
    "count_where (\<lambda>r. holds 7 [1] r \<and> exhausted r) dying_db = 1" by code_simp+
  have "\<not> delay_overflows 1000 (sint (attempt r))" if "r \<in> set (jobs dying_db)" for r
    using that by (auto simp: dying_db_def dying_row_def flow_db_def leased_row_def parked_row_def sample_defs
        delay_overflows_def pow2_def)
  from retry_many_accepted [OF ok(1,2) this]
  have "map_sum id rt_exhausted (fst ?f) = Inr 1" using ok(3) by simp
  then obtain res where res: "?f = (Inr res, snd ?f)" "rt_exhausted res = 1" by (rule ok_pair)
  have facts: "dying_row \<in> set (jobs dying_db)" "holds 7 [1] dying_row" "sint (max_attempts dying_row) \<le> sint (attempt dying_row)"
    "parked_row 3 2 \<in> set (jobs dying_db)" "state (parked_row 3 2) = Available"
    "(row_id dying_row, row_id (parked_row 3 2)) \<in> edge_rel (edges dying_db)"
    by code_simp+
  from exhausted_retry_strands_dependants [OF res(1) facts] have "parked_row 3 2 \<in> set (jobs (snd ?f))" by blast
  with res show ?thesis by (intro exI conjI)
qed

text \<open>
  One error message with a NUL character refuses the whole report. Neither a retry nor a
  discard that carries such a message changes any row, whatever else the batch holds.
\<close>

theorem nul_in_a_message_refuses_the_batch:
  assumes "ids \<noteq> []" "s \<in> set errs" "CHR 0x00 \<in> set s"
  shows "retry_many random now ids errs w base cap d = (Inl (Database InvalidText), d)
    \<and> discard_many now ids errs w d = (Inl (Database InvalidText), d)"
proof -
  have "\<not> list_all text_ok errs" using assms(2,3) by (auto simp: list_all_iff text_ok_def)
  then show ?thesis using assms(1) by (simp add: retry_many_def discard_many_def discard_stmt_def bind_text_def)
qed

theorem nul_in_a_message_refuses_the_batch_witness:
  "retry_many (\<lambda>_. 0) 20 [1, 2] [''boom'', [CHR 0x00]] 7 1000 60000 flow_db = (Inl (Database InvalidText), flow_db)"
  using nul_in_a_message_refuses_the_batch [of "[1, 2]" "[CHR 0x00]" "[''boom'', [CHR 0x00]]"] by simp

end
