(* ===== verification/CronTable.thy ===== *)
theory CronTable
  imports Samples Schedule Protocol
begin

text \<open>
  Cron schedules in the database (\<open>crates/gylo-pg/src/lib.rs\<close>: \<open>upsert_cron\<close>, \<open>due_cron\<close>,
  \<open>fire_cron\<close>) and the two routines of the worker that use them
  (\<open>crates/gylo-worker/src/lib.rs\<close>: \<open>register_schedules\<close>, \<open>fire_due_schedules\<close>). The worker
  computes the next run by its own clock, the database decides by its own what is due.
\<close>

section \<open>Statements\<close>

record cron_entry =
  ce_name :: string
  ce_queue :: string
  ce_task :: string
  ce_payload :: bytes
  ce_expression :: string
  ce_timezone :: string

record due_cron =
  dc_name :: string
  dc_expression :: string
  dc_timezone :: string

definition upsert_row :: "int \<Rightarrow> cron_entry \<Rightarrow> int \<Rightarrow> cron_row \<Rightarrow> cron_row" where
  "upsert_row now e next_run c =
     c\<lparr>c_queue := ce_queue e, c_task := ce_task e, c_payload := ce_payload e,
       c_expression := ce_expression e, c_timezone := ce_timezone e,
       c_next_run_at :=
         (if c_expression c \<noteq> ce_expression e \<or> c_timezone c \<noteq> ce_timezone e
          then next_run else c_next_run_at c),
       c_updated_at := now\<rparr>"

definition upsert_cron :: "int \<Rightarrow> cron_entry \<Rightarrow> int \<Rightarrow> unit op" where
  "upsert_cron now e next_run =
     bind_text [ce_name e, ce_queue e, ce_task e, ce_expression e, ce_timezone e] (\<lambda>d.
       (Inr (),
        if list_ex (\<lambda>c. c_name c = ce_name e) (crons d)
        then d\<lparr>crons := map (\<lambda>c. if c_name c = ce_name e then upsert_row now e next_run c else c) (crons d)\<rparr>
        else d\<lparr>crons := crons d @
               [\<lparr>c_name = ce_name e, c_queue = ce_queue e, c_task = ce_task e,
                 c_payload = ce_payload e, c_expression = ce_expression e,
                 c_timezone = ce_timezone e, c_paused = False, c_next_run_at = next_run,
                 c_last_run_at = None, c_updated_at = now\<rparr>]\<rparr>))"

definition is_due :: "int \<Rightarrow> cron_row \<Rightarrow> bool" where
  "is_due now c \<longleftrightarrow> \<not> c_paused c \<and> c_next_run_at c \<le> now"

definition due_crons :: "int \<Rightarrow> int \<Rightarrow> due_cron list op" where
  "due_crons limit now d =
     (if limit < 0 then (Inl (Database NegativeLimit), d)
      else (Inr (map (\<lambda>c. \<lparr>dc_name = c_name c, dc_expression = c_expression c, dc_timezone = c_timezone c\<rparr>)
              (take (nat limit) (sort_key c_next_run_at (filter (is_due now) (crons d))))), d))"

definition fire_row :: "string \<Rightarrow> int \<Rightarrow> int \<Rightarrow> cron_row \<Rightarrow> cron_row" where
  "fire_row name next_run now c =
     (if c_name c = name \<and> is_due now c then c\<lparr>c_next_run_at := next_run, c_last_run_at := Some now\<rparr> else c)"

text \<open>The insert is part of the statement: if it is refused the schedule does not move.\<close>

definition fire_cron :: "string \<Rightarrow> int \<Rightarrow> int \<Rightarrow> i64 option op" where
  "fire_cron name next_run now = bind_text [name] (\<lambda>d.
     case find (\<lambda>c. c_name c = name \<and> is_due now c) (crons d) of
       None \<Rightarrow> (Inr None, d)
     | Some c \<Rightarrow>
         (case insert_job now (default_row now (c_queue c) (c_task c) (c_payload c)) d of
            (Inl e, d') \<Rightarrow> (Inl e, d')
          | (Inr i, d') \<Rightarrow>
              (Inr (Some i), d'\<lparr>crons := map (fire_row name next_run now) (crons d)\<rparr>)))"

section \<open>The worker's routines\<close>

definition next_run_of ::
  "('tz, 'cron) cron_crate \<Rightarrow> string \<Rightarrow> string \<Rightarrow> int \<Rightarrow> (schedule_error, int) result"
where
  "next_run_of lib expression timezone t =
     (case parse lib expression timezone of Inl e \<Rightarrow> Inl e | Inr s \<Rightarrow> next_after lib s t)"

text \<open>
  Statement \<open>k\<close> of a routine runs in the surroundings \<open>v\<close>; \<open>t\<close> is the worker's own clock, read
  once. Errors are logged and the loop goes on.
\<close>

fun register_schedules ::
  "('tz, 'cron) cron_crate \<Rightarrow> env \<Rightarrow> int \<Rightarrow> nat \<Rightarrow> cron_registration list \<Rightarrow> db \<Rightarrow> db"
where
  "register_schedules lib v t k [] d = d"
| "register_schedules lib v t k (e # es) d =
     (case next_run_of lib (reg_expression e) (reg_timezone e) t of
        Inl err \<Rightarrow> register_schedules lib v t k es d
      | Inr next_run \<Rightarrow>
          let entry = \<lparr>ce_name = reg_name e, ce_queue = reg_queue e, ce_task = reg_task e,
                       ce_payload = reg_payload e, ce_expression = reg_expression e,
                       ce_timezone = reg_timezone e\<rparr>;
              (r, d1) = run_stmt v k (\<lambda>now _. upsert_cron now entry next_run) d
          in register_schedules lib v t (Suc k) es d1)"

fun fire_each ::
  "('tz, 'cron) cron_crate \<Rightarrow> env \<Rightarrow> int \<Rightarrow> nat \<Rightarrow> due_cron list \<Rightarrow> db \<Rightarrow> i64 list \<times> db"
where
  "fire_each lib v t k [] d = ([], d)"
| "fire_each lib v t k (e # es) d =
     (case next_run_of lib (dc_expression e) (dc_timezone e) t of
        Inl err \<Rightarrow> fire_each lib v t k es d
      | Inr next_run \<Rightarrow>
          let (r, d1) = run_stmt v k (\<lambda>now _. fire_cron (dc_name e) next_run now) d;
              (fired, d2) = fire_each lib v t (Suc k) es d1
          in (case r of Inr (Some i) \<Rightarrow> i # fired | _ \<Rightarrow> fired, d2))"

definition fire_due_schedules ::
  "('tz, 'cron) cron_crate \<Rightarrow> env \<Rightarrow> int \<Rightarrow> int \<Rightarrow> db \<Rightarrow> i64 list \<times> db"
where
  "fire_due_schedules lib v t limit d =
     (case run_stmt v 0 (\<lambda>now _. due_crons limit now) d of
        (Inl e, d1) \<Rightarrow> ([], d1)
      | (Inr due, d1) \<Rightarrow> fire_each lib v t 1 due d1)"

section \<open>Properties\<close>

lemma db_inv_crons:
  assumes "db_inv d" "distinct (map c_name cs)"
  shows "db_inv (d\<lparr>crons := cs\<rparr>)"
  using assms by (simp add: db_inv_def db_wf_def flow_ok_def open_parents_def completed_ids_def job_ids_def)

lemma cron_rows_keep_names [simp]:
  "c_name (upsert_row now e next_run c) = c_name c" "c_name (fire_row name next_run now c) = c_name c"
  by (simp_all add: upsert_row_def fire_row_def)

lemma upsert_cron_inv:
  assumes "db_inv d"
  shows "db_inv (snd (upsert_cron now e next_run d))"
proof -
  have dist: "distinct (map c_name (crons d))" using assms by (simp add: db_inv_def db_wf_def)
  have "map c_name (map (\<lambda>c. if c_name c = ce_name e then upsert_row now e next_run c else c) (crons d)) = map c_name (crons d)"
    by simp
  then show ?thesis
    using assms dist
    by (auto simp: upsert_cron_def bind_text_def list_ex_iff simp del: map_map intro!: db_inv_crons [OF assms])
      blast
qed

lemma fire_cron_cases:
  obtains (refused) e d0 where "fire_cron name next_run now d = (Inl e, d0)" "jobs d0 = jobs d"
      "d0 = d\<lparr>job_seq := job_seq d0\<rparr>"
  | (idle) "fire_cron name next_run now d = (Inr None, d)" "\<not> (\<exists>c \<in> set (crons d). c_name c = name \<and> is_due now c)"
  | (won) c i d' where "c \<in> set (crons d)" "c_name c = name" "is_due now c"
      "insert_job now (default_row now (c_queue c) (c_task c) (c_payload c)) d = (Inr i, d')"
      "fire_cron name next_run now d = (Inr (Some i),
         d'\<lparr>crons := map (fire_row name next_run now) (crons d)\<rparr>)"
proof (cases "text_ok name")
  case False
  then show thesis using refused by (simp add: fire_cron_def bind_text_def)
next
  case ok: True
  show thesis
  proof (cases "find (\<lambda>c. c_name c = name \<and> is_due now c) (crons d)")
    case None
    then have "\<not> (\<exists>c \<in> set (crons d). c_name c = name \<and> is_due now c)" by (auto simp: find_None_iff)
    with None show thesis using ok idle by (simp add: fire_cron_def bind_text_def)
  next
    case (Some c)
    then have c: "c \<in> set (crons d)" "c_name c = name" "is_due now c" by (auto simp: find_Some_iff)
    let ?r = "default_row now (c_queue c) (c_task c) (c_payload c)"
    show thesis
    proof (cases rule: insert_job_cases [of now ?r d])
      case exhausted_ids
      then show thesis using ok Some refused by (simp add: fire_cron_def bind_text_def)
    next
      case (refused e)
      then show thesis using ok Some that(1) by (simp add: fire_cron_def bind_text_def)
    next
      case inserted
      then show thesis using ok Some won [OF c inserted(4)] by (simp add: fire_cron_def bind_text_def)
    qed
  qed
qed

lemma fire_cron_inv:
  assumes "db_inv d"
  shows "db_inv (snd (fire_cron name next_run now d))"
proof (cases rule: fire_cron_cases [of name next_run now d])
  case (refused e d0)
  have "d0 = d \<or> d0 = d\<lparr>job_seq := job_seq d + 1\<rparr>"
    using refused(1) by (auto simp: fire_cron_def bind_text_def insert_job_def Let_def split: if_splits option.splits)
  then show ?thesis
    using refused(1) assms db_wf_more_seq [of d]
    by (auto simp: db_inv_def flow_ok_def open_parents_def completed_ids_def)
next
  case idle
  then show ?thesis using assms by simp
next
  case (won c i d')
  have "db_inv (snd (insert_job now (default_row now (c_queue c) (c_task c) (c_payload c)) d))"
    by (rule insert_job_inv [OF assms]) (simp_all, simp add: default_row_def)
  then have "db_inv d'" using won(4) by simp
  moreover have "distinct (map c_name (crons d))" using assms by (simp add: db_inv_def db_wf_def)
  ultimately show ?thesis by (simp add: won(5) db_inv_crons o_def)
qed

text \<open>
  An occurrence fires once. After a call has won a schedule and moved it to its next run,
  every further attempt before that run, from whatever worker and with whatever next run of its
  own, finds nothing to fire and changes nothing; and the win itself added exactly one job.
\<close>

theorem occurrence_fires_once:
  assumes "db_inv d" "fire_cron name next_run now d = (Inr (Some i), d1)" "now' < next_run"
  shows "fire_cron name next_run' now' d1 = (Inr None, d1) \<and> length (jobs d1) = length (jobs d) + 1
    \<and> i \<in> waiting_ids d1 \<and> i \<notin> job_ids d"
proof (cases rule: fire_cron_cases [of name next_run now d])
  case (won c j d')
  have wf: "db_wf d" using assms(1) by (simp add: db_inv_def)
  have i: "i = j" and d1: "d1 = d'\<lparr>crons := map (fire_row name next_run now) (crons d)\<rparr>"
    using won(5) assms(2) by simp_all
  have dist: "distinct (map c_name (crons d))" using wf by (simp add: db_wf_def)
  have "\<not> is_due now' x" if x: "x \<in> set (crons d1)" "c_name x = name" for x
  proof -
    obtain y where y: "y \<in> set (crons d)" "x = fire_row name next_run now y"
      using x(1) by (auto simp: d1)
    then have "c_name y = name" using x(2) by simp
    then have "y = c" using won(1,2) y(1) dist by (auto simp: distinct_map dest: inj_onD)
    then show ?thesis using y(2) won(2,3) assms(3) by (simp add: is_due_def fire_row_def)
  qed
  then have "find (\<lambda>c. c_name c = name \<and> is_due now' c) (crons d1) = None" by (auto simp: find_None_iff)
  moreover have "text_ok name" using assms(2) by (auto simp: fire_cron_def bind_text_def split: if_splits)
  ultimately have "fire_cron name next_run' now' d1 = (Inr None, d1)"
    by (simp add: fire_cron_def bind_text_def)
  moreover have "length (jobs d1) = length (jobs d) + 1 \<and> i \<in> waiting_ids d1 \<and> i \<notin> job_ids d"
    using won(4) new_id(2) [OF wf]
    by (cases rule: insert_job_cases [of now "default_row now (c_queue c) (c_task c) (c_payload c)" d])
      (auto simp: d1 i waiting_ids_def default_row_def)
  ultimately show ?thesis by blast
qed (use assms(2) in auto)

text \<open>One hourly schedule, due at the second hour.\<close>

definition cron_sample :: cron_row where
  "cron_sample =
     \<lparr>c_name = ''tick'', c_queue = ''default'', c_task = ''tick'', c_payload = [], c_expression = ''0 * * * *'',
      c_timezone = ''UTC'', c_paused = False, c_next_run_at = 7200000000, c_last_run_at = None, c_updated_at = 0\<rparr>"

definition cron_db :: db where
  "cron_db = (db_with [])\<lparr>crons := [cron_sample]\<rparr>"

lemma cron_db_inv [simp]: "db_inv cron_db"
  by (simp add: db_inv_def cron_db_def sample_wf_simps flow_ok_def)

lemma cron_sample_next:
  "next_run_of hourly_crate (c_expression cron_sample) (c_timezone cron_sample) t = Inr ((t div 3600000000 + 1) * 3600000000)"
  by (simp add: next_run_of_def parse_def next_after_def cron_sample_def hourly_normalised hourly_crate_def)

theorem occurrence_fires_once_witness:
  "fst (fire_cron ''tick'' 10800000000 7200000001 cron_db) = Inr (Some 100)
   \<and> fst (fire_cron ''tick'' 10800000000 7200000002 (snd (fire_cron ''tick'' 10800000000 7200000001 cron_db))) = Inr None"
proof -
  let ?f = "fire_cron ''tick'' 10800000000 7200000001 cron_db"
  have f: "fst ?f = Inr (Some 100)" by code_simp
  then have "?f = (Inr (Some 100), snd ?f)" by (metis prod.collapse)
  from occurrence_fires_once [OF cron_db_inv this, of 7200000002 10800000000] f show ?thesis by simp
qed

text \<open>
  Registering a schedule again never moves its clock. An entry already in the table keeps its
  next run unless its expression or zone changed, and keeps its pause and its last run always,
  so a restart neither skips nor repeats an occurrence and no deploy undoes an operator.
\<close>

theorem upsert_keeps_the_clock:
  assumes "c \<in> set (crons d)" "c_name c = ce_name e" "upsert_cron now e next_run d = (Inr (), d')"
  shows "\<exists>c' \<in> set (crons d'). c_name c' = c_name c \<and> c_paused c' = c_paused c \<and> c_last_run_at c' = c_last_run_at c
    \<and> c_expression c' = ce_expression e \<and> c_timezone c' = ce_timezone e
    \<and> c_next_run_at c' = (if c_expression c = ce_expression e \<and> c_timezone c = ce_timezone e
                         then c_next_run_at c else next_run)"
proof -
  have "list_ex (\<lambda>c. c_name c = ce_name e) (crons d)" using assms(1,2) by (auto simp: list_ex_iff)
  then have "d' = d\<lparr>crons := map (\<lambda>c. if c_name c = ce_name e then upsert_row now e next_run c else c) (crons d)\<rparr>"
    using assms(3) by (auto simp: upsert_cron_def bind_text_def split: if_splits)
  then have "upsert_row now e next_run c \<in> set (crons d')" using assms(1,2) by force
  then show ?thesis by (rule rev_bexI) (simp add: upsert_row_def)
qed


theorem upsert_keeps_the_clock_witness:
  "\<exists>c' \<in> set (crons (snd (upsert_cron 7200000001
       \<lparr>ce_name = ''tick'', ce_queue = ''slow'', ce_task = ''tick'', ce_payload = [], ce_expression = ''0 * * * *'', ce_timezone = ''UTC''\<rparr>
       10800000000 cron_db))). c_next_run_at c' = 7200000000"
proof -
  let ?e = "\<lparr>ce_name = ''tick'', ce_queue = ''slow'', ce_task = ''tick'', ce_payload = [], ce_expression = ''0 * * * *'', ce_timezone = ''UTC''\<rparr>"
  let ?f = "upsert_cron 7200000001 ?e 10800000000 cron_db"
  have f: "fst ?f = Inr ()" by code_simp
  then have run: "?f = (Inr (), snd ?f)" by (metis prod.collapse)
  have facts: "cron_sample \<in> set (crons cron_db)" "c_name cron_sample = ce_name ?e"
    "c_expression cron_sample = ce_expression ?e \<and> c_timezone cron_sample = ce_timezone ?e"
    "c_next_run_at cron_sample = 7200000000"
    by code_simp+
  from upsert_keeps_the_clock [OF facts(1,2) run] show ?thesis unfolding if_P [OF facts(3)] facts(4) by blast
qed

lemma fire_cron_due:
  assumes "db_inv d" "c \<in> set (crons d)" "c_name c = name" "is_due now c" "text_ok name" "job_seq d < 2 ^ 63"
  obtains i d' where "fire_cron name u now d = (Inr (Some i), d')" "db_inv d'" "job_seq d' = job_seq d + 1"
    "length (jobs d') = length (jobs d) + 1" "crons d' = map (fire_row name u now) (crons d)"
    "i \<in> job_ids d'" "i \<notin> job_ids d"
proof (cases rule: fire_cron_cases [of name u now d])
  case (refused e d0)
  have "row_ok (default_row now q x p)" for q x p using default_row_wf [of now q x p] by (simp add: row_wf_def)
  then have False
    using refused(1) assms(5,6) insert_job_plain [OF assms(6)]
    by (auto simp: fire_cron_def bind_text_def default_row_def split: option.splits)
  then show thesis ..
next
  case idle
  then show thesis using assms(2-4) by blast
next
  case (won c' i d')
  have "word_of_int (job_seq d) \<notin> job_ids d" using assms(1,6) by (simp add: new_id(2) db_inv_def)
  then have "job_seq d' = job_seq d + 1" "length (jobs d') = length (jobs d) + 1" "i \<in> job_ids d'" "i \<notin> job_ids d"
    using won(4) by (cases rule: insert_job_cases [of now "default_row now (c_queue c') (c_task c') (c_payload c')" d];
        auto simp: job_ids_def)+
  then show thesis
    using that [OF won(5)] fire_cron_inv [OF assms(1), of name u now] won(5) by (simp add: job_ids_def)
qed

lemma fire_each_quiet:
  assumes "db_inv d" "job_seq d + int (length es) \<le> 2 ^ 63" "distinct (map dc_name es)"
    and "\<And>e. e \<in> set es \<Longrightarrow> text_ok (dc_name e) \<and> (\<exists>c \<in> set (crons d). c_name c = dc_name e \<and> is_due now c)"
    and "\<And>e. e \<in> set es \<Longrightarrow> \<exists>u. next_run_of lib (dc_expression e) (dc_timezone e) t = Inr u \<and> now < u"
    and "fire_each lib (quiet now) t k es d = (fired, d')"
  shows "length fired = length es \<and> length (jobs d') = length (jobs d) + length es
    \<and> (\<forall>c \<in> set (crons d'). is_due now c \<longrightarrow> c \<in> set (crons d) \<and> c_name c \<notin> dc_name ` set es)"
  using assms
proof (induction es arbitrary: d k fired)
  case (Cons e es)
  obtain u where u: "next_run_of lib (dc_expression e) (dc_timezone e) t = Inr u" "now < u"
    using Cons.prems(5) by auto
  obtain c where c: "c \<in> set (crons d)" "c_name c = dc_name e" "is_due now c" "text_ok (dc_name e)"
    using Cons.prems(4) by auto
  have seq: "job_seq d < 2 ^ 63" using Cons.prems(2) by simp
  obtain i d1 where d1: "fire_cron (dc_name e) u now d = (Inr (Some i), d1)" "db_inv d1"
      "job_seq d1 = job_seq d + 1" "length (jobs d1) = length (jobs d) + 1"
      "crons d1 = map (fire_row (dc_name e) u now) (crons d)"
    by (rule fire_cron_due [OF Cons.prems(1) c(1-4) seq])
  obtain rest where rest: "fire_each lib (quiet now) t (Suc k) es d1 = (rest, d')" "fired = i # rest"
    using Cons.prems(6) u(1) d1(1) by (auto split: prod.splits)
  have still: "\<exists>c \<in> set (crons d1). c_name c = dc_name x \<and> is_due now c" if "x \<in> set es" for x
  proof -
    obtain y where "y \<in> set (crons d)" "c_name y = dc_name x" "is_due now y" using Cons.prems(4) \<open>x \<in> set es\<close> by auto
    moreover have "dc_name x \<noteq> dc_name e"
      using Cons.prems(3) imageI [OF \<open>x \<in> set es\<close>, of dc_name] by auto
    ultimately show ?thesis by (auto simp: d1(5) fire_row_def intro!: bexI [of _ y])
  qed
  have "length rest = length es \<and> length (jobs d') = length (jobs d1) + length es
    \<and> (\<forall>c \<in> set (crons d'). is_due now c \<longrightarrow> c \<in> set (crons d1) \<and> c_name c \<notin> dc_name ` set es)"
    by (rule Cons.IH [OF d1(2) _ _ _ _ rest(1)]) (use Cons.prems still d1(3) in auto)
  moreover have "x \<in> set (crons d) \<and> c_name x \<noteq> dc_name e" if x: "x \<in> set (crons d1)" "is_due now x" for x
    using x u(2) by (auto simp: d1(5) fire_row_def is_due_def split: if_splits)
  ultimately show ?case using rest(2) d1(4) by auto
qed simp

text \<open>
  C28: A pass of a worker whose clock is not behind the database fires every due schedule exactly
  once. With a cron crate whose occurrences are strictly later, one undisturbed pass enqueues
  one job for each due schedule, and afterwards no schedule is due.
\<close>

theorem due_schedules_fire_exactly_once:
  assumes "db_inv d" "strictly_later lib" "now \<le> t"
    and "int (length (filter (is_due now) (crons d))) \<le> limit"
    and "job_seq d + int (length (filter (is_due now) (crons d))) \<le> 2 ^ 63"
    and "\<forall>c \<in> set (crons d). is_due now c \<longrightarrow> text_ok (c_name c)
          \<and> (\<exists>u. next_run_of lib (c_expression c) (c_timezone c) t = Inr u)"
    and "fire_due_schedules lib (quiet now) t limit d = (fired, d')"
  shows "length fired = length (filter (is_due now) (crons d))
    \<and> length (jobs d') = length (jobs d) + length fired \<and> \<not> list_ex (is_due now) (crons d')"
proof -
  let ?rows = "sort_key c_next_run_at (filter (is_due now) (crons d))"
  let ?due = "map (\<lambda>c. \<lparr>dc_name = c_name c, dc_expression = c_expression c, dc_timezone = c_timezone c\<rparr>) ?rows"
  have "take (nat limit) ?rows = ?rows" using assms(4) by simp
  then have run: "fire_each lib (quiet now) t 1 ?due d = (fired, d')"
    using assms(4,7) by (simp add: fire_due_schedules_def due_crons_def)
  have "distinct (map c_name (crons d))" using assms(1) by (simp add: db_inv_def db_wf_def)
  then have "distinct (map c_name ?rows)" by (simp add: distinct_map_sort_key distinct_map_filter)
  then have dist: "distinct (map dc_name ?due)" by (simp add: o_def)
  have next_run: "\<exists>u. next_run_of lib (c_expression c) (c_timezone c) t = Inr u \<and> now < u"
    if "c \<in> set (crons d)" "is_due now c" for c
    using assms(2,3,6) that
    by (fastforce simp: next_run_of_def next_after_def strictly_later_def split: sum.splits option.splits)
  have "length fired = length ?due \<and> length (jobs d') = length (jobs d) + length ?due
    \<and> (\<forall>c \<in> set (crons d'). is_due now c \<longrightarrow> c \<in> set (crons d) \<and> c_name c \<notin> dc_name ` set ?due)"
    by (rule fire_each_quiet [OF assms(1) _ dist _ _ run]) (use assms(5,6) next_run in auto)
  then show ?thesis by (auto simp: list_ex_iff image_image)
qed

theorem due_schedules_fire_exactly_once_witness:
  "length (fst (fire_due_schedules hourly_crate (quiet 7200000001) 7200000005 10 cron_db)) = 1
   \<and> \<not> list_ex (is_due 7200000001) (crons (snd (fire_due_schedules hourly_crate (quiet 7200000001) 7200000005 10 cron_db)))"
proof -
  have facts: "int (length (filter (is_due 7200000001) (crons cron_db))) \<le> 10"
    "job_seq cron_db + int (length (filter (is_due 7200000001) (crons cron_db))) \<le> 2 ^ 63"
    "length (filter (is_due 7200000001) (crons cron_db)) = 1" "crons cron_db = [cron_sample]" "text_ok (c_name cron_sample)"
    by (simp_all add: cron_db_def db_with_def is_due_def cron_sample_def text_ok_def)
  have "\<forall>c \<in> set (crons cron_db). is_due 7200000001 c \<longrightarrow> text_ok (c_name c)
      \<and> (\<exists>u. next_run_of hourly_crate (c_expression c) (c_timezone c) 7200000005 = Inr u)"
    using facts(5) by (simp add: facts(4) cron_sample_next)
  from due_schedules_fire_exactly_once [OF cron_db_inv hourly_strictly_later _ facts(1,2) this surjective_pairing] show ?thesis
    by (simp add: facts(3))
qed

text \<open>
  A worker whose clock is behind the database fires one occurrence twice. If the next run it
  computes is the occurrence that is due now, the schedule stays due after the first pass has
  enqueued its job, and the next pass enqueues another.
\<close>

theorem lagging_clock_fires_twice:
  assumes "db_inv d" "crons d = [c]" "is_due now c" "text_ok (c_name c)" "job_seq d + 1 < 2 ^ 63" "1 \<le> limit"
    and "next_run_of lib (c_expression c) (c_timezone c) t = Inr u" "u \<le> now"
  shows "\<exists>i d1 j d2. fire_due_schedules lib (quiet now) t limit d = ([i], d1)
    \<and> fire_due_schedules lib (quiet now) t limit d1 = ([j], d2) \<and> i \<noteq> j"
proof -
  have pass: "fire_due_schedules lib (quiet now) t limit x = ([i], y)"
    if "crons x = [b]" "is_due now b" "c_name b = c_name c" "c_expression b = c_expression c" "c_timezone b = c_timezone c"
      "fire_cron (c_name c) u now x = (Inr (Some i), y)" for x y b i
    using that assms(6,7) by (simp add: fire_due_schedules_def due_crons_def)
  obtain i d1 where d1: "fire_cron (c_name c) u now d = (Inr (Some i), d1)" "db_inv d1"
      "job_seq d1 = job_seq d + 1" "crons d1 = map (fire_row (c_name c) u now) (crons d)" "i \<in> job_ids d1"
    by (rule fire_cron_due [OF assms(1) _ refl assms(3,4)]) (use assms(2,5) in auto)
  let ?b = "fire_row (c_name c) u now c"
  have b: "crons d1 = [?b]" "is_due now ?b" "c_name ?b = c_name c" "c_expression ?b = c_expression c" "c_timezone ?b = c_timezone c"
    using assms(2,3,8) by (simp_all add: d1(4) fire_row_def is_due_def)
  obtain j d2 where d2: "fire_cron (c_name c) u now d1 = (Inr (Some j), d2)" "j \<notin> job_ids d1"
    by (rule fire_cron_due [OF d1(2) _ b(3,2) assms(4)]) (use assms(5) b(1) d1(3) in auto)
  show ?thesis using pass [OF assms(2,3) refl refl refl d1(1)] pass [OF b d2(1)] d1(5) d2(2) by blast
qed

theorem lagging_clock_fires_twice_witness:
  "\<exists>i d1 j d2. fire_due_schedules hourly_crate (quiet 7200000001) 7199999999 10 cron_db = ([i], d1)
    \<and> fire_due_schedules hourly_crate (quiet 7200000001) 7199999999 10 d1 = ([j], d2) \<and> i \<noteq> j"
proof (rule lagging_clock_fires_twice [OF cron_db_inv])
  show "crons cron_db = [cron_sample]" "job_seq cron_db + 1 < 2 ^ 63" by (simp_all add: cron_db_def db_with_def)
  show "is_due 7200000001 cron_sample" "text_ok (c_name cron_sample)"
    by (simp_all add: is_due_def cron_sample_def text_ok_def)
  show "next_run_of hourly_crate (c_expression cron_sample) (c_timezone cron_sample) 7199999999 = Inr 7200000000"
    by (simp add: cron_sample_next)
qed simp_all


end
