(* ===== verification/Retention.thy ===== *)
theory Retention
  imports Samples
begin

text \<open>
  What an operator sees and does (\<open>crates/gylo-pg/src/lib.rs\<close>: \<open>depth\<close>, \<open>list_discarded\<close>,
  \<open>retry_discarded\<close>, \<open>purge_discarded\<close>, \<open>queues\<close>) and retention (\<open>prune_states\<close> and its two
  entry points, \<open>prune_workflows\<close>), with the command that prunes to the end
  (\<open>crates/gylo-cli/src/main.rs\<close>: \<open>prune_finished\<close>).
\<close>

section \<open>Looking\<close>

record depth =
  dp_ready :: nat
  dp_scheduled :: nat
  dp_blocked :: nat
  dp_running :: nat

definition depth_of :: "int \<Rightarrow> string \<Rightarrow> depth op" where
  "depth_of now q = bind_text [q] (\<lambda>d.
     (Inr \<lparr>dp_ready = count_where (\<lambda>r. queue r = q \<and> state r = Available \<and> scheduled_at r \<le> At now) d,
           dp_scheduled = count_where (\<lambda>r. queue r = q \<and> state r = Available
              \<and> At now < scheduled_at r \<and> scheduled_at r \<noteq> Infinity) d,
           dp_blocked = count_where (\<lambda>r. queue r = q \<and> state r = Available \<and> scheduled_at r = Infinity) d,
           dp_running = count_where (\<lambda>r. queue r = q \<and> state r = Running) d\<rparr>, d))"

record discarded =
  di_id :: i64
  di_queue :: string
  di_task :: string
  di_attempt :: i16
  di_finalized_at :: "int option"
  di_error :: "string option"

definition queue_matches :: "string option \<Rightarrow> job_row \<Rightarrow> bool" where
  "queue_matches q r \<longleftrightarrow> (case q of None \<Rightarrow> True | Some n \<Rightarrow> queue r = n)"

definition bind_queue :: "string option \<Rightarrow> 'a op \<Rightarrow> 'a op" where
  "bind_queue q = bind_text (case q of None \<Rightarrow> [] | Some n \<Rightarrow> [n])"

text \<open>\<open>ORDER BY finalized_at DESC NULLS LAST, id DESC\<close>.\<close>

definition newest_first :: "job_row \<Rightarrow> int \<times> int \<times> int" where
  "newest_first r =
     (case finalized_at r of None \<Rightarrow> (1, 0, - sint (row_id r)) | Some t \<Rightarrow> (0, - t, - sint (row_id r)))"

definition list_discarded :: "string option \<Rightarrow> int \<Rightarrow> discarded list op" where
  "list_discarded q limit = bind_queue q (\<lambda>d.
     if limit < 0 then (Inl (Database NegativeLimit), d)
     else (Inr (map (\<lambda>r.
             \<lparr>di_id = row_id r, di_queue = queue r, di_task = task r, di_attempt = attempt r,
              di_finalized_at = finalized_at r,
              di_error = (if errors r = [] then None else Some (ee_error (last (errors r))))\<rparr>)
           (take (nat limit) (sort_key newest_first
              (filter (\<lambda>r. state r = Discarded \<and> queue_matches q r) (jobs d))))), d))"

text \<open>\<open>SELECT DISTINCT queue \<dots> ORDER BY queue\<close>, under the collation of the database.\<close>

definition queues :: "(string \<Rightarrow> 'k::linorder) \<Rightarrow> string list op" where
  "queues coll d = (Inr (sort_key coll (remdups (map queue (filter live (jobs d))))), d)"

section \<open>Requeueing and purging\<close>

definition requeue_row :: "int \<Rightarrow> job_row \<Rightarrow> job_row" where
  "requeue_row now r =
     r\<lparr>state := Available, attempt := 0, scheduled_at := At now, locked_by := None,
       lease_expires_at := None, finalized_at := None\<rparr>"

definition to_requeue :: "i64 list option \<Rightarrow> string option \<Rightarrow> job_row \<Rightarrow> bool" where
  "to_requeue ids q r \<longleftrightarrow>
     state r = Discarded \<and> (case ids of None \<Rightarrow> True | Some is \<Rightarrow> row_id r \<in> set is) \<and> queue_matches q r"

text \<open>The unique index covers waiting jobs, so a requeued one may clash with a newer one.\<close>

definition retry_discarded :: "int \<Rightarrow> i64 list option \<Rightarrow> string option \<Rightarrow> i64 list op" where
  "retry_discarded now ids q = bind_queue q (\<lambda>d.
     let d' = update_where (to_requeue ids q) (requeue_row now) d in
     if \<not> unique_ok (jobs d') then (Inl (Database (UniqueViolation ''gylo_job_unique'')), d)
     else (Inr (map row_id (filter (to_requeue ids q) (jobs d))), d'))"

definition purge_discarded :: "string option \<Rightarrow> nat op" where
  "purge_discarded q = bind_queue q (\<lambda>d.
     (Inr (count_where (\<lambda>r. state r = Discarded \<and> queue_matches q r) d),
      delete_jobs (\<lambda>r. state r = Discarded \<and> queue_matches q r) d))"

section \<open>Retention\<close>

definition flow_settled :: "db \<Rightarrow> job_row \<Rightarrow> bool" where
  "flow_settled d r \<longleftrightarrow>
     (case workflow_id r of None \<Rightarrow> True
      | Some w \<Rightarrow> \<not> list_ex (\<lambda>u. workflow_id u = Some w \<and> live u) (jobs d))"

definition prunable :: "int \<Rightarrow> job_state list \<Rightarrow> duration \<Rightarrow> string option \<Rightarrow> db \<Rightarrow> job_row \<Rightarrow> bool" where
  "prunable now states older_than q d r \<longleftrightarrow>
     state r \<in> set states
   \<and> (case finalized_at r of None \<Rightarrow> False | Some t \<Rightarrow> t < now - int older_than)
   \<and> queue_matches q r \<and> flow_settled d r"

definition ended_at :: "job_row \<Rightarrow> int" where
  "ended_at r = (case finalized_at r of None \<Rightarrow> 0 | Some t \<Rightarrow> t)"

definition victims ::
  "int \<Rightarrow> i64 list \<Rightarrow> job_state list \<Rightarrow> duration \<Rightarrow> string option \<Rightarrow> int \<Rightarrow> db \<Rightarrow> job_row list"
where
  "victims now skip states older_than q limit d =
     take (nat limit) (sort_key ended_at
       (filter (\<lambda>r. prunable now states older_than q d r \<and> row_id r \<notin> set skip) (jobs d)))"

definition prune_states ::
  "job_state list \<Rightarrow> duration \<Rightarrow> string option \<Rightarrow> int \<Rightarrow> int \<Rightarrow> i64 list \<Rightarrow> nat op"
where
  "prune_states states older_than q limit now skip = bind_queue q (\<lambda>d.
     if limit < 0 then (Inl (Database NegativeLimit), d)
     else let vs = victims now skip states older_than q limit d in
       (Inr (length vs), delete_jobs (\<lambda>r. row_id r \<in> row_id ` set vs) d))"

definition prune_completed :: "duration \<Rightarrow> string option \<Rightarrow> int \<Rightarrow> int \<Rightarrow> i64 list \<Rightarrow> nat op" where
  "prune_completed older_than q limit = prune_states [Completed, Cancelled] older_than q limit"

definition prune_discarded :: "duration \<Rightarrow> string option \<Rightarrow> int \<Rightarrow> int \<Rightarrow> i64 list \<Rightarrow> nat op" where
  "prune_discarded older_than q limit = prune_states [Discarded] older_than q limit"

definition prune_workflows :: "nat op" where
  "prune_workflows d =
     (let gone = (\<lambda>w. \<not> list_ex (\<lambda>r. workflow_id r = Some w) (jobs d)) in
      (Inr (length (filter gone (workflow_ids d))),
       d\<lparr>workflow_ids := filter (\<lambda>w. \<not> gone w) (workflow_ids d),
         edges := filter (\<lambda>e. \<not> (gone (e_workflow e) \<and> e_workflow e \<in> set (workflow_ids d))) (edges d)\<rparr>))"

section \<open>Deleting keeps the invariant\<close>

lemma delete_jobs_simps [simp]:
  "jobs (delete_jobs p d) = filter (\<lambda>r. \<not> p r) (jobs d)"
  "job_seq (delete_jobs p d) = job_seq d" "crons (delete_jobs p d) = crons d"
  by (simp_all add: delete_jobs_def Let_def)

lemma kept_id:
  assumes "db_wf d" "i \<in> job_ids d" "\<not> list_ex (\<lambda>r. row_id r = i \<and> p r) (jobs d)"
  shows "i \<in> job_ids (delete_jobs p d)"
  using assms(2,3) by (auto simp: job_ids_def list_ex_iff)

lemma delete_jobs_inv:
  assumes "db_inv d"
  shows "db_inv (delete_jobs p d)"
proof -
  let ?d = "delete_jobs p d"
  have wf: "db_wf d" using assms by (simp add: db_inv_def)
  have dist: "distinct (map row_id (jobs d))" using wf by (simp add: db_wf_def)
  have "db_wf ?d"
    using wf kept_id [OF wf, of _ p]
    by (auto simp: db_wf_def delete_jobs_def Let_def unique_ok_iff distinct_map_filter job_ids_def)
  moreover have "open_parents (row_id r) ?d \<le> pending_deps r" if "r \<in> set (jobs ?d)" for r
  proof -
    have "i \<in> completed_ids ?d"
      if "i \<in> completed_ids d" "\<not> list_ex (\<lambda>r. row_id r = i \<and> p r) (jobs d)" for i
      using that by (auto simp: completed_ids_def list_ex_iff)
    then have "open_parents (row_id r) ?d \<le> open_parents (row_id r) d"
      by (auto simp: open_parents_def delete_jobs_def Let_def intro!: length_filter_mono)
    also have "\<dots> \<le> pending_deps r" using assms that by (auto simp: db_inv_def flow_ok_def)
    finally show ?thesis .
  qed
  ultimately show ?thesis by (simp add: db_inv_def flow_ok_def)
qed

lemma victims_from: "set (victims now skip states older_than q limit d) \<subseteq> {r \<in> set (jobs d). prunable now states older_than q d r}"
  using set_take_sort_key by (fastforce simp: victims_def)

lemma victims_distinct: "db_wf d \<Longrightarrow> distinct (map row_id (victims now skip states older_than q limit d))"
  by (simp add: victims_def db_wf_def distinct_map_take distinct_map_sort_key distinct_map_filter)

lemma prune_states_cases:
  obtains (refused) e where "prune_states states older_than q limit now skip d = (Inl (Database e), d)"
  | (pruned) "0 \<le> limit"
      "prune_states states older_than q limit now skip d =
        (Inr (length (victims now skip states older_than q limit d)),
         delete_jobs (\<lambda>r. row_id r \<in> row_id ` set (victims now skip states older_than q limit d)) d)"
proof (cases "list_all text_ok (case q of None \<Rightarrow> [] | Some n \<Rightarrow> [n]) \<and> 0 \<le> limit")
  case True
  then show thesis using pruned by (simp add: prune_states_def bind_queue_def bind_text_def Let_def)
next
  case False
  then have "\<exists>e. prune_states states older_than q limit now skip d = (Inl (Database e), d)"
    by (auto simp: prune_states_def bind_queue_def bind_text_def)
  then show thesis using refused by blast
qed

lemma prune_states_inv: "db_inv d \<Longrightarrow> db_inv (snd (prune_states states older_than q limit now skip d))"
  by (cases rule: prune_states_cases [of states older_than q limit now skip d]) (simp_all add: delete_jobs_inv)

lemma purge_discarded_inv: "db_inv d \<Longrightarrow> db_inv (snd (purge_discarded q d))"
  by (simp add: purge_discarded_def bind_queue_def bind_text_def delete_jobs_inv)

lemma prune_workflows_inv:
  assumes "db_inv d"
  shows "db_inv (snd (prune_workflows d))"
proof -
  let ?d = "snd (prune_workflows d)"
  have same: "jobs ?d = jobs d" "steps ?d = steps d" "crons ?d = crons d" "job_seq ?d = job_seq d"
    by (simp_all add: prune_workflows_def Let_def)
  have edges: "set (edges ?d) \<subseteq> set (edges d)" "distinct (map (\<lambda>e. (e_parent e, e_child e)) (edges ?d))"
    "length (filter P (edges ?d)) \<le> length (filter P (edges d))" for P
    using assms
    by (auto simp: prune_workflows_def Let_def db_inv_def db_wf_def distinct_map_filter intro: length_filter_mono)
  have "db_wf ?d"
    using assms edges(1,2) by (auto simp: db_inv_def db_wf_def same job_ids_def)
  moreover have "open_parents c ?d \<le> open_parents c d" for c
    using edges(3) by (simp add: open_parents_def completed_ids_def same)
  then have "flow_ok ?d" using assms by (auto simp: db_inv_def flow_ok_def same intro: order_trans)
  ultimately show ?thesis by (simp add: db_inv_def)
qed

lemma delete_victims_length:
  assumes "db_wf d" "distinct (map row_id vs)" "set vs \<subseteq> set (jobs d)"
  shows "length (jobs (delete_jobs (\<lambda>r. row_id r \<in> row_id ` set vs) d)) + length vs = length (jobs d)"
proof -
  have dist: "distinct (map row_id (jobs d))" using assms(1) by (simp add: db_wf_def)
  have "filter (\<lambda>r. row_id r \<in> row_id ` set vs) (jobs d) = filter (\<lambda>r. r \<in> set vs) (jobs d)"
    using job_row_eqI [OF dist] assms(3) by (auto intro!: filter_cong)
  moreover have "set (filter (\<lambda>r. r \<in> set vs) (jobs d)) = set vs" using assms(3) by auto
  moreover have "distinct (filter (\<lambda>r. r \<in> set vs) (jobs d))" "distinct vs"
    using dist assms(2) by (simp_all add: distinct_map)
  ultimately have "length (filter (\<lambda>r. row_id r \<in> row_id ` set vs) (jobs d)) = length vs"
    by (metis distinct_card)
  then show ?thesis
    using sum_length_filter_compl [of "\<lambda>r. row_id r \<in> row_id ` set vs" "jobs d"] by simp
qed

lemma prune_states_length:
  assumes "db_wf d" "prune_states states older_than q limit now skip d = (Inr n, d')"
  shows "length (jobs d') + n = length (jobs d)"
  using delete_victims_length [OF assms(1) victims_distinct [OF assms(1)]] victims_from assms(2)
  by (cases rule: prune_states_cases [of states older_than q limit now skip d]) fastforce+

text \<open>
  C33: Pruning removes history only. A row that a prune removed had ended in one of the given
  states before the window, on the given queue, and belonged to no workflow with a job still
  waiting or running; no more rows go than the limit, as many as the call reports, and no row
  that stayed though it could have gone is older than one that went.
\<close>

theorem prune_removes_history_only:
  assumes "db_inv d" "prune_states states older_than q limit now skip d = (Inr n, d')"
    and "r \<in> set (jobs d)" "r \<notin> set (jobs d')"
  shows "state r \<in> set states \<and> (\<exists>t. finalized_at r = Some t \<and> t < now - int older_than)
    \<and> queue_matches q r
    \<and> (\<forall>w u. workflow_id r = Some w \<longrightarrow> u \<in> set (jobs d) \<longrightarrow> workflow_id u = Some w \<longrightarrow> \<not> live u)
    \<and> int n \<le> limit \<and> length (jobs d') + n = length (jobs d)
    \<and> (\<forall>s \<in> set (jobs d'). prunable now states older_than q d s \<longrightarrow> row_id s \<notin> set skip \<longrightarrow> ended_at r \<le> ended_at s)"
proof (cases rule: prune_states_cases [of states older_than q limit now skip d])
  case pruned
  let ?vs = "victims now skip states older_than q limit d"
  have wf: "db_wf d" and dist: "distinct (map row_id (jobs d))" using assms(1) by (simp_all add: db_inv_def db_wf_def)
  have d': "d' = delete_jobs (\<lambda>r. row_id r \<in> row_id ` set ?vs) d" and n: "n = length ?vs" using pruned assms(2) by simp_all
  have "row_id r \<in> row_id ` set ?vs" using assms(3,4) by (auto simp: d')
  then have r: "r \<in> set ?vs" using victims_from job_row_eqI [OF dist assms(3)] by blast
  then have "prunable now states older_than q d r" using victims_from by blast
  moreover have "int n \<le> limit" using pruned(1) by (simp add: n victims_def)
  moreover have "ended_at r \<le> ended_at s"
    if "s \<in> set (jobs d')" "prunable now states older_than q d s" "row_id s \<notin> set skip" for s
  proof -
    let ?cs = "filter (\<lambda>r. prunable now states older_than q d r \<and> row_id r \<notin> set skip) (jobs d)"
    have "s \<in> set ?cs" "s \<notin> set ?vs" using that by (auto simp: d')
    then show ?thesis using take_sort_key_least [of s ?cs "nat limit" ended_at r] r by (simp add: victims_def)
  qed
  ultimately show ?thesis
    using prune_states_length [OF wf assms(2)]
    by (auto simp: prunable_def flow_settled_def list_ex_iff split: option.splits)
qed (use assms(2) in simp)

theorem prune_removes_history_only_witness:
  "\<exists>d'. prune_states [Completed] 10 None 1 100 [] history_db = (Inr 1, d') \<and> ended_row 2 Completed 5 \<notin> set (jobs d')
     \<and> (\<exists>t. finalized_at (ended_row 2 Completed 5) = Some t \<and> t < 100 - int 10)
     \<and> length (jobs d') + 1 = length (jobs history_db)"
proof -
  let ?f = "prune_states [Completed] 10 None 1 100 [] history_db"
  have "map_sum id id (fst ?f) = Inr 1" by code_simp
  then obtain n where f: "?f = (Inr n, snd ?f)" "id n = 1" by (rule ok_pair)
  have "ended_row 2 Completed 5 \<in> set (jobs history_db)" "ended_row 2 Completed 5 \<notin> set (jobs (snd ?f))" by code_simp+
  from this(2) f prune_removes_history_only [OF history_db_inv f(1) this] show ?thesis
    by (intro exI [of _ "snd ?f"] conjI) simp_all
qed

section \<open>The command that prunes to the end\<close>

text \<open>
  Each loop of \<open>prune_finished\<close> asks for 5000 rows until a batch falls short. Batch \<open>k\<close> runs
  at \<open>clk k\<close> with the rows of \<open>locked k\<close> locked by others.
\<close>

function prune_loop ::
  "job_state list \<Rightarrow> duration \<Rightarrow> string option \<Rightarrow> (nat \<Rightarrow> int) \<Rightarrow> (nat \<Rightarrow> i64 list) \<Rightarrow> nat \<Rightarrow> nat \<Rightarrow> nat op"
where
  "prune_loop states older_than q clk locked k removed d =
     (case prune_states states older_than q 5000 (clk k) (locked k) d of
        (Inl e, d') \<Rightarrow> (Inl e, d')
      | (Inr batch, d') \<Rightarrow>
          if batch < 5000 then (Inr (removed + batch), d')
          else prune_loop states older_than q clk locked (Suc k) (removed + batch) d')"
  by pat_completeness auto

lemma prune_states_shrinks:
  assumes "prune_states states older_than q 5000 now skip d = (Inr batch, d')" "\<not> batch < 5000"
  shows "length (jobs d') < length (jobs d)"
proof (cases rule: prune_states_cases [of states older_than q 5000 now skip d])
  case pruned
  let ?vs = "victims now skip states older_than q 5000 d"
  have "?vs \<noteq> []" using pruned assms by auto
  then obtain v where "v \<in> set ?vs" by (meson hd_in_set)
  moreover then have "v \<in> set (jobs d)" using victims_from by blast
  ultimately show ?thesis
    using pruned assms(1) length_filter_less [of v "jobs d" "\<lambda>r. row_id r \<notin> row_id ` set ?vs"] by auto
qed (use assms(1) in simp)

termination prune_loop
  by (relation "measure (\<lambda>(states, older_than, q, clk, locked, k, removed, d). length (jobs d))")
    (use prune_states_shrinks in \<open>auto simp: eq_commute\<close>)

declare prune_loop.simps [simp del]

definition prune_finished ::
  "duration \<Rightarrow> string option \<Rightarrow> bool \<Rightarrow> (nat \<Rightarrow> int) \<Rightarrow> (nat \<Rightarrow> i64 list) \<Rightarrow> nat op"
where
  "prune_finished older_than q discarded clk locked d =
     (case prune_loop [Completed, Cancelled] older_than q clk locked 0 0 d of
        (Inl e, d1) \<Rightarrow> (Inl e, d1)
      | (Inr removed, d1) \<Rightarrow>
          (case (if discarded then prune_loop [Discarded] older_than q clk locked 0 removed d1 else (Inr removed, d1)) of
             (Inl e, d2) \<Rightarrow> (Inl e, d2)
           | (Inr n, d2) \<Rightarrow>
               (case prune_workflows d2 of
                  (Inl e, d3) \<Rightarrow> (Inl e, d3)
                | (Inr _, d3) \<Rightarrow> (Inr n, d3))))"

text \<open>Removing ended rows changes nothing about whether another row may go.\<close>

lemma prunable_delete:
  assumes "\<And>r. r \<in> set (jobs d) \<Longrightarrow> p r \<Longrightarrow> \<not> live r"
  shows "prunable now states older_than q (delete_jobs p d) r = prunable now states older_than q d r"
  using assms by (auto simp: prunable_def flow_settled_def list_ex_iff split: option.splits)

lemma prunable_not_live: "db_wf d \<Longrightarrow> r \<in> set (jobs d) \<Longrightarrow> prunable now states older_than q d r \<Longrightarrow> \<not> live r"
  by (auto simp: prunable_def db_wf_def row_wf_def split: option.splits)

lemma victim_not_live:
  assumes "db_wf d" "r \<in> set (jobs d)" "row_id r \<in> row_id ` set (victims now skip states older_than q limit d)"
  shows "\<not> live r"
proof -
  obtain v where v: "v \<in> set (victims now skip states older_than q limit d)" "row_id r = row_id v" using assms(3) by blast
  then have "v \<in> set (jobs d)" "prunable now states older_than q d v" using victims_from by blast+
  moreover have "distinct (map row_id (jobs d))" using assms(1) by (simp add: db_wf_def)
  ultimately have "r = v" using job_row_eqI assms(2) v(2) by blast
  then show ?thesis using prunable_not_live [OF assms(1,2)] \<open>prunable now states older_than q d v\<close> by blast
qed

lemma prune_states_prunable:
  assumes "db_wf d" "prune_states states older_than q limit now skip d = (Inr n, d')"
  shows "prunable now' states' older_than' q' d' r = prunable now' states' older_than' q' d r"
proof (cases rule: prune_states_cases [of states older_than q limit now skip d])
  case pruned
  let ?vs = "victims now skip states older_than q limit d"
  have d': "d' = delete_jobs (\<lambda>r. row_id r \<in> row_id ` set ?vs) d" using pruned assms(2) by simp
  show ?thesis unfolding d' by (rule prunable_delete) (rule victim_not_live [OF assms(1)])
qed (use assms(2) in simp)

lemma short_batch_is_last:
  assumes "db_wf d" "prune_states states older_than q limit now [] d = (Inr n, d')" "int n < limit" "r \<in> set (jobs d')"
  shows "\<not> prunable now states older_than q d' r"
proof (cases rule: prune_states_cases [of states older_than q limit now "[]" d])
  case pruned
  let ?vs = "victims now [] states older_than q limit d"
  have d': "d' = delete_jobs (\<lambda>r. row_id r \<in> row_id ` set ?vs) d" and n: "n = length ?vs" using pruned assms(2) by simp_all
  have "length ?vs < nat limit" using assms(3) n by simp
  then have "set ?vs = set (filter (\<lambda>r. prunable now states older_than q d r \<and> row_id r \<notin> set []) (jobs d))"
    unfolding victims_def by (rule take_sort_key_all)
  then have "\<not> prunable now states older_than q d r" using assms(4) by (auto simp: d')
  then show ?thesis by (simp add: prune_states_prunable [OF assms(1,2)])
qed (use assms(2) in simp)

lemma prune_loop_spec:
  assumes "db_inv d" "prune_loop states older_than q clk locked k removed d = (Inr n, d')" "\<And>k. locked k = []"
  shows "db_inv d' \<and> length (jobs d') + n = length (jobs d) + removed \<and> set (jobs d') \<subseteq> set (jobs d)
    \<and> (\<exists>j \<ge> k. \<forall>r \<in> set (jobs d'). \<not> prunable (clk j) states older_than q d' r)
    \<and> (\<forall>now' states' r. prunable now' states' older_than q d' r = prunable now' states' older_than q d r)"
  using assms
proof (induction states older_than q clk locked k removed d rule: prune_loop.induct)
  case (1 states older_than q clk locked k removed d)
  obtain batch d1 where b: "prune_states states older_than q 5000 (clk k) (locked k) d = (Inr batch, d1)"
    using "1.prems"(2) by (subst (asm) prune_loop.simps) (auto split: prod.splits sum.splits)
  have inv: "db_inv d1" using prune_states_inv [OF "1.prems"(1), of states older_than q 5000 "clk k" "locked k"] b by simp
  have len: "length (jobs d1) + batch = length (jobs d)"
    using prune_states_length [OF _ b] "1.prems"(1) by (simp add: db_inv_def)
  have sub: "set (jobs d1) \<subseteq> set (jobs d)"
    using b by (cases rule: prune_states_cases [of states older_than q 5000 "clk k" "locked k" d]) auto
  have same: "prunable now' states' older_than q d1 r = prunable now' states' older_than q d r" for now' states' r
    using prune_states_prunable [OF _ b] "1.prems"(1) by (simp add: db_inv_def)
  show ?case
  proof (cases "batch < 5000")
    case True
    have res: "n = removed + batch" "d' = d1"
      using "1.prems"(2) b True by (subst (asm) prune_loop.simps, simp)+
    have "\<not> prunable (clk k) states older_than q d1 r" if "r \<in> set (jobs d1)" for r
      using short_batch_is_last [OF _ b [unfolded "1.prems"(3)] _ that] True "1.prems"(1) by (simp add: db_inv_def)
    then show ?thesis using inv len sub res same by auto
  next
    case False
    have "prune_loop states older_than q clk locked (Suc k) (removed + batch) d1 = (Inr n, d')"
      using "1.prems"(2) b False by (subst (asm) prune_loop.simps) simp
    from "1.IH" [OF b [symmetric] refl False inv this "1.prems"(3)] show ?thesis
      using len sub same by (auto intro: Suc_leD)
  qed
qed

lemma prune_loop_returns:
  assumes "list_all text_ok (case q of None \<Rightarrow> [] | Some n \<Rightarrow> [n])"
  shows "\<exists>n d'. prune_loop states older_than q clk locked k removed d = (Inr n, d')"
  using assms
proof (induction states older_than q clk locked k removed d rule: prune_loop.induct)
  case (1 states older_than q clk locked k removed d)
  obtain batch d1 where b: "prune_states states older_than q 5000 (clk k) (locked k) d = (Inr batch, d1)"
    using "1.prems" by (simp add: prune_states_def bind_queue_def bind_text_def Let_def)
  show ?case
    by (cases "batch < 5000") (use b "1.IH" [OF b [symmetric] refl _ "1.prems"] in \<open>auto simp: prune_loop.simps [of states]\<close>)
qed

text \<open>
  C34: Pruning from the command line runs to the end. With the dead letters included, it returns, whatever the
  size of the backlog, and with nothing locked and the clock standing still no finished job that could be pruned then is left, of either
  kind; the number it prints is the number of rows removed, and no row it kept was changed.
\<close>

theorem prune_finished_leaves_nothing:
  assumes "db_inv d" "list_all text_ok (case q of None \<Rightarrow> [] | Some n \<Rightarrow> [n])"
  shows "\<exists>n d'. prune_finished older_than q True (\<lambda>_. now) (\<lambda>_. []) d = (Inr n, d')
    \<and> length (jobs d') + n = length (jobs d) \<and> set (jobs d') \<subseteq> set (jobs d)
    \<and> (\<forall>r \<in> set (jobs d'). \<not> prunable now [Completed, Cancelled, Discarded] older_than q d' r)"
proof -
  obtain n1 d1 where l1: "prune_loop [Completed, Cancelled] older_than q (\<lambda>_. now) (\<lambda>_. []) 0 0 d = (Inr n1, d1)"
    using prune_loop_returns [OF assms(2)] by blast
  note s1 = prune_loop_spec [OF assms(1) l1 refl]
  obtain n2 d2 where l2: "prune_loop [Discarded] older_than q (\<lambda>_. now) (\<lambda>_. []) 0 n1 d1 = (Inr n2, d2)"
    using prune_loop_returns [OF assms(2)] by blast
  have "db_inv d1" using s1 by blast
  note s2 = prune_loop_spec [OF this l2 refl]
  let ?d3 = "snd (prune_workflows d2)"
  have "prune_finished older_than q True (\<lambda>_. now) (\<lambda>_. []) d = (Inr n2, ?d3)"
    by (simp add: prune_finished_def l1 l2) (simp add: prune_workflows_def Let_def)
  moreover have jobs: "jobs ?d3 = jobs d2" by (simp add: prune_workflows_def Let_def)
  moreover have "\<not> prunable now [Completed, Cancelled, Discarded] older_than q ?d3 r" if "r \<in> set (jobs d2)" for r
  proof -
    have "\<exists>j \<ge> (0 :: nat). \<forall>r \<in> set (jobs d1). \<not> prunable now [Completed, Cancelled] older_than q d1 r"
      using s1 by (elim conjE)
    moreover have "\<exists>j \<ge> (0 :: nat). \<forall>r \<in> set (jobs d2). \<not> prunable now [Discarded] older_than q d2 r"
      using s2 by (elim conjE)
    moreover have "set (jobs d2) \<subseteq> set (jobs d1)" using s2 by (elim conjE)
    moreover have "prunable now [Completed, Cancelled] older_than q d2 r = prunable now [Completed, Cancelled] older_than q d1 r"
      using s2 by (elim conjE) blast
    ultimately have "\<not> prunable now [Completed, Cancelled] older_than q d2 r" "\<not> prunable now [Discarded] older_than q d2 r"
      using that by auto
    then have "\<not> prunable now [Completed, Cancelled, Discarded] older_than q d2 r"
      unfolding prunable_def by auto
    then show ?thesis unfolding prunable_def flow_settled_def jobs .
  qed
  moreover have "length (jobs d2) + n2 = length (jobs d)" "set (jobs d2) \<subseteq> set (jobs d)" using s1 s2 by auto
  ultimately show ?thesis by (intro exI [of _ n2] exI [of _ ?d3] conjI ballI) simp_all
qed

theorem prune_finished_leaves_nothing_witness:
  "\<exists>n d'. prune_finished 10 None True (\<lambda>_. 100) (\<lambda>_. []) history_db = (Inr n, d')
    \<and> length (jobs d') + n = length (jobs history_db) \<and> set (jobs d') \<subseteq> set (jobs history_db)
    \<and> (\<forall>r \<in> set (jobs d'). \<not> prunable 100 [Completed, Cancelled, Discarded] 10 None d' r)"
  using prune_finished_leaves_nothing [OF history_db_inv, of None] by simp

section \<open>Requeueing\<close>

lemma requeue_row_step:
  assumes "row_wf r" "state r = Discarded"
  shows "row_step now r (requeue_row now r)"
  using assms(2) unfolding requeue_row_def by (rule row_step.requeue)

lemma retry_discarded_cases:
  obtains (refused) e where "retry_discarded now ids q d = (Inl (Database e), d)"
  | (requeued) "unique_ok (jobs (update_where (to_requeue ids q) (requeue_row now) d))"
      "retry_discarded now ids q d = (Inr (map row_id (filter (to_requeue ids q) (jobs d))),
         update_where (to_requeue ids q) (requeue_row now) d)"
proof (cases "list_all text_ok (case q of None \<Rightarrow> [] | Some n \<Rightarrow> [n])
    \<and> unique_ok (jobs (update_where (to_requeue ids q) (requeue_row now) d))")
  case True
  then show thesis using requeued by (simp add: retry_discarded_def bind_queue_def bind_text_def)
next
  case False
  then have "\<exists>e. retry_discarded now ids q d = (Inl (Database e), d)"
    by (auto simp: retry_discarded_def bind_queue_def bind_text_def Let_def)
  then show thesis using refused by blast
qed

lemma retry_discarded_lawful: "lawful now d (snd (retry_discarded now ids q d))"
proof (cases rule: retry_discarded_cases [of now ids q d])
  case requeued
  then show ?thesis
    by (auto simp: to_requeue_def requeue_row_def intro!: lawful_update_where row_step.requeue)
qed simp

lemma retry_discarded_inv:
  assumes "db_inv d"
  shows "db_inv (snd (retry_discarded now ids q d))"
proof (cases rule: retry_discarded_cases [of now ids q d])
  case (refused e)
  then show ?thesis using assms by simp
next
  case requeued
  let ?d = "snd (retry_discarded now ids q d)"
  have d: "?d = update_where (to_requeue ids q) (requeue_row now) d" using requeued by simp
  have "map pending_deps (jobs ?d) = map pending_deps (jobs d)" "edges ?d = edges d"
    by (simp_all add: d update_where_def requeue_row_def)
  then have "flow_ok ?d" using flow_ok_lawful [OF _ retry_discarded_lawful] assms by (simp add: db_inv_def)
  moreover have "db_wf ?d"
    by (rule db_wf_lawful [OF _ retry_discarded_lawful]) (use assms requeued(1) in \<open>simp_all add: db_inv_def d\<close>)
  ultimately show ?thesis by (simp add: db_inv_def)
qed

text \<open>
  A requeued job starts over. An accepted retry of dead letters makes exactly the selected
  ones, named in the answer, due now with all their attempts before them and their errors kept,
  and leaves every other row as it was.
\<close>

theorem requeued_jobs_start_over:
  assumes "retry_discarded now ids q d = (Inr requeued_ids, d')" "r \<in> set (jobs d)"
  shows "if state r = Discarded \<and> (\<forall>is. ids = Some is \<longrightarrow> row_id r \<in> set is) \<and> queue_matches q r
    then row_id r \<in> set requeued_ids
      \<and> (\<exists>r' \<in> set (jobs d'). row_id r' = row_id r \<and> runnable now [queue r] r' \<and> attempt r' = 0
          \<and> finalized_at r' = None \<and> errors r' = errors r)
    else r \<in> set (jobs d')"
proof (cases rule: retry_discarded_cases [of now ids q d])
  case requeued
  have d': "d' = update_where (to_requeue ids q) (requeue_row now) d"
    and ids: "requeued_ids = map row_id (filter (to_requeue ids q) (jobs d))"
    using requeued(2) assms(1) by simp_all
  have sel: "to_requeue ids q r \<longleftrightarrow> state r = Discarded \<and> (\<forall>is. ids = Some is \<longrightarrow> row_id r \<in> set is) \<and> queue_matches q r"
    by (auto simp: to_requeue_def split: option.splits)
  have "(if to_requeue ids q r then requeue_row now r else r) \<in> set (jobs d')"
    using assms(2) by (auto simp: d' update_where_def)
  moreover have "row_id (requeue_row now r) = row_id r" "runnable now [queue r] (requeue_row now r)" "attempt (requeue_row now r) = 0"
    "finalized_at (requeue_row now r) = None" "errors (requeue_row now r) = errors r"
    by (simp_all add: requeue_row_def runnable_def)
  ultimately show ?thesis unfolding sel [symmetric] using assms(2) by (auto simp: ids)
qed (use assms(1) in simp)

theorem requeued_jobs_start_over_witness:
  "\<exists>requeued d'. retry_discarded 100 None None history_db = (Inr requeued, d') \<and> requeued = [3]
     \<and> (\<exists>r' \<in> set (jobs d'). row_id r' = 3 \<and> runnable 100 [''default''] r' \<and> attempt r' = 0)"
proof -
  let ?f = "retry_discarded 100 None None history_db"
  have "map_sum id id (fst ?f) = Inr [3]" by code_simp
  then obtain got where f: "?f = (Inr got, snd ?f)" "id got = [3]" by (rule ok_pair)
  have facts: "ended_row 3 Discarded 3 \<in> set (jobs history_db)" "state (ended_row 3 Discarded 3) = Discarded"
    "queue_matches None (ended_row 3 Discarded 3)" "row_id (ended_row 3 Discarded 3) = 3" "queue (ended_row 3 Discarded 3) = ''default''"
    by code_simp+
  have "\<exists>r' \<in> set (jobs (snd ?f)). row_id r' = 3 \<and> runnable 100 [''default''] r' \<and> attempt r' = 0"
    using requeued_jobs_start_over [OF f(1) facts(1)] by (auto simp: facts(2-))
  with f show ?thesis by (intro exI conjI) simp_all
qed

text \<open>
  The depth of a queue counts each of its live jobs once: ready, scheduled and blocked
  together are its waiting jobs, and exactly the ready ones are those a fetch on that queue
  may take now.
\<close>

theorem depth_counts_each_job_once:
  assumes "depth_of now q d = (Inr p, d')"
  shows "dp_ready p + dp_scheduled p + dp_blocked p = count_where (\<lambda>r. queue r = q \<and> state r = Available) d
    \<and> dp_ready p = count_where (runnable now [q]) d
    \<and> dp_running p = count_where (\<lambda>r. queue r = q \<and> state r = Running) d \<and> d' = d"
proof -
  have "length (filter (\<lambda>r. queue r = q \<and> state r = Available \<and> scheduled_at r \<le> At now) rs)
      + length (filter (\<lambda>r. queue r = q \<and> state r = Available \<and> At now < scheduled_at r \<and> scheduled_at r \<noteq> Infinity) rs)
      + length (filter (\<lambda>r. queue r = q \<and> state r = Available \<and> scheduled_at r = Infinity) rs)
      = length (filter (\<lambda>r. queue r = q \<and> state r = Available) rs)" for rs
    by (induction rs) (auto simp: not_le)
  moreover have "runnable now [q] = (\<lambda>r. queue r = q \<and> state r = Available \<and> scheduled_at r \<le> At now)"
    by (auto simp: runnable_def)
  ultimately show ?thesis
    using assms by (auto simp: depth_of_def bind_text_def count_where_def split: if_splits)
qed

theorem depth_counts_each_job_once_witness:
  "\<exists>p. depth_of 20 ''default'' flow_db = (Inr p, flow_db) \<and> dp_blocked p = 2
     \<and> dp_ready p + dp_scheduled p + dp_blocked p = count_where (\<lambda>r. queue r = ''default'' \<and> state r = Available) flow_db"
proof -
  let ?f = "depth_of 20 ''default'' flow_db"
  have "map_sum id dp_blocked (fst ?f) = Inr 2" by code_simp
  then obtain p where p: "?f = (Inr p, snd ?f)" "dp_blocked p = 2" by (rule ok_pair)
  from depth_counts_each_job_once [OF p(1)] p show ?thesis by (intro exI [of _ p] conjI) simp_all
qed


end
