(* ===== verification/Workflow.thy ===== *)
theory Workflow
  imports Completion
begin

text \<open>
  Workflows as the Python client builds and inserts them (\<open>python/gylo/_workflow.py\<close>,
  \<open>python/gylo/_adapters.py\<close>). A graph that \<open>chain\<close>, \<open>group\<close> and \<open>chord\<close> build from acyclic
  graphs is acyclic; the count of dependencies inserted with a node is the number of edges
  into it; and the insert keeps the invariant that the completion of parents relies on.
\<close>

section \<open>Graphs\<close>

record signature =
  sg_queue :: string
  sg_task :: string
  sg_payload :: bytes
  sg_priority :: i16
  sg_max_attempts :: i16
  sg_delay :: duration
  sg_concurrency_key :: "string option"
  sg_max_concurrency :: "i32 option"
  sg_durable :: bool

record workflow =
  wf_nodes :: "signature list"
  wf_edges :: "(nat \<times> nat) set"

definition empty_flow :: workflow where
  "empty_flow = \<lparr>wf_nodes = [], wf_edges = {}\<rparr>"

definition absorb :: "workflow \<Rightarrow> workflow \<Rightarrow> nat list \<times> workflow" where
  "absorb flow other =
     (let offset = length (wf_nodes flow) in
      ([offset ..< offset + length (wf_nodes other)],
       \<lparr>wf_nodes = wf_nodes flow @ wf_nodes other,
        wf_edges = wf_edges flow \<union> (\<lambda>(p, c). (p + offset, c + offset)) ` wf_edges other\<rparr>))"

definition roots :: "workflow \<Rightarrow> nat list" where
  "roots w = filter (\<lambda>i. i \<notin> snd ` wf_edges w) [0 ..< length (wf_nodes w)]"

definition leaves :: "workflow \<Rightarrow> nat list" where
  "leaves w = filter (\<lambda>i. i \<notin> fst ` wf_edges w) [0 ..< length (wf_nodes w)]"

text \<open>\<open>counts[child] += 1\<close> raises when the index is past the end.\<close>

fun count_deps :: "(nat \<times> nat) list \<Rightarrow> nat list \<Rightarrow> nat list option" where
  "count_deps [] counts = Some counts"
| "count_deps ((p, c) # es) counts =
     (if c < length counts then count_deps es (counts[c := counts ! c + 1]) else None)"

definition dependencies :: "workflow \<Rightarrow> nat list option" where
  "dependencies w = count_deps (sorted_list_of_set (wf_edges w)) (replicate (length (wf_nodes w)) 0)"

datatype item = Sig signature | Flow workflow

fun as_workflow :: "item \<Rightarrow> workflow" where
  "as_workflow (Flow w) = w"
| "as_workflow (Sig s) = \<lparr>wf_nodes = [s], wf_edges = {}\<rparr>"

fun chain_from :: "workflow \<Rightarrow> nat list \<Rightarrow> item list \<Rightarrow> workflow" where
  "chain_from flow tails [] = flow"
| "chain_from flow tails (it # its) =
     (let sub = as_workflow it in
      if wf_nodes sub = [] then chain_from flow tails its
      else
        let offset = length (wf_nodes flow);
            heads = map (\<lambda>r. offset + r) (roots sub);
            next_tails = map (\<lambda>l. offset + l) (leaves sub);
            flow1 = snd (absorb flow sub)
        in chain_from (flow1\<lparr>wf_edges := wf_edges flow1 \<union> set tails \<times> set heads\<rparr>) next_tails its)"

definition chain :: "item list \<Rightarrow> workflow" where
  "chain its = chain_from empty_flow [] its"

definition group :: "item list \<Rightarrow> workflow" where
  "group branches = fold (\<lambda>b flow. snd (absorb flow (as_workflow b))) branches empty_flow"

text \<open>
  \<open>chord\<close> works on the body itself when that is a graph already. The second component is what
  the caller's body holds afterwards.
\<close>

definition chord :: "item \<Rightarrow> signature \<Rightarrow> workflow \<times> item" where
  "chord body callback =
     (let flow = as_workflow body;
          tails = leaves flow;
          (added, flow1) = absorb flow \<lparr>wf_nodes = [callback], wf_edges = {}\<rparr>;
          flow2 = flow1\<lparr>wf_edges := wf_edges flow1 \<union> set tails \<times> {added ! 0}\<rparr>
      in (flow2, case body of Flow _ \<Rightarrow> Flow flow2 | Sig s \<Rightarrow> Sig s))"

section \<open>The insert\<close>

text \<open>
  The placeholders of \<open>_node_statement\<close> in the order of the text: numbered ones for
  \<open>asyncpg\<close>, positional ones for \<open>psycopg\<close>. The pending count is written twice.
\<close>

datatype mark = Numbered nat | Positional

definition n_columns :: nat where
  "n_columns = 9"

definition delay_column :: nat where
  "delay_column = 5"

definition node_marks :: "bool \<Rightarrow> mark list" where
  "node_marks numbered =
     (let marks = if numbered then map Numbered [1 ..< n_columns + 3] else replicate (n_columns + 2) Positional;
          rest = take n_columns (drop 1 marks);
          pending = last marks
      in marks ! 0
         # concat (map (\<lambda>k. if k = delay_column then [pending, rest ! k] else [rest ! k]) [0 ..< n_columns])
         @ [pending])"

text \<open>
  Both drivers refuse a statement whose parameters do not match: \<open>asyncpg\<close> wants as many as
  the highest number, \<open>psycopg\<close> as many as there are placeholders.
\<close>

fun mark_number :: "mark \<Rightarrow> nat" where
  "mark_number (Numbered n) = n"
| "mark_number Positional = 0"

definition driver_accepts :: "bool \<Rightarrow> mark list \<Rightarrow> nat \<Rightarrow> bool" where
  "driver_accepts numbered marks n_params \<longleftrightarrow>
     n_params = (if numbered then fold max (map mark_number marks) 0 else length marks)"

datatype py_error = Driver | Pg pg_error | IndexError

definition node_row :: "int \<Rightarrow> i64 \<Rightarrow> signature \<Rightarrow> nat \<Rightarrow> job_row" where
  "node_row now w s pending =
     (default_row now (sg_queue s) (sg_task s) (sg_payload s))
       \<lparr>priority := sg_priority s, max_attempts := sg_max_attempts s,
        scheduled_at := (if 0 < pending then Infinity else At (now + int (sg_delay s))),
        concurrency_key := sg_concurrency_key s, max_concurrency := sg_max_concurrency s,
        durable := sg_durable s, workflow_id := Some w, pending_deps := int pending\<rparr>"

text \<open>Each node is sent with the workflow, the columns of \<open>_COLUMNS\<close> and the pending count.\<close>

fun insert_nodes ::
  "bool \<Rightarrow> int \<Rightarrow> i64 \<Rightarrow> (signature \<times> nat) list \<Rightarrow> db \<Rightarrow> (py_error, i64 list) result \<times> db"
where
  "insert_nodes numbered now w [] d = (Inr [], d)"
| "insert_nodes numbered now w ((s, pending) # ns) d =
     (if \<not> driver_accepts numbered (node_marks numbered) (1 + n_columns + 1) then (Inl Driver, d)
      else
        case bind_text ([sg_queue s, sg_task s] @ (case sg_concurrency_key s of None \<Rightarrow> [] | Some k \<Rightarrow> [k]))
               (insert_job now (node_row now w s pending)) d of
          (Inl e, d1) \<Rightarrow> (Inl (Pg e), d1)
        | (Inr i, d1) \<Rightarrow>
            (case insert_nodes numbered now w ns d1 of
               (Inl e, d2) \<Rightarrow> (Inl e, d2)
             | (Inr is, d2) \<Rightarrow> (Inr (i # is), d2)))"

definition edge_rows :: "i64 \<Rightarrow> i64 list \<Rightarrow> (nat \<times> nat) list \<Rightarrow> edge_row list" where
  "edge_rows w ids es = map (\<lambda>(p, c). \<lparr>e_workflow = w, e_parent = ids ! p, e_child = ids ! c\<rparr>) es"

text \<open>
  One transaction: an error leaves the tables as they were, but the sequences are not rolled
  back.
\<close>

definition rolled_back :: "db \<Rightarrow> db \<Rightarrow> db" where
  "rolled_back d d' = d\<lparr>job_seq := job_seq d', workflow_seq := workflow_seq d'\<rparr>"

definition insert_workflow ::
  "bool \<Rightarrow> int \<Rightarrow> (signature \<times> nat) list \<Rightarrow> (nat \<times> nat) list \<Rightarrow> db \<Rightarrow> (py_error, i64 list) result \<times> db"
where
  "insert_workflow numbered now ns es d =
     (if 2 ^ 63 \<le> workflow_seq d then (Inl (Pg (Database SequenceExhausted)), d)
      else
        let w = word_of_int (workflow_seq d);
            d0 = d\<lparr>workflow_seq := workflow_seq d + 1, workflow_ids := workflow_ids d @ [w]\<rparr>
        in case insert_nodes numbered now w ns d0 of
             (Inl e, d1) \<Rightarrow> (Inl e, rolled_back d d1)
           | (Inr ids, d1) \<Rightarrow>
               if list_ex (\<lambda>(p, c). length ids \<le> p \<or> length ids \<le> c) es then (Inl IndexError, rolled_back d d1)
               else if \<not> distinct (map (\<lambda>e. (e_parent e, e_child e)) (edges d1 @ edge_rows w ids es))
               then (Inl (Pg (Database (UniqueViolation ''gylo_edge_pkey''))), rolled_back d d1)
               else (Inr ids, d1\<lparr>edges := edges d1 @ edge_rows w ids es\<rparr>))"

definition enqueue_workflow :: "bool \<Rightarrow> int \<Rightarrow> workflow \<Rightarrow> db \<Rightarrow> (py_error, i64 list) result \<times> db" where
  "enqueue_workflow numbered now w d =
     (if wf_nodes w = [] then (Inr [], d)
      else case dependencies w of
             None \<Rightarrow> (Inl IndexError, d)
           | Some deps \<Rightarrow>
               insert_workflow numbered now (zip (wf_nodes w) deps) (sorted_list_of_set (wf_edges w)) d)"

section \<open>Graphs stay acyclic\<close>

definition flow_wf :: "workflow \<Rightarrow> bool" where
  "flow_wf w \<longleftrightarrow> wf_edges w \<subseteq> {..< length (wf_nodes w)} \<times> {..< length (wf_nodes w)} \<and> acyclic (wf_edges w)"

text \<open>Two acyclic graphs side by side, with edges from the first into the second only.\<close>

lemma trancl_blocks:
  fixes n :: nat
  assumes "A \<subseteq> {..<n} \<times> {..<n}" "B \<subseteq> {n..} \<times> {n..}" "C \<subseteq> {..<n} \<times> {n..}"
    and "(x, y) \<in> (A \<union> B \<union> C)\<^sup>+"
  shows "(y < n \<longrightarrow> x < n \<and> (x, y) \<in> A\<^sup>+) \<and> (n \<le> x \<longrightarrow> n \<le> y \<and> (x, y) \<in> B\<^sup>+)"
  using assms(4)
proof (induction rule: trancl_induct)
  case (base y)
  then consider "(x, y) \<in> A" "x < n" "y < n" | "(x, y) \<in> B" "n \<le> x" "n \<le> y" | "x < n" "n \<le> y"
    using assms(1-3) by auto
  then show ?case by cases auto
next
  case (step y z)
  then consider "(y, z) \<in> A" "y < n" "z < n" | "(y, z) \<in> B" "n \<le> y" "n \<le> z" | "y < n" "n \<le> z"
    using assms(1-3) by auto
  then show ?case using step.IH by cases (auto intro: trancl_into_trancl)
qed

lemma acyclic_blocks:
  fixes n :: nat
  assumes "A \<subseteq> {..<n} \<times> {..<n}" "B \<subseteq> {n..} \<times> {n..}" "C \<subseteq> {..<n} \<times> {n..}" "acyclic A" "acyclic B"
  shows "acyclic (A \<union> B \<union> C)"
  unfolding acyclic_def
proof (intro allI notI)
  fix x assume "(x, x) \<in> (A \<union> B \<union> C)\<^sup>+"
  from trancl_blocks [OF assms(1-3) this] show False
    using assms(4,5) by (cases "x < n") (auto simp: acyclic_def)
qed

lemma acyclic_shift:
  fixes n :: nat
  assumes "acyclic E"
  shows "acyclic ((\<lambda>(p, c). (p + n, c + n)) ` E)" (is "acyclic ?E")
proof -
  have "n \<le> x \<and> n \<le> y \<and> (x - n, y - n) \<in> E\<^sup>+" if "(x, y) \<in> ?E\<^sup>+" for x y :: nat
    using that
  proof (induction rule: trancl_induct)
    case (step y z)
    then obtain p c where "(p, c) \<in> E" "y = p + n" "z = c + n" by auto
    with step.IH show ?case by (auto intro: trancl_into_trancl)
  qed auto
  then show ?thesis using assms by (auto simp: acyclic_def)
qed

lemma flow_wf_join:
  assumes "flow_wf a" "flow_wf b" "set tails \<subseteq> {..< length (wf_nodes a)}" "set heads \<subseteq> {..< length (wf_nodes b)}"
  shows "flow_wf ((snd (absorb a b))\<lparr>wf_edges := wf_edges (snd (absorb a b)) \<union> set tails \<times> (+) (length (wf_nodes a)) ` set heads\<rparr>)"
proof -
  let ?n = "length (wf_nodes a)"
  let ?B = "(\<lambda>(p, c). (p + ?n, c + ?n)) ` wf_edges b" and ?C = "set tails \<times> (+) ?n ` set heads"
  have "?B \<subseteq> {?n..} \<times> {?n..}" "?C \<subseteq> {..<?n} \<times> {?n..}" using assms(3) by auto
  moreover have "acyclic ?B" using assms(2) by (intro acyclic_shift) (simp add: flow_wf_def)
  ultimately have "acyclic (wf_edges a \<union> ?B \<union> ?C)"
    using assms(1) by (intro acyclic_blocks) (auto simp: flow_wf_def)
  moreover have "wf_edges a \<union> ?B \<union> ?C \<subseteq> {..< ?n + length (wf_nodes b)} \<times> {..< ?n + length (wf_nodes b)}"
    using assms by (fastforce simp: flow_wf_def)
  ultimately show ?thesis by (simp add: flow_wf_def absorb_def Let_def)
qed

lemma absorb_wf: "flow_wf a \<Longrightarrow> flow_wf b \<Longrightarrow> flow_wf (snd (absorb a b))"
  using flow_wf_join [of a b "[]" "[]"] by simp

lemma flow_wf_single [simp]: "flow_wf \<lparr>wf_nodes = ns, wf_edges = {}\<rparr>" "flow_wf empty_flow"
  by (simp_all add: flow_wf_def acyclic_def empty_flow_def)

lemma set_roots_leaves: "set (roots w) \<subseteq> {..< length (wf_nodes w)}" "set (leaves w) \<subseteq> {..< length (wf_nodes w)}"
  by (auto simp: roots_def leaves_def)

lemma length_absorb [simp]: "length (wf_nodes (snd (absorb a b))) = length (wf_nodes a) + length (wf_nodes b)"
  by (simp add: absorb_def Let_def)

lemma chain_from_wf:
  assumes "flow_wf flow" "set tails \<subseteq> {..< length (wf_nodes flow)}" "\<forall>it \<in> set its. flow_wf (as_workflow it)"
  shows "flow_wf (chain_from flow tails its)"
  using assms
proof (induction flow tails its rule: chain_from.induct)
  case (2 flow tails it its)
  let ?sub = "as_workflow it" and ?n = "length (wf_nodes flow)"
  let ?flow = "(snd (absorb flow ?sub))\<lparr>wf_edges := wf_edges (snd (absorb flow ?sub)) \<union> set tails \<times> (+) ?n ` set (roots ?sub)\<rparr>"
  show ?case
  proof (cases "wf_nodes ?sub = []")
    case True
    then show ?thesis using 2 by simp
  next
    case False
    have "flow_wf ?flow" by (rule flow_wf_join) (use 2 set_roots_leaves in auto)
    moreover have "set (map ((+) ?n) (leaves ?sub)) \<subseteq> {..< length (wf_nodes ?flow)}"
      using set_roots_leaves(2) [of ?sub] by auto
    ultimately have "flow_wf (chain_from ?flow (map ((+) ?n) (leaves ?sub)) its)"
      using "2.IH"(2) [OF refl False refl refl refl refl] "2.prems"(3) by simp
    then show ?thesis using False by (simp add: Let_def)
  qed
qed simp

text \<open>
  C26: Whatever chain, group and chord build from acyclic graphs is an acyclic graph, with
  every edge between nodes it has.
\<close>

theorem compositions_are_acyclic:
  assumes "\<forall>it \<in> set its. flow_wf (as_workflow it)" "flow_wf (as_workflow body)"
  shows "flow_wf (chain its) \<and> flow_wf (group its) \<and> flow_wf (fst (chord body callback))"
proof (intro conjI)
  show "flow_wf (chain its)"
    unfolding chain_def by (rule chain_from_wf) (use assms(1) in simp_all)
  have "flow_wf (fold (\<lambda>b flow. snd (absorb flow (as_workflow b))) its w)" if "flow_wf w" for w
    using assms(1) that by (induction its arbitrary: w) (simp_all add: absorb_wf)
  then show "flow_wf (group its)" by (simp add: group_def)
  have "flow_wf ((snd (absorb (as_workflow body) \<lparr>wf_nodes = [callback], wf_edges = {}\<rparr>))
      \<lparr>wf_edges := wf_edges (snd (absorb (as_workflow body) \<lparr>wf_nodes = [callback], wf_edges = {}\<rparr>))
         \<union> set (leaves (as_workflow body)) \<times> (+) (length (wf_nodes (as_workflow body))) ` set [0]\<rparr>)"
    by (rule flow_wf_join) (use assms(2) set_roots_leaves in auto)
  then show "flow_wf (fst (chord body callback))"
    by (simp add: chord_def absorb_def Let_def)
qed

definition sample_sig :: signature where
  "sample_sig =
     \<lparr>sg_queue = ''default'', sg_task = ''send'', sg_payload = [], sg_priority = 0, sg_max_attempts = 20,
      sg_delay = 0, sg_concurrency_key = None, sg_max_concurrency = None, sg_durable = False\<rparr>"

definition sample_flow :: workflow where
  "sample_flow = \<lparr>wf_nodes = [sample_sig, sample_sig], wf_edges = {(0, 1)}\<rparr>"

lemma sample_flow_wf [simp]: "flow_wf sample_flow"
  by (simp add: flow_wf_def sample_flow_def acyclic_insert) (simp add: acyclic_def)

theorem compositions_are_acyclic_witness:
  "flow_wf (chain [Sig sample_sig, Flow sample_flow])
   \<and> wf_edges (chain [Sig sample_sig, Flow sample_flow]) = {(0, 1), (1, 2)}"
proof (rule conjI)
  show "flow_wf (chain [Sig sample_sig, Flow sample_flow])"
    using compositions_are_acyclic [of "[Sig sample_sig, Flow sample_flow]" "Sig sample_sig"] by simp
  show "wf_edges (chain [Sig sample_sig, Flow sample_flow]) = {(0, 1), (1, 2)}" by code_simp
qed

section \<open>Counting dependencies\<close>

lemma count_deps_spec:
  assumes "count_deps es counts = Some deps"
  shows "length deps = length counts
    \<and> (\<forall>i < length counts. deps ! i = counts ! i + length (filter (\<lambda>e. snd e = i) es))"
  using assms
proof (induction es counts rule: count_deps.induct)
  case (2 p c es counts)
  then show ?case by (auto split: if_splits simp: nth_list_update)
qed simp

lemma count_deps_returns:
  "\<forall>e \<in> set es. snd e < length counts \<Longrightarrow> \<exists>deps. count_deps es counts = Some deps"
  by (induction es counts rule: count_deps.induct) auto

lemma dependencies_indegree:
  assumes "finite (wf_edges w)" "dependencies w = Some deps" "i < length (wf_nodes w)"
  shows "length deps = length (wf_nodes w)" "deps ! i = length (filter (\<lambda>e. snd e = i) (sorted_list_of_set (wf_edges w)))"
  using count_deps_spec [of "sorted_list_of_set (wf_edges w)" "replicate (length (wf_nodes w)) 0" deps] assms
  by (simp_all add: dependencies_def)

lemma flow_wf_finite: "flow_wf w \<Longrightarrow> finite (wf_edges w)"
  unfolding flow_wf_def by (meson finite_SigmaI finite_lessThan finite_subset)

section \<open>The insert keeps the invariant\<close>

lemma node_row_wf: "row_ok (node_row now w s n) \<Longrightarrow> row_wf (node_row now w s n)"
  by (simp add: row_wf_def node_row_def default_row_def live_def)

lemma insert_job_seq: "job_seq d \<le> job_seq (snd (insert_job now r d))"
  by (cases rule: insert_job_cases [of now r d]) simp_all

lemma insert_nodes_seq:
  "insert_nodes numbered now w ns d = (res, d') \<Longrightarrow> job_seq d \<le> job_seq d' \<and> workflow_seq d' = workflow_seq d"
proof (induction numbered now w ns d arbitrary: res rule: insert_nodes.induct)
  case (2 numbered now w s pending ns d)
  let ?ins = "bind_text ([sg_queue s, sg_task s] @ (case sg_concurrency_key s of None \<Rightarrow> [] | Some k \<Rightarrow> [k]))
    (insert_job now (node_row now w s pending)) d"
  have "job_seq d \<le> job_seq (snd ?ins) \<and> workflow_seq (snd ?ins) = workflow_seq d"
    using insert_job_seq [of d now "node_row now w s pending"]
    by (cases rule: insert_job_cases [of now "node_row now w s pending" d]) (simp_all add: bind_text_def)
  with 2 show ?case by (fastforce split: if_splits prod.splits sum.splits)
qed simp

definition node_rows :: "int \<Rightarrow> i64 \<Rightarrow> i64 list \<Rightarrow> (signature \<times> nat) list \<Rightarrow> job_row list" where
  "node_rows now w ids ns = map (\<lambda>(i, s, n). (node_row now w s n)\<lparr>row_id := i\<rparr>) (zip ids ns)"

lemma insert_nodes_spec:
  assumes "db_inv d" "insert_nodes numbered now w ns d = (Inr ids, d')"
  shows "db_inv d' \<and> edges d' = edges d \<and> length ids = length ns \<and> jobs d' = jobs d @ node_rows now w ids ns"
  using assms
proof (induction numbered now w ns d arbitrary: ids rule: insert_nodes.induct)
  case (2 numbered now w s pending ns d)
  let ?r = "node_row now w s pending"
  obtain i d1 where ins: "insert_job now ?r d = (Inr i, d1)"
      and rest: "\<exists>more. insert_nodes numbered now w ns d1 = (Inr more, d') \<and> ids = i # more"
    using "2.prems"(2) by (auto simp: bind_text_def split: if_splits prod.splits sum.splits)
  obtain more where more: "insert_nodes numbered now w ns d1 = (Inr more, d')" "ids = i # more" using rest by blast
  have inv: "db_inv d1"
    using insert_job_inv [OF "2.prems"(1) node_row_wf, of now w s pending now] ins by (simp add: node_row_def default_row_def)
  have acc: "driver_accepts numbered (node_marks numbered) (1 + n_columns + 1)"
    "bind_text ([sg_queue s, sg_task s] @ (case sg_concurrency_key s of None \<Rightarrow> [] | Some k \<Rightarrow> [k])) (insert_job now ?r) d = (Inr i, d1)"
    using "2.prems"(2) ins by (auto simp: bind_text_def split: if_splits)
  have d1: "edges d1 = edges d" "jobs d1 = jobs d @ [?r\<lparr>row_id := i\<rparr>]"
    using ins by (cases rule: insert_job_cases [of now ?r d]; auto)+
  from "2.IH" [OF _ acc(2) [symmetric] refl inv more(1)] acc(1)
  have "db_inv d' \<and> edges d' = edges d1 \<and> length more = length ns \<and> jobs d' = jobs d1 @ node_rows now w more ns" by blast
  then show ?case by (simp add: d1 more(2) node_rows_def)
qed (simp add: node_rows_def)

lemma node_rows_nth:
  assumes "length ids = length ns" "i < length ns"
  shows "node_rows now w ids ns ! i = (node_row now w (fst (ns ! i)) (snd (ns ! i)))\<lparr>row_id := ids ! i\<rparr>"
  using assms by (simp add: node_rows_def case_prod_beta)

lemma node_rows_ids: "length ids = length ns \<Longrightarrow> map row_id (node_rows now w ids ns) = ids"
  by (simp add: node_rows_def o_def case_prod_beta)

lemma db_inv_rolled_back:
  assumes "db_inv d" "job_seq d \<le> job_seq d'"
  shows "db_inv (rolled_back d d')"
  using assms by (auto simp: rolled_back_def db_inv_def db_wf_def flow_ok_def open_parents_def completed_ids_def job_ids_def
      intro: order_less_le_trans)

lemma edge_rows_into:
  assumes "distinct ids" "i < length ids" "\<forall>e \<in> set es. snd e < length ids"
  shows "length (filter (\<lambda>e. e_child e = ids ! i) (edge_rows w ids es)) = length (filter (\<lambda>e. snd e = i) es)"
  using assms(3) by (induction es) (auto simp: edge_rows_def nth_eq_iff_index_eq assms(1,2))

lemma edges_added:
  assumes "db_inv d" "jobs d1 = jobs d @ rows" "edges d1 = edges d" "db_inv d1" "map row_id rows = ids"
    and "\<forall>(p, c) \<in> set es. p < length ids \<and> c < length ids"
    and "distinct (map (\<lambda>e. (e_parent e, e_child e)) (edges d1 @ edge_rows w ids es))"
    and "\<And>i. i < length ids \<Longrightarrow> int (length (filter (\<lambda>e. snd e = i) es)) \<le> pending_deps (rows ! i)"
  shows "db_inv (d1\<lparr>edges := edges d1 @ edge_rows w ids es\<rparr>)" (is "db_inv ?d")
proof -
  have dist: "distinct (map row_id (jobs d1))" using assms(4) by (simp add: db_inv_def db_wf_def)
  then have new: "distinct ids" "set ids \<inter> job_ids d = {}" using assms(2,5) by (auto simp: job_ids_def)
  have ends: "e_parent e \<in> set ids" "e_child e \<in> set ids" if "e \<in> set (edge_rows w ids es)" for e
    using that assms(6) by (auto simp: edge_rows_def)
  have "set ids \<subseteq> job_ids d1" using assms(2,5) by (auto simp: job_ids_def)
  then have "db_wf ?d"
    using assms(4,7) ends by (auto simp: db_inv_def db_wf_def job_ids_def)
  moreover have "open_parents (row_id r) ?d \<le> pending_deps r" if r: "r \<in> set (jobs d1)" for r
  proof -
    have le: "open_parents c ?d \<le> open_parents c d1 + int (length (filter (\<lambda>e. e_child e = c) (edge_rows w ids es)))" for c
      by (auto simp: open_parents_def completed_ids_def intro!: length_filter_mono)
    consider "r \<in> set (jobs d)" | i where "i < length rows" "r = rows ! i"
      using r assms(2) by (auto simp: in_set_conv_nth)
    then show ?thesis
    proof cases
      case 1
      then have "filter (\<lambda>e. e_child e = row_id r) (edge_rows w ids es) = []"
        using new(2) ends(2) by (auto simp: filter_empty_conv job_ids_def)
      then show ?thesis using le [of "row_id r"] assms(4) r by (fastforce simp: db_inv_def flow_ok_def)
    next
      case 2
      then have id: "row_id r = ids ! i" "i < length ids" using assms(5) by auto
      have "ids ! i \<notin> job_ids d" using id(2) new(2) nth_mem by blast
      then have "open_parents (ids ! i) d1 = 0"
        using assms(1,3) by (auto simp: open_parents_def filter_empty_conv db_inv_def db_wf_def)
      moreover have "length (filter (\<lambda>e. e_child e = ids ! i) (edge_rows w ids es)) = length (filter (\<lambda>e. snd e = i) es)"
        by (rule edge_rows_into [OF new(1) id(2)]) (use assms(6) in auto)
      ultimately show ?thesis using le [of "ids ! i"] assms(8) [OF id(2)] id(1) 2(2) by simp
    qed
  qed
  ultimately show ?thesis by (simp add: db_inv_def flow_ok_def)
qed


lemma insert_workflow_ok:
  assumes "db_inv d" "insert_workflow numbered now ns es d = (Inr ids, d')" "length ns = n"
    and "\<And>i. i < n \<Longrightarrow> snd (ns ! i) = length (filter (\<lambda>e. snd e = i) es)"
  shows "db_inv d'" "length ids = n" "jobs d' = jobs d @ node_rows now (word_of_int (workflow_seq d)) ids ns"
    "edges d' = edges d @ edge_rows (word_of_int (workflow_seq d)) ids es"
proof -
  let ?w = "word_of_int (workflow_seq d) :: i64"
  let ?d0 = "d\<lparr>workflow_seq := workflow_seq d + 1, workflow_ids := workflow_ids d @ [?w]\<rparr>"
  obtain d1 where ins: "insert_nodes numbered now ?w ns ?d0 = (Inr ids, d1)"
      and range: "\<not> list_ex (\<lambda>(p, c). length ids \<le> p \<or> length ids \<le> c) es"
      and dist: "distinct (map (\<lambda>e. (e_parent e, e_child e)) (edges d1 @ edge_rows ?w ids es))"
      and d': "d' = d1\<lparr>edges := edges d1 @ edge_rows ?w ids es\<rparr>"
    using assms(2) by (auto simp: insert_workflow_def Let_def split: if_splits prod.splits sum.splits)
  have inv0: "db_inv ?d0"
    using assms(1) by (simp add: db_inv_def db_wf_def flow_ok_def open_parents_def completed_ids_def job_ids_def)
  from insert_nodes_spec [OF inv0 ins] have spec: "db_inv d1" "edges d1 = edges d" "length ids = length ns"
      "jobs d1 = jobs d @ node_rows now ?w ids ns" by simp_all
  show "length ids = n" "jobs d' = jobs d @ node_rows now ?w ids ns" "edges d' = edges d @ edge_rows ?w ids es"
    using spec assms(3) by (simp_all add: d')
  show "db_inv d'" unfolding d'
  proof (rule edges_added [OF assms(1) spec(4,2,1) node_rows_ids [OF spec(3)] _ dist])
    show "\<forall>(p, c) \<in> set es. p < length ids \<and> c < length ids" using range by (auto simp: list_ex_iff not_le)
    fix i assume "i < length ids"
    then show "int (length (filter (\<lambda>e. snd e = i) es)) \<le> pending_deps (node_rows now ?w ids ns ! i)"
      using spec(3) assms(3,4) by (simp add: node_rows_nth node_row_def)
  qed
qed

lemma insert_workflow_failed:
  assumes "insert_workflow numbered now ns es d = (Inl e, d')"
  shows "jobs d' = jobs d" "edges d' = edges d" "workflow_ids d' = workflow_ids d" "db_inv d \<Longrightarrow> db_inv d'"
proof -
  let ?d0 = "d\<lparr>workflow_seq := workflow_seq d + 1, workflow_ids := workflow_ids d @ [word_of_int (workflow_seq d)]\<rparr>"
  have "d' = d \<or> (\<exists>d1 res. insert_nodes numbered now (word_of_int (workflow_seq d)) ns ?d0 = (res, d1) \<and> d' = rolled_back d d1)"
    using assms by (auto simp: insert_workflow_def Let_def split: if_splits prod.splits sum.splits)
  then show "jobs d' = jobs d" "edges d' = edges d" "workflow_ids d' = workflow_ids d" "db_inv d \<Longrightarrow> db_inv d'"
    using insert_nodes_seq db_inv_rolled_back by (auto simp: rolled_back_def) fastforce
qed

lemma enqueue_workflow_cases:
  assumes "flow_wf w" "wf_nodes w \<noteq> []"
  obtains deps where "length deps = length (wf_nodes w)"
    "\<And>i. i < length (wf_nodes w) \<Longrightarrow> deps ! i = length (filter (\<lambda>e. snd e = i) (sorted_list_of_set (wf_edges w)))"
    "\<And>numbered now d. enqueue_workflow numbered now w d =
       insert_workflow numbered now (zip (wf_nodes w) deps) (sorted_list_of_set (wf_edges w)) d"
proof -
  have "\<forall>e \<in> set (sorted_list_of_set (wf_edges w)). snd e < length (replicate (length (wf_nodes w)) (0 :: nat))"
    using assms(1) flow_wf_finite [OF assms(1)] by (auto simp: flow_wf_def)
  from count_deps_returns [OF this] obtain deps where deps: "dependencies w = Some deps" by (auto simp: dependencies_def)
  then show thesis
    using that [of deps] dependencies_indegree [OF flow_wf_finite [OF assms(1)] deps] assms(2)
    by (cases "wf_nodes w") (auto simp: enqueue_workflow_def)
qed

lemma enqueue_workflow_inv:
  assumes "db_inv d" "flow_wf w"
  shows "db_inv (snd (enqueue_workflow numbered now w d))"
proof (cases "wf_nodes w = []")
  case True
  then show ?thesis using assms(1) by (simp add: enqueue_workflow_def)
next
  case False
  obtain deps where deps: "length deps = length (wf_nodes w)"
    "\<And>i. i < length (wf_nodes w) \<Longrightarrow> deps ! i = length (filter (\<lambda>e. snd e = i) (sorted_list_of_set (wf_edges w)))"
    "\<And>numbered now d. enqueue_workflow numbered now w d =
       insert_workflow numbered now (zip (wf_nodes w) deps) (sorted_list_of_set (wf_edges w)) d"
    by (rule enqueue_workflow_cases [OF assms(2) False]) blast
  obtain res d' where run: "insert_workflow numbered now (zip (wf_nodes w) deps) (sorted_list_of_set (wf_edges w)) d = (res, d')"
    by fastforce
  have "db_inv d'"
  proof (cases res)
    case (Inl e)
    then show ?thesis using insert_workflow_failed(4) [OF run [unfolded Inl]] assms(1) by blast
  next
    case (Inr ids)
    show ?thesis
      by (rule insert_workflow_ok(1) [OF assms(1) run [unfolded Inr] refl]) (use deps(1,2) in simp)
  qed
  then show ?thesis by (simp add: deps(3) run)
qed

text \<open>
  C25: An enqueued workflow is a graph in which every job waits for its parents. A successful
  enqueue adds one row per node and one edge per edge, in node order; a node nothing leads to
  is due after its own delay, any other is parked and counts exactly the edges into it; and the
  invariant that completion relies on holds. A failed one leaves jobs, edges and workflows alone.
\<close>

theorem workflow_is_enqueued_whole_or_not_at_all:
  assumes "db_inv d" "flow_wf w" "wf_nodes w \<noteq> []" "enqueue_workflow numbered now w d = (res, d')"
  shows "case res of
      Inl e \<Rightarrow> jobs d' = jobs d \<and> edges d' = edges d \<and> workflow_ids d' = workflow_ids d
    | Inr ids \<Rightarrow> db_inv d' \<and> length ids = length (wf_nodes w)
        \<and> (\<forall>i < length ids. \<exists>r \<in> set (jobs d'). row_id r = ids ! i
             \<and> pending_deps r = int (card {e \<in> wf_edges w. snd e = i})
             \<and> scheduled_at r = (if i \<in> set (roots w) then At (now + int (sg_delay (wf_nodes w ! i))) else Infinity))
        \<and> (\<forall>(p, c) \<in> wf_edges w. (ids ! p, ids ! c) \<in> (\<lambda>e. (e_parent e, e_child e)) ` set (edges d'))"
proof -
  note fin = flow_wf_finite [OF assms(2)]
  obtain deps where deps: "length deps = length (wf_nodes w)"
    "\<And>i. i < length (wf_nodes w) \<Longrightarrow> deps ! i = length (filter (\<lambda>e. snd e = i) (sorted_list_of_set (wf_edges w)))"
    "\<And>numbered now d. enqueue_workflow numbered now w d =
       insert_workflow numbered now (zip (wf_nodes w) deps) (sorted_list_of_set (wf_edges w)) d"
    by (rule enqueue_workflow_cases [OF assms(2,3)]) blast
  have card: "deps ! i = card {e \<in> wf_edges w. snd e = i}" if "i < length (wf_nodes w)" for i
    using deps(2) [OF that] distinct_card [of "filter (\<lambda>e. snd e = i) (sorted_list_of_set (wf_edges w))"] fin by simp
  note run = assms(4) [unfolded deps(3)]
  show ?thesis
  proof (cases res)
    case (Inl e)
    then show ?thesis using insert_workflow_failed [OF run [unfolded Inl]] by simp
  next
    case (Inr ids)
    have n: "length (zip (wf_nodes w) deps) = length (wf_nodes w)" using deps(1) by simp
    have pend: "snd (zip (wf_nodes w) deps ! i) = length (filter (\<lambda>e. snd e = i) (sorted_list_of_set (wf_edges w)))"
      if "i < length (wf_nodes w)" for i using that deps(1,2) by simp
    note ok = insert_workflow_ok [OF assms(1) run [unfolded Inr] n pend]
    have row: "\<exists>r \<in> set (jobs d'). row_id r = ids ! i \<and> pending_deps r = int (card {e \<in> wf_edges w. snd e = i})
        \<and> scheduled_at r = (if i \<in> set (roots w) then At (now + int (sg_delay (wf_nodes w ! i))) else Infinity)"
      if i: "i < length ids" for i
    proof
      let ?rows = "node_rows now (word_of_int (workflow_seq d)) ids (zip (wf_nodes w) deps)"
      have len: "length ids = length (zip (wf_nodes w) deps)" "i < length (wf_nodes w)" "i < length (zip (wf_nodes w) deps)"
        using i ok(2) n by simp_all
      have "?rows ! i \<in> set ?rows" using len by (intro nth_mem) (simp add: node_rows_def)
      then show "?rows ! i \<in> set (jobs d')" by (simp add: ok(3))
      have "i \<in> set (roots w) \<longleftrightarrow> deps ! i = 0"
        using fin len(2) by (force simp: roots_def card)
      then show "row_id (?rows ! i) = ids ! i \<and> pending_deps (?rows ! i) = int (card {e \<in> wf_edges w. snd e = i})
        \<and> scheduled_at (?rows ! i) = (if i \<in> set (roots w) then At (now + int (sg_delay (wf_nodes w ! i))) else Infinity)"
        using node_rows_nth [OF len(1,3)] len(2) deps(1) card by (simp add: node_row_def default_row_def)
    qed
    have "\<forall>(p, c) \<in> wf_edges w. (ids ! p, ids ! c) \<in> (\<lambda>e. (e_parent e, e_child e)) ` set (edges d')"
      using fin by (force simp: ok(4) edge_rows_def)
    then show ?thesis using Inr ok(1,2) row by simp
  qed
qed

theorem workflow_is_enqueued_whole_or_not_at_all_witness:
  "\<exists>ids d'. enqueue_workflow True 10 sample_flow sample_db = (Inr ids, d') \<and> ids = [100, 101] \<and> db_inv d'
     \<and> (ids ! 0, ids ! 1) \<in> (\<lambda>e. (e_parent e, e_child e)) ` set (edges d')"
proof -
  let ?f = "enqueue_workflow True 10 sample_flow sample_db"
  have inv: "db_inv sample_db" by (simp add: db_inv_def flow_ok_def open_parents_def) (simp add: sample_defs)
  have "map_sum id id (fst ?f) = Inr [100, 101]" by code_simp
  then obtain ids where ids: "?f = (Inr ids, snd ?f)" "id ids = [100, 101]" by (rule ok_pair)
  have ne: "wf_nodes sample_flow \<noteq> []" and e: "(0, 1) \<in> wf_edges sample_flow" by (simp_all add: sample_flow_def)
  from workflow_is_enqueued_whole_or_not_at_all [OF inv sample_flow_wf ne ids(1)]
  have "db_inv (snd ?f)" "\<forall>(p, c) \<in> wf_edges sample_flow. (ids ! p, ids ! c) \<in> (\<lambda>e. (e_parent e, e_child e)) ` set (edges (snd ?f))"
    by simp_all
  with e ids show ?thesis by (intro exI conjI) auto
qed

text \<open>
  Through psycopg no workflow can be enqueued. The statement for a node writes the pending
  count twice, so with positional placeholders it has one more than the parameters sent, the
  driver refuses the first node, and the transaction is undone. With the numbered placeholders
  of asyncpg the two agree.
\<close>

theorem psycopg_refuses_every_workflow:
  assumes "flow_wf w" "wf_nodes w \<noteq> []" "workflow_seq d < 2 ^ 63"
  shows "fst (enqueue_workflow False now w d) = Inl Driver
    \<and> jobs (snd (enqueue_workflow False now w d)) = jobs d
    \<and> driver_accepts True (node_marks True) (1 + n_columns + 1)"
proof -
  obtain deps where deps: "length deps = length (wf_nodes w)"
    "\<And>numbered now d. enqueue_workflow numbered now w d =
       insert_workflow numbered now (zip (wf_nodes w) deps) (sorted_list_of_set (wf_edges w)) d"
    by (rule enqueue_workflow_cases [OF assms(1,2)]) blast
  have marks: "\<not> driver_accepts False (node_marks False) (1 + n_columns + 1)" "driver_accepts True (node_marks True) (1 + n_columns + 1)"
    by code_simp+
  obtain x xs where "zip (wf_nodes w) deps = x # xs" using assms(2) deps(1) by (cases "wf_nodes w"; cases deps) auto
  then have "fst (enqueue_workflow False now w d) = Inl Driver"
    using marks(1) assms(3) by (cases x) (simp add: deps(2) insert_workflow_def Let_def)
  moreover then have "enqueue_workflow False now w d = (Inl Driver, snd (enqueue_workflow False now w d))"
    by (metis prod.collapse)
  then have "jobs (snd (enqueue_workflow False now w d)) = jobs d"
    unfolding deps(2) by (rule insert_workflow_failed(1))
  ultimately show ?thesis using marks(2) by blast
qed

theorem psycopg_refuses_every_workflow_witness:
  "fst (enqueue_workflow False 10 sample_flow sample_db) = Inl Driver
   \<and> jobs (snd (enqueue_workflow False 10 sample_flow sample_db)) = jobs sample_db"
  using psycopg_refuses_every_workflow [OF sample_flow_wf, of sample_db]
  by (simp add: sample_flow_def) (simp add: sample_defs)

text \<open>A chord on a graph works on the caller's own graph: a second one finds the first's callback in it.\<close>

lemma chord_changes_its_body:
  "snd (chord (Flow w) a) = Flow (fst (chord (Flow w) a))
   \<and> wf_nodes (fst (chord (snd (chord (Flow w) a)) b)) = wf_nodes w @ [a, b]"
  by (simp add: chord_def absorb_def Let_def)


end
