(* ===== verification/Client.thy ===== *)
theory Client
  imports Samples
begin

text \<open>
  The insert of a unique job as the Python client sends it (\<open>python/gylo/_adapters.py\<close>,
  \<open>_statements\<close>): an insert that does nothing when a live job has the key, and then the
  identifier of the job that has it.
\<close>

definition unique_row :: "int \<Rightarrow> new_job \<Rightarrow> bytes \<Rightarrow> job_row" where
  "unique_row now j key = (enqueue_row now j)\<lparr>unique_key := Some key\<rparr>"

definition insert_unless_live :: "int \<Rightarrow> job_row \<Rightarrow> bytes \<Rightarrow> i64 op" where
  "insert_unless_live now row key d =
     (case find (\<lambda>r. live r \<and> unique_key r = Some key) (jobs d) of
        Some r \<Rightarrow>
          if 2 ^ 63 \<le> job_seq d then (Inl (Database SequenceExhausted), d)
          else if \<not> row_ok row
          then (Inl (Database (CheckViolation ''gylo_job'')), d\<lparr>job_seq := job_seq d + 1\<rparr>)
          else (Inr (row_id r), d\<lparr>job_seq := job_seq d + 1\<rparr>)
      | None \<Rightarrow> insert_job now row d)"

definition insert_unique :: "int \<Rightarrow> new_job \<Rightarrow> bytes \<Rightarrow> i64 op" where
  "insert_unique now j key =
     bind_text ([nj_queue j, nj_task j] @ (case nj_concurrency j of None \<Rightarrow> [] | Some (k, _) \<Rightarrow> [k]))
       (insert_unless_live now (unique_row now j key) key)"

lemma unique_row_wf: "row_ok (unique_row now j key) \<Longrightarrow> row_wf (unique_row now j key)"
  by (simp add: row_wf_def unique_row_def enqueue_row_def default_row_def live_def)

lemma enqueue_row_wf: "row_ok (enqueue_row now j) \<Longrightarrow> row_wf (enqueue_row now j)"
  by (simp add: row_wf_def enqueue_row_def default_row_def live_def)

lemma db_inv_more_seq: "db_inv d \<Longrightarrow> db_inv (d\<lparr>job_seq := job_seq d + 1\<rparr>)"
  using db_wf_more_seq [of d] by (simp add: db_inv_def flow_ok_def open_parents_def completed_ids_def)

lemma enqueue_inv: "db_inv d \<Longrightarrow> db_inv (snd (enqueue now j d))"
  using insert_job_inv [OF _ enqueue_row_wf, of d now j now]
  by (simp add: enqueue_def bind_text_def enqueue_row_def default_row_def)

lemma insert_unique_inv: "db_inv d \<Longrightarrow> db_inv (snd (insert_unique now j key d))"
  using insert_job_inv [OF _ unique_row_wf, of d now j key now]
  by (auto simp: insert_unique_def insert_unless_live_def bind_text_def db_inv_more_seq unique_row_def enqueue_row_def default_row_def
      split: option.splits)

text \<open>
  A unique job is enqueued once. While a job with the key waits or runs, asking for another
  returns its identifier and adds nothing; and however often it is asked, no two live jobs share
  the key.
\<close>

theorem unique_job_is_enqueued_once:
  assumes "db_inv d" "insert_unique now j key d = (Inr i, d1)" "insert_unique now' j' key d1 = (Inr i', d2)"
  shows "i' = i \<and> jobs d2 = jobs d1 \<and> length (jobs d1) \<le> length (jobs d) + 1 \<and> db_inv d2
    \<and> (\<exists>r \<in> set (jobs d2). row_id r = i \<and> live r \<and> unique_key r = Some key
        \<and> (\<forall>s \<in> set (jobs d2). live s \<longrightarrow> unique_key s = Some key \<longrightarrow> s = r))"
proof -
  have inv: "db_inv d1" "db_inv d2"
    using insert_unique_inv [OF assms(1), of now j key] assms(2) insert_unique_inv [of d1 now' j' key] assms(3) by simp_all
  then have dist: "distinct (map row_id (jobs d1))" "unique_ok (jobs d1)" by (simp_all add: db_inv_def db_wf_def)
  have first: "length (jobs d1) \<le> length (jobs d) + 1"
    "\<exists>r \<in> set (jobs d1). row_id r = i \<and> live r \<and> unique_key r = Some key"
  proof -
    have "\<exists>r \<in> set (jobs d1). row_id r = i \<and> live r \<and> unique_key r = Some key \<and> length (jobs d1) \<le> length (jobs d) + 1"
    proof (cases "find (\<lambda>r. live r \<and> unique_key r = Some key) (jobs d)")
      case None
      then have "insert_job now (unique_row now j key) d = (Inr i, d1)"
        using assms(2) by (auto simp: insert_unique_def insert_unless_live_def bind_text_def split: if_splits)
      then show ?thesis
        by (cases rule: insert_job_cases [of now "unique_row now j key" d])
          (auto simp: unique_row_def enqueue_row_def default_row_def live_def)
    next
      case (Some r)
      then have "r \<in> set (jobs d)" "live r" "unique_key r = Some key" by (auto simp: find_Some_iff)
      then show ?thesis using assms(2) Some
        by (auto simp: insert_unique_def insert_unless_live_def bind_text_def split: if_splits)
    qed
    then show "length (jobs d1) \<le> length (jobs d) + 1"
      "\<exists>r \<in> set (jobs d1). row_id r = i \<and> live r \<and> unique_key r = Some key" by blast+
  qed
  then obtain r where r: "r \<in> set (jobs d1)" "row_id r = i" "live r" "unique_key r = Some key" by blast
  have only: "s = r" if "s \<in> set (jobs d1)" "live s" "unique_key s = Some key" for s
  proof -
    have "\<not> unique_clash s r" using dist(2) that(1) r(1) by (simp add: unique_ok_iff)
    then have "row_id s = row_id r" using that r by (auto simp: unique_clash_def)
    then show ?thesis using job_row_eqI [OF dist(1) that(1) r(1)] by blast
  qed
  obtain s where s: "find (\<lambda>r. live r \<and> unique_key r = Some key) (jobs d1) = Some s"
    using r by (cases "find (\<lambda>r. live r \<and> unique_key r = Some key) (jobs d1)") (auto simp: find_None_iff)
  then have "s = r" using only by (auto simp: find_Some_iff)
  then have second: "i' = i" "jobs d2 = jobs d1"
    using assms(3) s r(2) by (auto simp: insert_unique_def insert_unless_live_def bind_text_def split: if_splits)
  show ?thesis
    unfolding second by (intro conjI bexI [OF _ r(1)] ballI impI refl first(1) inv(2) r(2-4) only)
qed

theorem unique_job_is_enqueued_once_witness:
  "\<exists>i d1 d2. insert_unique 0 (new_job_for ''send'' []) [7] sample_db = (Inr i, d1)
     \<and> insert_unique 5 (new_job_for ''send'' []) [7] d1 = (Inr i, d2) \<and> jobs d2 = jobs d1"
proof -
  let ?f = "insert_unique 0 (new_job_for ''send'' []) [7] sample_db"
  let ?g = "insert_unique 5 (new_job_for ''send'' []) [7] (snd ?f)"
  have inv: "db_inv sample_db" by (simp add: db_inv_def flow_ok_def open_parents_def) (simp add: sample_defs)
  have "map_sum id id (fst ?f) = Inr 100" by code_simp
  then obtain i where f: "?f = (Inr i, snd ?f)" by (rule ok_pair)
  have "map_sum id id (fst ?g) = Inr 100" by code_simp
  then obtain i' where g: "?g = (Inr i', snd ?g)" by (rule ok_pair)
  from unique_job_is_enqueued_once [OF inv f g] have same: "i' = i" "jobs (snd ?g) = jobs (snd ?f)" by blast+
  show ?thesis by (intro exI conjI) (rule f, rule g [unfolded same(1)], rule same(2))
qed

end
