(* ===== verification/Statements.thy ===== *)
theory Statements
  imports Admission Completion Failure CronTable Retention Workflow Client Samples
begin

text \<open>
  The backend as a whole: every statement that changes the database is a step, in any order,
  from any number of workers, clients and operators, at any times. The invariant of the
  database holds in every state reached; the life of every job is the one of \<open>life\<close>; and a
  report from a worker that no longer holds a job changes nothing about it.
\<close>

section \<open>Steps\<close>

datatype call =
    Enqueue new_job
  | InsertUnique new_job bytes
  | EnqueueWorkflow bool workflow
  | FetchUnkeyed "string list" int uuid duration "i64 list"
  | FetchKeyed "string list" int uuid duration "i64 list"
  | Renew "i64 list" uuid duration
  | Abandon "i64 list" uuid
  | Reclaim int
  | CompleteJobs "i64 list" "bytes option list" uuid
  | Retry "i64 \<Rightarrow> rat" "i64 list" "string list" uuid duration duration
  | Discard "i64 list" "string list" uuid
  | Cancel "i64 list"
  | RecordStep i64 string bytes
  | UpsertCron cron_entry int
  | FireCron string int
  | RetryDiscarded "i64 list option" "string option"
  | PurgeDiscarded "string option"
  | Prune bool duration "string option" int "i64 list"
  | PruneWorkflows

fun exec :: "int \<Rightarrow> call \<Rightarrow> db \<Rightarrow> db" where
  "exec now (Enqueue j) d = snd (enqueue now j d)"
| "exec now (InsertUnique j key) d = snd (insert_unique now j key d)"
| "exec now (EnqueueWorkflow numbered w) d = snd (enqueue_workflow numbered now w d)"
| "exec now (FetchUnkeyed qs limit w l skip) d = snd (fetch_unkeyed qs limit w l now skip d)"
| "exec now (FetchKeyed qs limit w l skip) d = snd (fetch_keyed qs limit w l now skip d)"
| "exec now (Renew ids w l) d = snd (renew_leases now ids w l d)"
| "exec now (Abandon ids w) d = snd (abandon_leases now ids w d)"
| "exec now (Reclaim limit) d = snd (reclaim_expired limit now d)"
| "exec now (CompleteJobs ids results w) d = snd (complete now ids results w d)"
| "exec now (Retry random ids errs w base cap) d = snd (retry_many random now ids errs w base cap d)"
| "exec now (Discard ids errs w) d = snd (discard_many now ids errs w d)"
| "exec now (Cancel ids) d = snd (cancel now ids d)"
| "exec now (RecordStep i name v) d = snd (record_step now i name v d)"
| "exec now (UpsertCron e next_run) d = snd (upsert_cron now e next_run d)"
| "exec now (FireCron name next_run) d = snd (fire_cron name next_run now d)"
| "exec now (RetryDiscarded ids q) d = snd (retry_discarded now ids q d)"
| "exec now (PurgeDiscarded q) d = snd (purge_discarded q d)"
| "exec now (Prune dead older_than q limit skip) d =
     snd (prune_states (if dead then [Discarded] else [Completed, Cancelled]) older_than q limit now skip d)"
| "exec now PruneWorkflows d = snd (prune_workflows d)"

text \<open>A workflow is one that the constructors of the client build.\<close>

fun call_ok :: "call \<Rightarrow> bool" where
  "call_ok (EnqueueWorkflow numbered w) = flow_wf w"
| "call_ok _ = True"

definition db_step :: "db \<Rightarrow> db \<Rightarrow> bool" where
  "db_step d d' \<longleftrightarrow> (\<exists>now c. call_ok c \<and> d' = exec now c d)"

lemma db_stepI: "call_ok c \<Longrightarrow> db_step d (exec now c d)"
  by (auto simp: db_step_def)

definition reachable_db :: "db \<Rightarrow> bool" where
  "reachable_db = reach (\<lambda>d. d = empty_db) db_step"

section \<open>The invariant\<close>

lemma db_inv_lawful:
  assumes "db_inv d" "lawful now d d'" "db_wf d'" "edges d' = edges d"
    and "map pending_deps (jobs d') = map pending_deps (jobs d)"
  shows "db_inv d'"
  using assms flow_ok_lawful [OF _ assms(2,4,5)] by (simp add: db_inv_def)

lemma lease_selected_inv:
  assumes "db_inv d" "leasable now d sel"
  shows "db_inv (snd (lease_selected now w l sel d))"
proof -
  have wf: "db_wf d" using assms(1) by (simp add: db_inv_def)
  have "map pending_deps (jobs (snd (lease_selected now w l sel d))) = map pending_deps (jobs d)
      \<and> edges (snd (lease_selected now w l sel d)) = edges d"
    by (cases rule: lease_selected_cases [of now w l sel d])
      (auto simp: update_where_def lease_row_def)
  then show ?thesis
    using db_inv_lawful [OF assms(1) lease_selected_lawful [OF wf assms(2)] lease_selected_wf [OF wf assms(2)]] by blast
qed

lemma fetch_unkeyed_inv: "db_inv d \<Longrightarrow> db_inv (snd (fetch_unkeyed qs limit w l now skip d))"
  by (cases rule: fetch_unkeyed_cases [of qs limit w l now skip d])
    (simp_all add: lease_selected_inv select_unkeyed_leasable db_inv_def [THEN iffD1, THEN conjunct1])

lemma fetch_keyed_inv: "db_inv d \<Longrightarrow> db_inv (snd (fetch_keyed qs limit w l now skip d))"
  by (cases rule: fetch_keyed_cases [of qs limit w l now skip d])
    (simp_all add: lease_selected_inv admit_leasable select_keyed_leasable db_inv_def [THEN iffD1, THEN conjunct1])

lemma renew_leases_inv:
  assumes "db_inv d"
  shows "db_inv (snd (renew_leases now ids w l d))"
proof (rule db_inv_lawful [OF assms renew_leases_lawful])
  show "db_wf (snd (renew_leases now ids w l d))" using assms by (simp add: renew_leases_wf db_inv_def)
qed (simp_all add: renew_leases_eq update_where_def)

lemma abandon_leases_inv:
  assumes "db_inv d"
  shows "db_inv (snd (abandon_leases now ids w d))"
proof (rule db_inv_lawful [OF assms abandon_leases_lawful])
  show "db_wf (snd (abandon_leases now ids w d))" using assms by (simp add: abandon_leases_wf db_inv_def)
qed (simp_all add: abandon_leases_eq update_where_def)

lemma reclaim_expired_inv:
  assumes "db_inv d"
  shows "db_inv (snd (reclaim_expired limit now d))"
proof (rule db_inv_lawful [OF assms reclaim_expired_lawful])
  show "db_wf d" "db_wf (snd (reclaim_expired limit now d))"
    using assms reclaim_expired_wf by (simp_all add: db_inv_def)
  show "edges (snd (reclaim_expired limit now d)) = edges d"
    "map pending_deps (jobs (snd (reclaim_expired limit now d))) = map pending_deps (jobs d)"
    by (auto simp: reclaim_expired_def Let_def update_where_def reclaim_row_def discard_row_def release_row_def)
qed

lemma cancel_eq: "snd (cancel now ids d) = update_where (cancellable ids) (cancel_row now) d"
  by (simp add: cancel_def update_where_def cancellable_def [abs_def])

lemma cancel_lawful: "lawful now d (snd (cancel now ids d))"
  unfolding cancel_eq cancel_row_def by (rule lawful_update_where) (simp add: cancellable_def row_step.cancel)

lemma cancel_inv:
  assumes "db_inv d"
  shows "db_inv (snd (cancel now ids d))"
proof (rule db_inv_lawful [OF assms cancel_lawful])
  show "db_wf (snd (cancel now ids d))"
    unfolding cancel_eq cancel_row_def
    by (rule db_wf_update_where [where now = now]) (use assms in \<open>auto simp: cancellable_def live_def db_inv_def intro: row_step.cancel\<close>)
qed (simp_all add: cancel_eq update_where_def cancel_row_def)

lemma record_step_inv:
  assumes "db_inv d"
  shows "db_inv (snd (record_step now i name v d))"
proof -
  have "db_inv (d\<lparr>steps := steps d @ [s]\<rparr>)"
    if "s_job s \<in> job_ids d" "\<not> list_ex (\<lambda>x. s_job x = s_job s \<and> s_name x = s_name s) (steps d)" for s
    using that assms
    by (auto simp: db_inv_def db_wf_def flow_ok_def open_parents_def completed_ids_def job_ids_def list_ex_iff)
  then show ?thesis using assms by (simp add: record_step_def bind_text_def)
qed

lemma exec_inv: "db_inv d \<Longrightarrow> call_ok c \<Longrightarrow> db_inv (exec now c d)"
  by (cases c)
    (simp_all add: enqueue_inv insert_unique_inv enqueue_workflow_inv fetch_unkeyed_inv fetch_keyed_inv
      renew_leases_inv abandon_leases_inv reclaim_expired_inv complete_inv retry_many_inv discard_many_inv
      cancel_inv record_step_inv upsert_cron_inv fire_cron_inv retry_discarded_inv purge_discarded_inv
      prune_states_inv prune_workflows_inv)

interpretation pg: inductive_invariant "\<lambda>d. d = empty_db" db_step db_inv
  by unfold_locales (auto simp: db_step_def exec_inv)


text \<open>
  C1: Every state the backend reaches is consistent. Whatever statements ran, in whatever order
  and however they interleaved, identifiers are distinct, every row satisfies the constraints
  and is locked exactly while it runs, no two live jobs share a unique key, and every job counts
  at least its parents that have not completed.
\<close>

theorem reachable_databases_are_consistent:
  assumes "reachable_db d"
  shows "db_inv d \<and> distinct (map row_id (jobs d))
    \<and> (\<forall>r \<in> set (jobs d). 0 \<le> sint (attempt r) \<and> sint (attempt r) \<le> sint (max_attempts r)
        \<and> (state r = Running \<longleftrightarrow> locked_by r \<noteq> None) \<and> (locked_by r = None \<longleftrightarrow> lease_expires_at r = None)
        \<and> (finalized_at r = None \<longleftrightarrow> live r)
        \<and> open_parents (row_id r) d \<le> pending_deps r)
    \<and> (\<forall>r \<in> set (jobs d). \<forall>s \<in> set (jobs d). live r \<and> live s \<and> unique_key r \<noteq> None \<and> unique_key r = unique_key s \<longrightarrow> r = s)"
proof -
  have inv: "db_inv d" using pg.reach_inv assms by (simp add: reachable_db_def)
  then have dist: "distinct (map row_id (jobs d))" by (simp add: db_inv_def db_wf_def)
  have "r = s" if "r \<in> set (jobs d)" "s \<in> set (jobs d)" "live r" "live s" "unique_key r \<noteq> None" "unique_key r = unique_key s" for r s
  proof -
    have "\<not> unique_clash r s" using inv that(1,2) by (simp add: db_inv_def db_wf_def unique_ok_iff)
    then show ?thesis using that job_row_eqI [OF dist that(1,2)] by (auto simp: unique_clash_def)
  qed
  moreover have "0 \<le> sint (attempt r) \<and> sint (attempt r) \<le> sint (max_attempts r)
        \<and> (state r = Running \<longleftrightarrow> locked_by r \<noteq> None) \<and> (locked_by r = None \<longleftrightarrow> lease_expires_at r = None)
        \<and> (finalized_at r = None \<longleftrightarrow> live r) \<and> open_parents (row_id r) d \<le> pending_deps r"
    if "r \<in> set (jobs d)" for r
  proof -
    have "row_wf r" "open_parents (row_id r) d \<le> pending_deps r"
      using inv that by (simp_all add: db_inv_def db_wf_def flow_ok_def)
    then show ?thesis
      by (simp add: row_wf_def row_ok_def attempt_bounds_def lease_paired_def del: not_None_eq)
  qed
  ultimately show ?thesis using inv dist by blast
qed

lemma reachable_empty: "reachable_db empty_db"
  by (simp add: reachable_db_def reach_init)

lemma reachable_exec: "reachable_db d \<Longrightarrow> call_ok c \<Longrightarrow> reachable_db (exec now c d)"
  unfolding reachable_db_def using reach_step [of _ db_step d "exec now c d"] db_stepI by blast

text \<open>One job enqueued at 0 and leased to worker 7 at 10, as the statements leave it.\<close>

definition one_call :: "call" where
  "one_call = Enqueue (new_job_for ''send'' [])"

definition worked_db :: db where
  "worked_db = exec 10 (FetchUnkeyed [''default''] 1 7 30 []) (exec 0 one_call empty_db)"

lemma worked_db_reachable: "reachable_db worked_db"
  unfolding worked_db_def one_call_def by (intro reachable_exec reachable_empty) simp_all

lemma worked_db_jobs: "jobs worked_db = [(leased_row 1 7 40)\<lparr>started_at := Some 10\<rparr>]"
  by code_simp

theorem reachable_databases_are_consistent_witness:
  "open_parents 1 worked_db \<le> 0 \<and> db_inv worked_db"
  using reachable_databases_are_consistent [OF worked_db_reachable]
  by (simp add: worked_db_jobs leased_row_def plain_row_def default_row_def)

section \<open>The life of a job\<close>

text \<open>
  The abstract view: which jobs there are and in which state. A step of the specification lets a
  job appear waiting, pass along \<open>life\<close>, or disappear once it has ended.
\<close>

definition job_states :: "db \<Rightarrow> i64 \<rightharpoonup> job_state" where
  "job_states d = map_of (map (\<lambda>r. (row_id r, state r)) (jobs d))"

fun may_move :: "job_state option \<Rightarrow> job_state option \<Rightarrow> bool" where
  "may_move None None = True"
| "may_move None (Some t) = (t = Available)"
| "may_move (Some s) None = (s \<in> {Completed, Discarded, Cancelled})"
| "may_move (Some s) (Some t) = (t = s \<or> life s t)"

definition lifecycle :: "(i64 \<rightharpoonup> job_state) \<Rightarrow> (i64 \<rightharpoonup> job_state) \<Rightarrow> bool" where
  "lifecycle m m' \<longleftrightarrow> (\<forall>i. may_move (m i) (m' i))"

lemma may_move_refl [simp]: "may_move s s"
  by (cases s) simp_all

lemma lifecycle_same [simp]: "jobs d' = jobs d \<Longrightarrow> lifecycle (job_states d) (job_states d')"
  by (simp add: lifecycle_def job_states_def)

lemma lifecycle_lawful:
  assumes "lawful now d d'"
  shows "lifecycle (job_states d) (job_states d')"
proof -
  have "may_move (map_of (map (\<lambda>r. (row_id r, state r)) xs) i) (map_of (map (\<lambda>r. (row_id r, state r)) ys) i)"
    if "list_all2 (\<lambda>r r'. r' = r \<or> row_step now r r') xs ys" for xs ys i
    using that
  proof (induction rule: list_all2_induct)
    case (Cons x xs y ys)
    then have "row_id y = row_id x" "state y = state x \<or> life (state x) (state y)"
      by (auto simp: row_step_frame dest: row_step_life)
    with Cons.IH show ?case by auto
  qed simp
  then show ?thesis using assms by (simp add: lifecycle_def job_states_def lawful_def)
qed

lemma lifecycle_append:
  assumes "jobs d' = jobs d @ rows" "\<forall>r \<in> set rows. state r = Available"
  shows "lifecycle (job_states d) (job_states d')"
proof -
  have "may_move None (map_of (map (\<lambda>r. (row_id r, state r)) rows) i)" for i
    using assms(2) by (induction rows) auto
  then show ?thesis
    by (simp add: lifecycle_def job_states_def assms(1) map_add_def split: option.split)
qed

lemma ended_state: "\<not> live r \<Longrightarrow> state r \<in> {Completed, Discarded, Cancelled}"
  by (cases "state r") (simp_all add: live_def)

lemma lifecycle_filter:
  assumes "distinct (map row_id (jobs d))" "jobs d' = filter (\<lambda>r. \<not> p r) (jobs d)"
    and "\<forall>r \<in> set (jobs d). p r \<longrightarrow> \<not> live r"
  shows "lifecycle (job_states d) (job_states d')"
proof -
  have "may_move (map_of (map (\<lambda>r. (row_id r, state r)) xs) i)
      (map_of (map (\<lambda>r. (row_id r, state r)) (filter (\<lambda>r. \<not> p r) xs)) i)"
    if "distinct (map row_id xs)" "\<forall>r \<in> set xs. p r \<longrightarrow> \<not> live r" for xs i
    using that
  proof (induction xs)
    case (Cons x xs)
    have "map_of (map (\<lambda>r. (row_id r, state r)) (filter (\<lambda>r. \<not> p r) xs)) (row_id x) = None"
      using Cons.prems(1) by (auto simp: map_of_eq_None_iff)
    moreover have "p x \<Longrightarrow> state x \<in> {Completed, Discarded, Cancelled}"
      using Cons.prems(2) by (intro ended_state) simp
    ultimately show ?case using Cons by auto
  qed simp
  then show ?thesis using assms by (simp add: lifecycle_def job_states_def)
qed

lemma lifecycle_insert:
  assumes "state r = Available"
  shows "lifecycle (job_states d) (job_states (snd (insert_job now r d)))"
proof (cases rule: insert_job_cases [of now r d])
  case inserted
  show ?thesis by (rule lifecycle_append [of _ _ "[r\<lparr>row_id := word_of_int (job_seq d)\<rparr>]"]) (simp_all add: inserted(4) assms)
qed simp_all

lemma workflow_appends:
  assumes "db_inv d" "flow_wf w"
  shows "\<exists>rows. jobs (snd (enqueue_workflow numbered now w d)) = jobs d @ rows \<and> (\<forall>r \<in> set rows. state r = Available)"
proof (cases "wf_nodes w = []")
  case True
  then show ?thesis by (simp add: enqueue_workflow_def)
next
  case False
  obtain deps where deps: "length deps = length (wf_nodes w)"
    "\<And>i. i < length (wf_nodes w) \<Longrightarrow> deps ! i = length (filter (\<lambda>e. snd e = i) (sorted_list_of_set (wf_edges w)))"
    "\<And>numbered now d. enqueue_workflow numbered now w d =
       insert_workflow numbered now (zip (wf_nodes w) deps) (sorted_list_of_set (wf_edges w)) d"
    by (rule enqueue_workflow_cases [OF assms(2) False]) blast
  obtain res d' where run: "insert_workflow numbered now (zip (wf_nodes w) deps) (sorted_list_of_set (wf_edges w)) d = (res, d')"
    by fastforce
  have "\<exists>rows. jobs d' = jobs d @ rows \<and> (\<forall>r \<in> set rows. state r = Available)"
  proof (cases res)
    case (Inl e)
    then show ?thesis using insert_workflow_failed(1) [OF run [unfolded Inl]] by simp
  next
    case (Inr ids)
    have "jobs d' = jobs d @ node_rows now (word_of_int (workflow_seq d)) ids (zip (wf_nodes w) deps)"
      by (rule insert_workflow_ok(3) [OF assms(1) run [unfolded Inr] refl]) (use deps(1,2) in simp)
    then show ?thesis by (auto simp: node_rows_def node_row_def default_row_def)
  qed
  then show ?thesis by (simp add: deps(3) run)
qed

lemma lifecycle_workflow:
  assumes "db_inv d" "flow_wf w"
  shows "lifecycle (job_states d) (job_states (snd (enqueue_workflow numbered now w d)))"
  using workflow_appends [OF assms, of numbered now] lifecycle_append by metis

lemma lifecycle_prune:
  assumes "db_wf d"
  shows "lifecycle (job_states d) (job_states (snd (prune_states states older_than q limit now skip d)))"
proof (cases rule: prune_states_cases [of states older_than q limit now skip d])
  case pruned
  let ?vs = "victims now skip states older_than q limit d"
  have dist: "distinct (map row_id (jobs d))" using assms by (simp add: db_wf_def)
  have "\<not> live r" if "r \<in> set (jobs d)" "row_id r \<in> row_id ` set ?vs" for r
    using victim_not_live [OF assms that] .
  then show ?thesis
    by (intro lifecycle_filter [OF dist, of _ "\<lambda>r. row_id r \<in> row_id ` set ?vs"]) (simp_all add: pruned(2))
qed simp

lemma lifecycle_exec:
  assumes "db_inv d" "call_ok c"
  shows "lifecycle (job_states d) (job_states (exec now c d))"
proof (cases c)
  case (InsertUnique j key)
  have "lifecycle (job_states d) (job_states (snd (insert_unique now j key d)))"
    by (auto simp: insert_unique_def insert_unless_live_def bind_text_def unique_row_def enqueue_row_def default_row_def
        intro!: lifecycle_insert split: option.split)
  then show ?thesis by (simp add: InsertUnique)
next
  case (RecordStep i name v)
  then show ?thesis by (simp add: record_step_def bind_text_def)
next
  case (PurgeDiscarded q)
  have dist: "distinct (map row_id (jobs d))" using assms(1) by (simp add: db_inv_def db_wf_def)
  have "lifecycle (job_states d) (job_states (delete_jobs (\<lambda>r. state r = Discarded \<and> queue_matches q r) d))"
    by (rule lifecycle_filter [OF dist delete_jobs_simps(1)]) (simp add: live_def)
  then show ?thesis by (simp add: PurgeDiscarded purge_discarded_def bind_queue_def bind_text_def)
next
  case PruneWorkflows
  then show ?thesis by (simp add: prune_workflows_def Let_def)
next
  case (UpsertCron e next_run)
  then show ?thesis by (simp add: upsert_cron_def bind_text_def)
next
  case (FireCron name next_run)
  have "lifecycle (job_states d) (job_states (snd (fire_cron name next_run now d)))"
  proof (cases rule: fire_cron_cases [of name next_run now d])
    case (refused e d0)
    show ?thesis by (simp add: refused(1,2))
  next
    case (won c i d')
    then show ?thesis
      using lifecycle_insert [of "default_row now (c_queue c) (c_task c) (c_payload c)" d now]
      by (simp add: default_row_def job_states_def)
  qed simp_all
  then show ?thesis by (simp add: FireCron)
qed (use assms in \<open>simp_all add: enqueue_def bind_text_def lifecycle_insert enqueue_row_def default_row_def
      lifecycle_workflow lifecycle_prune db_inv_def
      lifecycle_lawful [where now = now] fetch_unkeyed_lawful fetch_keyed_lawful renew_leases_lawful abandon_leases_lawful
      reclaim_expired_lawful complete_lawful retry_many_lawful discard_many_lawful cancel_lawful retry_discarded_lawful\<close>)

text \<open>
  C2: The statements implement the life of a job. Seen as a map from identifiers to states,
  every statement on a reachable database lets a job appear as waiting, keeps it, moves it along
  one edge of the life of a job, or deletes it after it ended: a completed or cancelled job never
  runs again, a job runs only from waiting, and no waiting or running job disappears.
\<close>

theorem statements_follow_the_life_of_a_job:
  assumes "reachable_db d" "db_step d d'"
  shows "lifecycle (job_states d) (job_states d')"
proof -
  have "db_inv d" using pg.reach_inv assms(1) by (simp add: reachable_db_def)
  then show ?thesis using assms(2) lifecycle_exec by (auto simp: db_step_def)
qed

theorem statements_follow_the_life_of_a_job_witness:
  "job_states worked_db 1 = Some Running
   \<and> job_states (exec 20 (CompleteJobs [1] [None] 7) worked_db) 1 = Some Completed
   \<and> lifecycle (job_states worked_db) (job_states (exec 20 (CompleteJobs [1] [None] 7) worked_db))"
proof (intro conjI)
  show "lifecycle (job_states worked_db) (job_states (exec 20 (CompleteJobs [1] [None] 7) worked_db))"
    by (rule statements_follow_the_life_of_a_job [OF worked_db_reachable])
      (rule db_stepI, simp)
qed code_simp+

section \<open>Reports from a worker that lost its lease\<close>

fun reporter :: "call \<Rightarrow> uuid option" where
  "reporter (Renew ids w l) = Some w"
| "reporter (Abandon ids w) = Some w"
| "reporter (CompleteJobs ids results w) = Some w"
| "reporter (Retry random ids errs w base cap) = Some w"
| "reporter (Discard ids errs w) = Some w"
| "reporter _ = None"

lemma update_where_other: "r \<in> set (jobs d) \<Longrightarrow> \<not> p r \<Longrightarrow> r \<in> set (jobs (update_where p f d))"
  by (force simp: update_where_def)

fun reported_ids :: "call \<Rightarrow> i64 list" where
  "reported_ids (Renew ids w l) = ids"
| "reported_ids (Abandon ids w) = ids"
| "reported_ids (CompleteJobs ids results w) = ids"
| "reported_ids (Retry random ids errs w base cap) = ids"
| "reported_ids (Discard ids errs w) = ids"
| "reported_ids _ = []"

text \<open>What is downstream of a job that has not completed still counts a parent.\<close>

lemma downstream_pending:
  assumes "db_inv d" "ps \<inter> completed_ids d = {}" "i \<in> downstream (edges d) ps" "r \<in> set (jobs d)" "row_id r = i"
  shows "0 < pending_deps r"
proof -
  have child: "(\<forall>s \<in> set (jobs d). row_id s = c \<longrightarrow> 0 < pending_deps s) \<and> c \<notin> completed_ids d"
    if edge: "(p, c) \<in> edge_rel (edges d)" and open_p: "p \<notin> completed_ids d" for p c
  proof -
    obtain e where e: "e \<in> set (edges d)" "e_parent e = p" "e_child e = c" using edge by (auto simp: edge_rel_def)
    have open_c: "0 < pending_deps s" if "s \<in> set (jobs d)" "row_id s = c" for s
      by (rule open_parent_pending [OF assms(1) that(1) e(1)]) (use e that(2) open_p in simp_all)
    then have "c \<notin> completed_ids d" using pending_not_due [OF assms(1)] by (fastforce simp: completed_ids_def)
    with open_c show ?thesis by blast
  qed
  obtain p where p: "p \<in> ps" "(p, i) \<in> (edge_rel (edges d))\<^sup>+" using assms(3) by (auto simp: downstream_trancl)
  have "(\<forall>s \<in> set (jobs d). row_id s = i \<longrightarrow> 0 < pending_deps s) \<and> i \<notin> completed_ids d"
    using p(2)
  proof (induction rule: trancl_induct)
    case (base c)
    then show ?case using child [of p c] p(1) assms(2) by blast
  next
    case (step b c)
    then show ?case using child [of b c] by blast
  qed
  then show ?thesis using assms(4,5) by blast
qed

lemma held_ids_open: "db_inv d \<Longrightarrow> held_ids w ids d \<inter> completed_ids d = {}"
  by (simp add: held_not_completed db_inv_def)

lemma report_exec:
  assumes "db_inv d" "reporter c = Some w" "r \<in> set (jobs d)" "pending_deps r = 0" "locked_by r \<noteq> Some w"
  shows "r \<in> set (jobs (exec now c d))"
proof -
  have other: "\<not> holds w ids r" for ids using assms(5) by (simp add: holds_def)
  show ?thesis
  proof (cases c)
    case (CompleteJobs ids results w')
    have "0 < edges_into (held_ids w ids d) (row_id r) d \<Longrightarrow> edges_into (held_ids w ids d) (row_id r) d \<le> pending_deps r"
      using edges_into_pending(1) [OF assms(1,3)] other by blast
    then have "complete_row now ids results w d r = r" using other assms(4) by (auto simp: complete_row_def)
    then show ?thesis
      using assms(2,3) image_eqI [of r "complete_row now ids results w d" r "set (jobs d)"]
      by (simp add: CompleteJobs complete_ok(2) [OF assms(1)])
  next
    case (Discard ids errs w')
    have "row_id r \<notin> downstream (edges d) (held_ids w ids d)"
      using downstream_pending [OF assms(1) held_ids_open [OF assms(1)] _ assms(3) refl] assms(4) by force
    then have "discard_many_row now ids errs w d r = r" using other by (simp add: discard_many_row_def)
    then show ?thesis
      using assms(2,3) image_eqI [of r "discard_many_row now ids errs w d" r "set (jobs d)"]
      by (cases "list_all text_ok errs") (simp_all add: Discard discard_many_jobs(2,3))
  next
    case (Retry random ids errs w' base cap)
    then show ?thesis
      using assms(2,3) other
      by (cases rule: retry_many_cases [of random now ids errs w base cap d]) (simp_all add: update_where_other)
  qed (use assms(2,3) other in \<open>simp_all add: renew_leases_eq abandon_leases_eq update_where_other\<close>)
qed

lemma update_where_none: "\<not> list_ex p (jobs d) \<Longrightarrow> jobs (update_where p f d) = jobs d"
  by (auto simp: update_where_def list_ex_iff intro!: map_idI)

lemma report_on_nothing_exec:
  assumes "db_inv d" "reporter c = Some w" "\<not> list_ex (holds w (reported_ids c)) (jobs d)"
  shows "jobs (exec now c d) = jobs d"
proof -
  have none: "held_ids w (reported_ids c) d = {}" using assms(3) by (auto simp: held_ids_def list_ex_iff)
  have not_held: "\<not> holds w (reported_ids c) r" if "r \<in> set (jobs d)" for r using assms(3) that by (auto simp: list_ex_iff)
  show ?thesis
  proof (cases c)
    case (CompleteJobs ids results w')
    have "complete_row now ids results w d r = r" if "r \<in> set (jobs d)" for r
      using none not_held [OF that] CompleteJobs by (simp add: complete_row_def edges_into_def)
    then show ?thesis using assms(2) by (simp add: CompleteJobs complete_ok(2) [OF assms(1)] map_idI)
  next
    case (Discard ids errs w')
    have "discard_many_row now ids errs w d r = r" if "r \<in> set (jobs d)" for r
      using none not_held [OF that] Discard by (simp add: discard_many_row_def)
    then show ?thesis
      using assms(2) by (cases "list_all text_ok errs") (simp_all add: Discard discard_many_jobs(2,3) map_idI)
  next
    case (Retry random ids errs w' base cap)
    then show ?thesis
      using assms(2,3) by (cases rule: retry_many_cases [of random now ids errs w base cap d]) (simp_all add: update_where_none)
  qed (use assms(2,3) in \<open>simp_all add: renew_leases_eq abandon_leases_eq update_where_none\<close>)
qed

text \<open>
  C3: A late report is harmless. On a reachable database, a worker that renews, abandons, completes,
  retries or discards jobs none of which it holds any more - reclaimed and waiting, leased to
  another worker, finished, dead-lettered, cancelled or deleted - changes no job at all. When it still holds
  some of the jobs it reports, every job it does not hold and that waits for no parent keeps its
  row exactly as it was, in whatever state it is.
\<close>

theorem late_reports_change_nothing:
  assumes "reachable_db d" "reporter c = Some w"
  shows "(\<not> list_ex (holds w (reported_ids c)) (jobs d) \<longrightarrow> jobs (exec now c d) = jobs d)
    \<and> (\<forall>r \<in> set (jobs d). locked_by r \<noteq> Some w \<and> pending_deps r = 0 \<longrightarrow> r \<in> set (jobs (exec now c d)))"
proof -
  have inv: "db_inv d" using pg.reach_inv assms(1) by (simp add: reachable_db_def)
  show ?thesis using report_on_nothing_exec [OF inv assms(2)] report_exec [OF inv assms(2)] by blast
qed

theorem late_reports_change_nothing_witness:
  "jobs (exec 20 (CompleteJobs [1] [None] 8) worked_db) = jobs worked_db
   \<and> (leased_row 1 7 40)\<lparr>started_at := Some 10\<rparr> \<in> set (jobs (exec 20 (CompleteJobs [1] [None] 8) worked_db))"
  using late_reports_change_nothing [OF worked_db_reachable, of "CompleteJobs [1] [None] 8" 8 20]
  by (simp add: worked_db_jobs leased_row_def plain_row_def default_row_def holds_def del: exec.simps)

section \<open>Parents before children\<close>

text \<open>
  C15: A job runs only after everything it depends on. Whatever statements built and changed the
  database, every parent of a job that runs, has run or is due is complete; and no pass of a fetch,
  keyed or not, by any worker, hands out a job with a parent that is not complete.
\<close>

theorem parents_complete_before_child_runs:
  assumes "reachable_db d" "e \<in> set (edges d)" "e_parent e \<notin> completed_ids d"
  shows "(\<forall>r \<in> set (jobs d). row_id r = e_child e \<longrightarrow>
        state r = Available \<and> scheduled_at r = Infinity \<or> state r = Cancelled)
    \<and> (\<forall>rows d'. fetch_unkeyed qs limit w l now skip d = (Inr rows, d') \<longrightarrow> e_child e \<notin> (row_id \<circ> fst) ` set rows)
    \<and> (\<forall>rows d'. fetch_keyed qs limit w l now skip d = (Inr rows, d') \<longrightarrow> e_child e \<notin> row_id ` set rows)"
proof (intro conjI allI impI)
  have inv: "db_inv d" using pg.reach_inv assms(1) by (simp add: reachable_db_def)
  have wf: "db_wf d" using inv by (simp add: db_inv_def)
  show parked: "\<forall>r \<in> set (jobs d). row_id r = e_child e \<longrightarrow> state r = Available \<and> scheduled_at r = Infinity \<or> state r = Cancelled"
    using pending_not_due [OF inv] open_parent_pending [OF inv _ assms(2) _ assms(3)] by auto
  have none: "e_child e \<notin> row_id ` set sel" if "leasable now d sel" for sel
    using that parked by (fastforce simp: leasable_def)
  show "e_child e \<notin> (row_id \<circ> fst) ` set rows" if "fetch_unkeyed qs limit w l now skip d = (Inr rows, d')" for rows d'
    using that none [OF select_unkeyed_leasable [OF wf, of now qs limit skip]]
    by (cases rule: fetch_unkeyed_cases [of qs limit w l now skip d]) (auto simp: image_image lease_row_def)
  show "e_child e \<notin> row_id ` set rows" if "fetch_keyed qs limit w l now skip d = (Inr rows, d')" for rows d'
    using that none [OF admit_leasable [OF select_keyed_leasable [OF wf, of now qs limit skip], of "already_running d" "[]"]]
    by (cases rule: fetch_keyed_cases [of qs limit w l now skip d]) (auto simp: image_image lease_row_def)
qed

text \<open>A chain of two jobs, enqueued and its first job leased.\<close>

definition chain_db :: db where
  "chain_db = exec 10 (FetchUnkeyed [''default''] 5 7 30 []) (exec 0 (EnqueueWorkflow True sample_flow) empty_db)"

theorem parents_complete_before_child_runs_witness:
  "\<exists>rows d'. fetch_unkeyed [''default''] 5 8 30 20 [] chain_db = (Inr rows, d') \<and> 2 \<notin> (row_id \<circ> fst) ` set rows
     \<and> (\<exists>r \<in> set (jobs chain_db). row_id r = 2 \<and> state r = Available)"
proof -
  let ?e = "\<lparr>e_workflow = 1, e_parent = 1, e_child = 2\<rparr>"
  let ?f = "fetch_unkeyed [''default''] 5 8 30 20 [] chain_db"
  have reach: "reachable_db chain_db"
    unfolding chain_db_def by (intro reachable_exec reachable_empty) simp_all
  have "?e \<in> set (edges chain_db)" "list_ex (\<lambda>r. row_id r = 2 \<and> state r = Available) (jobs chain_db)"
    "\<not> list_ex (\<lambda>r. row_id r = 1 \<and> state r = Completed) (jobs chain_db)" by code_simp+
  then have e: "?e \<in> set (edges chain_db)" "e_parent ?e \<notin> completed_ids chain_db"
    "\<exists>r \<in> set (jobs chain_db). row_id r = 2 \<and> state r = Available"
    by (auto simp: completed_ids_def list_ex_iff)
  have "map_sum id (\<lambda>_. ()) (fst ?f) = Inr ()" by code_simp
  then obtain rows where "?f = (Inr rows, snd ?f)" by (rule ok_pair)
  then show ?thesis
    using parents_complete_before_child_runs [OF reach e(1,2), of "[''default'']" 5 8 30 20 "[]"] e(3) by fastforce
qed

end
