(* ===== verification/Redis.thy ===== *)
theory Redis
  imports Leasing Capability Protocol "HOL-Library.Char_ord" "HOL-Library.List_Lexorder"
begin

text \<open>
  The Redis backend (\<open>crates/gylo-redis/src/lib.rs\<close>). The server is the sorted sets and hashes
  the scripts and pipelines work on, by key; a script or an atomic pipeline is one step of it.
  The claim is shown to take the most urgent due jobs and to provide the same contract of a work
  queue that the Postgres backend does; a namespace is shown to keep to its own keys; and the
  operations that take no notice of who holds a lease are shown to do what that entails.
  \<open>rmp_serde\<close> and the depth of the Lua stack are parameters.
\<close>

section \<open>The server\<close>

text \<open>
  A sorted set, as its members with their scores. Members are identifiers written in decimal,
  and equal scores are ordered by these strings. Scores are milliseconds as \<open>f64\<close>: every one is
  a whole number, rounded to 53 significant bits, ties to even.
\<close>

definition as_member :: "i64 \<Rightarrow> string" where
  "as_member i = (if sint i < 0 then ''-'' @ decimal (nat (- sint i)) else decimal (nat (sint i)))"

fun bit_length :: "nat \<Rightarrow> nat" where
  "bit_length n = (if n = 0 then 0 else Suc (bit_length (n div 2)))"

declare bit_length.simps [simp del]

definition as_f64 :: "nat \<Rightarrow> nat" where
  "as_f64 n =
     (if n < 2 ^ 53 then n
      else let e = bit_length n - 53; q = n div 2 ^ e; r = n mod 2 ^ e; half = 2 ^ (e - 1) in
           (if half < r \<or> r = half \<and> odd q then q + 1 else q) * 2 ^ e)"

definition add_f64 :: "nat \<Rightarrow> nat \<Rightarrow> nat" where
  "add_f64 a b = as_f64 (a + b)"

type_synonym zset = "(i64 \<times> nat) list"

definition zadd :: "i64 \<Rightarrow> nat \<Rightarrow> zset \<Rightarrow> zset" where
  "zadd i score z = (i, score) # filter (\<lambda>e. fst e \<noteq> i) z"

definition zrem :: "i64 list \<Rightarrow> zset \<Rightarrow> zset" where
  "zrem ids z = filter (\<lambda>e. fst e \<notin> set ids) z"

definition by_score :: "nat \<Rightarrow> zset \<Rightarrow> i64 list" where
  "by_score most z = map fst (sort_key (\<lambda>e. (snd e, as_member (fst e))) (filter (\<lambda>e. snd e \<le> most) z))"

definition zrangebyscore :: "nat \<Rightarrow> nat \<Rightarrow> zset \<Rightarrow> i64 list" where
  "zrangebyscore most n z = take n (by_score most z)"

record server =
  zsets :: "string \<Rightarrow> zset"
  blobs :: "string \<Rightarrow> i64 \<rightharpoonup> bytes"
  counters :: "string \<Rightarrow> i64 \<rightharpoonup> int"

definition empty_server :: server where
  "empty_server = \<lparr>zsets = (\<lambda>_. []), blobs = (\<lambda>_ _. None), counters = (\<lambda>_ _. None)\<rparr>"

definition members :: "server \<Rightarrow> string \<Rightarrow> i64 set" where
  "members s key = fst ` set (zsets s key)"

datatype redis_failure = LinkLost | ScriptFailed | BadReply

datatype redis_error = RedisError redis_failure | Payload i64

type_synonym 'a rop = "server \<Rightarrow> (redis_error, 'a) result \<times> server"

text \<open>
  What surrounds the round trips of one call: the readings of the client's clock in order, what
  other clients do before a round trip, and faults of the connection as for Postgres.
\<close>

record link =
  millis :: "nat \<Rightarrow> nat"
  meanwhile :: "nat \<Rightarrow> server \<Rightarrow> server"
  trips :: "nat \<Rightarrow> fault"

definition calm :: "nat \<Rightarrow> link" where
  "calm now = \<lparr>millis = (\<lambda>_. now), meanwhile = (\<lambda>_ s. s), trips = (\<lambda>_. NoFault)\<rparr>"

definition round_trip :: "link \<Rightarrow> nat \<Rightarrow> 'a rop \<Rightarrow> 'a rop" where
  "round_trip v n request s =
     (let s1 = meanwhile v n s; (r, s2) = request s1 in
      case trips v n of
        NoFault \<Rightarrow> (r, s2)
      | Refused \<Rightarrow> (Inl (RedisError LinkLost), s1)
      | Unacknowledged \<Rightarrow> (Inl (RedisError LinkLost), s2))"

definition now_millis :: "link \<Rightarrow> nat \<Rightarrow> nat" where
  "now_millis v n = as_f64 (millis v n)"

text \<open>A duration is in microseconds.\<close>

definition later :: "link \<Rightarrow> nat \<Rightarrow> duration \<Rightarrow> nat" where
  "later v n t = add_f64 (now_millis v n) (as_f64 (t div 1000))"

section \<open>Keys\<close>

record keys =
  k_namespace :: string
  k_leased :: string
  k_payload :: string
  k_attempt :: string

definition new_keys :: "string \<Rightarrow> keys" where
  "new_keys namespace =
     \<lparr>k_namespace = namespace, k_leased = namespace @ '':leased'', k_payload = namespace @ '':payload'',
      k_attempt = namespace @ '':attempt''\<rparr>"

definition ready :: "keys \<Rightarrow> nat \<Rightarrow> string" where
  "ready k level = k_namespace k @ '':ready:'' @ decimal level"

definition LEVELS :: nat where
  "LEVELS = 10"

definition level_of :: "i16 \<Rightarrow> nat" where
  "level_of p = nat (max 0 (min (int LEVELS - 1) (sint p)))"

record redis_backend =
  rb_keys :: keys
  rb_durable :: bool

text \<open>The two answers of \<open>CONFIG GET\<close>, an error counting as no answer.\<close>

definition fsync_every_write :: "('e, string list) result \<Rightarrow> ('e, string list) result \<Rightarrow> bool" where
  "fsync_every_write appendonly fsync \<longleftrightarrow>
     (case appendonly of Inr (_ # v # _) \<Rightarrow> v = ''yes'' | _ \<Rightarrow> False)
   \<and> (case fsync of Inr (_ # v # _) \<Rightarrow> v = ''always'' | _ \<Rightarrow> False)"

definition connect_namespaced ::
  "('e, string list) result \<Rightarrow> ('e, string list) result \<Rightarrow> string \<Rightarrow> redis_backend"
where
  "connect_namespaced appendonly fsync namespace =
     \<lparr>rb_keys = new_keys namespace, rb_durable = fsync_every_write appendonly fsync\<rparr>"

definition redis_capabilities :: "redis_backend \<Rightarrow> capabilities" where
  "redis_capabilities b =
     \<lparr>backend = ''redis'', durable_acknowledgement = rb_durable b, transactional_enqueue = False,
      priorities = True, delayed_jobs = True, unique_jobs = False, keyed_concurrency = False,
      workflows = False, durable_steps = False, cron = False, results = False\<rparr>"

section \<open>The scripts\<close>

text \<open>
  \<open>unpack\<close> raises when the Lua stack cannot hold the values; \<open>cap\<close> is how many it can. What a
  script did before it raised stays done. Attempts are counted without a bound, where \<open>HINCRBY\<close>
  fails past the range of 64 bits, which no job is leased often enough to reach.
\<close>

definition claim_one :: "keys \<Rightarrow> nat \<Rightarrow> i64 \<Rightarrow> server \<Rightarrow> server" where
  "claim_one k expires i s =
     s\<lparr>zsets := (zsets s)(k_leased k := zadd i expires (zsets s (k_leased k))),
       counters := (counters s)(k_attempt k :=
         (counters s (k_attempt k))(i \<mapsto> (case counters s (k_attempt k) i of None \<Rightarrow> 1 | Some n \<Rightarrow> n + 1)))\<rparr>"

fun claim_from ::
  "nat \<Rightarrow> keys \<Rightarrow> nat \<Rightarrow> nat \<Rightarrow> nat list \<Rightarrow> nat \<Rightarrow> i64 list \<Rightarrow> i64 list rop"
where
  "claim_from cap k now expires [] remaining claimed s = (Inr claimed, s)"
| "claim_from cap k now expires (level # levels) remaining claimed s =
     (if remaining = 0 then (Inr claimed, s)
      else
        let due = zrangebyscore now remaining (zsets s (ready k level)) in
        if due = [] then claim_from cap k now expires levels remaining claimed s
        else if cap < length due then (Inl (RedisError ScriptFailed), s)
        else
          let s1 = s\<lparr>zsets := (zsets s)(ready k level := zrem due (zsets s (ready k level)))\<rparr>
          in claim_from cap k now expires levels (remaining - length due) (claimed @ due)
               (fold (claim_one k expires) due s1))"

definition CLAIM :: "nat \<Rightarrow> keys \<Rightarrow> nat \<Rightarrow> nat \<Rightarrow> nat \<Rightarrow> i64 list rop" where
  "CLAIM cap k now limit expires = claim_from cap k now expires [0..<LEVELS] limit []"

definition RECLAIM :: "nat \<Rightarrow> keys \<Rightarrow> nat \<Rightarrow> nat \<Rightarrow> nat rop" where
  "RECLAIM cap k now limit s =
     (let expired = zrangebyscore now limit (zsets s (k_leased k)) in
      if expired = [] then (Inr 0, s)
      else if cap < length expired then (Inl (RedisError ScriptFailed), s)
      else
        (Inr (length expired),
         s\<lparr>zsets := (zsets s)(k_leased k := zrem expired (zsets s (k_leased k)),
             ready k 0 := fold (\<lambda>i. zadd i now) expired (zsets s (ready k 0)))\<rparr>))"

fun renew_from :: "keys \<Rightarrow> nat \<Rightarrow> i64 list \<Rightarrow> nat \<Rightarrow> server \<Rightarrow> nat \<times> server" where
  "renew_from k expires [] renewed s = (renewed, s)"
| "renew_from k expires (i # ids) renewed s =
     (if i \<in> members s (k_leased k)
      then renew_from k expires ids (renewed + 1)
             (s\<lparr>zsets := (zsets s)(k_leased k := zadd i expires (zsets s (k_leased k)))\<rparr>)
      else renew_from k expires ids renewed s)"

definition RENEW :: "keys \<Rightarrow> nat \<Rightarrow> i64 list \<Rightarrow> nat rop" where
  "RENEW k expires ids s = (let (n, s') = renew_from k expires ids 0 s in (Inr n, s'))"

section \<open>The operations\<close>

text \<open>A job as stored; \<open>rmp_serde\<close> writes and reads it.\<close>

record stored =
  st_id :: i64
  st_task :: string
  st_payload :: bytes
  st_max_attempts :: i16

record stored_pack =
  to_vec :: "stored \<Rightarrow> (string, bytes) result"
  from_slice :: "bytes \<Rightarrow> (string, stored) result"

definition stored_pack_ok :: "stored_pack \<Rightarrow> bool" where
  "stored_pack_ok sp \<longleftrightarrow> (\<forall>x b. to_vec sp x = Inr b \<longrightarrow> from_slice sp b = Inr x)"

definition redis_enqueue ::
  "stored_pack \<Rightarrow> link \<Rightarrow> keys \<Rightarrow> i64 \<Rightarrow> string \<Rightarrow> bytes \<Rightarrow> i16 \<Rightarrow> i16 \<Rightarrow> duration \<Rightarrow> i64 rop"
where
  "redis_enqueue sp v k i t p prio attempts delay s =
     (case to_vec sp \<lparr>st_id = i, st_task = t, st_payload = p, st_max_attempts = attempts\<rparr> of
        Inl _ \<Rightarrow> (Inl (Payload i), s)
      | Inr encoded \<Rightarrow>
          round_trip v 0 (\<lambda>s.
            (Inr i,
             s\<lparr>blobs := (blobs s)(k_payload k := (blobs s (k_payload k))(i \<mapsto> encoded)),
               zsets := (zsets s)(ready k (level_of prio) :=
                 zadd i (later v 0 delay) (zsets s (ready k (level_of prio))))\<rparr>)) s)"

text \<open>The answers of \<open>HMGET\<close>; a counter that is not an \<open>i16\<close> is refused by the client.\<close>

definition hmget_blobs :: "keys \<Rightarrow> i64 list \<Rightarrow> bytes option list rop" where
  "hmget_blobs k ids s = (Inr (map (blobs s (k_payload k)) ids), s)"

definition hmget_counters :: "keys \<Rightarrow> i64 list \<Rightarrow> i16 option list rop" where
  "hmget_counters k ids s =
     (let found = map (counters s (k_attempt k)) ids in
      if list_ex (\<lambda>c. case c of None \<Rightarrow> False | Some n \<Rightarrow> n < - 32768 \<or> 32767 < n) found
      then (Inl (RedisError BadReply), s)
      else (Inr (map (map_option word_of_int) found), s))"

definition job_of :: "stored_pack \<Rightarrow> i64 \<Rightarrow> bytes option \<Rightarrow> i16 option \<Rightarrow> (redis_error, job) result" where
  "job_of sp i raw tried =
     (case raw of None \<Rightarrow> Inl (Payload i)
      | Some b \<Rightarrow>
          (case from_slice sp b of Inl _ \<Rightarrow> Inl (Payload i)
           | Inr x \<Rightarrow>
               Inr \<lparr>job_id = st_id x, job_task = st_task x, job_payload = st_payload x,
                    job_attempt = (case tried of None \<Rightarrow> 1 | Some n \<Rightarrow> n),
                    job_max_attempts = st_max_attempts x, job_durable = False\<rparr>))"

fun collect_ok :: "('e, 'a) result list \<Rightarrow> ('e, 'a list) result" where
  "collect_ok [] = Inr []"
| "collect_ok (Inl e # rs) = Inl e"
| "collect_ok (Inr x # rs) = (case collect_ok rs of Inl e \<Rightarrow> Inl e | Inr xs \<Rightarrow> Inr (x # xs))"

definition redis_fetch :: "nat \<Rightarrow> stored_pack \<Rightarrow> link \<Rightarrow> keys \<Rightarrow> nat \<Rightarrow> duration \<Rightarrow> job list rop" where
  "redis_fetch cap sp v k limit lease s =
     (case round_trip v 0 (CLAIM cap k (now_millis v 1) limit (later v 0 lease)) s of
        (Inl e, s1) \<Rightarrow> (Inl e, s1)
      | (Inr claimed, s1) \<Rightarrow>
          if claimed = [] then (Inr [], s1)
          else
            (case round_trip v 1 (hmget_blobs k claimed) s1 of
               (Inl e, s2) \<Rightarrow> (Inl e, s2)
             | (Inr raw, s2) \<Rightarrow>
                 (case round_trip v 2 (hmget_counters k claimed) s2 of
                    (Inl e, s3) \<Rightarrow> (Inl e, s3)
                  | (Inr attempts, s3) \<Rightarrow>
                      (collect_ok (map (\<lambda>(i, raw, n). job_of sp i raw n) (zip claimed (zip raw attempts))), s3))))"

definition redis_complete :: "link \<Rightarrow> keys \<Rightarrow> i64 list \<Rightarrow> nat rop" where
  "redis_complete v k ids s =
     (if ids = [] then (Inr 0, s)
      else round_trip v 0 (\<lambda>s.
        (Inr (length (filter (\<lambda>e. fst e \<in> set ids) (zsets s (k_leased k)))),
         s\<lparr>zsets := (zsets s)(k_leased k := zrem ids (zsets s (k_leased k))),
           blobs := (blobs s)(k_payload k := blobs s (k_payload k) |` (- set ids)),
           counters := (counters s)(k_attempt k := counters s (k_attempt k) |` (- set ids))\<rparr>)) s)"

definition redis_retry :: "link \<Rightarrow> keys \<Rightarrow> i64 \<Rightarrow> i16 \<Rightarrow> duration \<Rightarrow> unit rop" where
  "redis_retry v k i prio delay =
     round_trip v 0 (\<lambda>s.
       (Inr (),
        s\<lparr>zsets := (zsets s)(k_leased k := zrem [i] (zsets s (k_leased k)),
            ready k (level_of prio) := zadd i (later v 0 delay) (zsets s (ready k (level_of prio))))\<rparr>))"

definition redis_renew :: "link \<Rightarrow> keys \<Rightarrow> i64 list \<Rightarrow> duration \<Rightarrow> nat rop" where
  "redis_renew v k ids lease s =
     (if ids = [] then (Inr 0, s) else round_trip v 0 (RENEW k (later v 0 lease) ids) s)"

definition redis_abandon :: "link \<Rightarrow> keys \<Rightarrow> i64 list \<Rightarrow> nat rop" where
  "redis_abandon v k ids s =
     (if ids = [] then (Inr 0, s)
      else
        (case round_trip v 0 (\<lambda>s.
                (Inr (length (filter (\<lambda>e. fst e \<in> set ids) (zsets s (k_leased k)))),
                 s\<lparr>zsets := (zsets s)(k_leased k := zrem ids (zsets s (k_leased k)))\<rparr>)) s of
           (Inl e, s1) \<Rightarrow> (Inl e, s1)
         | (Inr removed, s1) \<Rightarrow>
             round_trip v 1 (\<lambda>s.
               (Inr removed,
                s\<lparr>zsets := (zsets s)(ready k 0 := fold (\<lambda>i. zadd i (now_millis v 0)) ids (zsets s (ready k 0)))\<rparr>)) s1))"

definition redis_discard :: "link \<Rightarrow> keys \<Rightarrow> i64 list \<Rightarrow> nat rop" where
  "redis_discard = redis_complete"

definition redis_reclaim_expired :: "nat \<Rightarrow> link \<Rightarrow> keys \<Rightarrow> nat \<Rightarrow> nat rop" where
  "redis_reclaim_expired cap v k limit = round_trip v 0 (RECLAIM cap k (now_millis v 0) limit)"

fun depth_from :: "link \<Rightarrow> keys \<Rightarrow> nat list \<Rightarrow> nat \<Rightarrow> nat rop" where
  "depth_from v k [] counted s = (Inr counted, s)"
| "depth_from v k (level # levels) counted s =
     (case round_trip v level (\<lambda>s. (Inr (length (zsets s (ready k level))), s)) s of
        (Inl e, s1) \<Rightarrow> (Inl e, s1)
      | (Inr n, s1) \<Rightarrow> depth_from v k levels (counted + n) s1)"

definition redis_depth :: "link \<Rightarrow> keys \<Rightarrow> nat rop" where
  "redis_depth v k = depth_from v k [0..<LEVELS] 0"

definition redis_clear :: "link \<Rightarrow> keys \<Rightarrow> unit rop" where
  "redis_clear v k =
     round_trip v 0 (\<lambda>s.
       (Inr (),
        \<lparr>zsets = (\<lambda>key. if key \<in> ready k ` {..<LEVELS} \<union> {k_leased k} then [] else zsets s key),
         blobs = (blobs s)(k_payload k := Map.empty),
         counters = (counters s)(k_attempt k := Map.empty)\<rparr>))"

text \<open>A concrete packing, for the witnesses.\<close>

definition plain_pack :: stored_pack where
  "plain_pack =
     \<lparr>to_vec = (\<lambda>x. Inr (i64_to_le (st_id x) @ i16_to_le (st_max_attempts x)
        @ put_bytes (as_bytes (st_task x)) @ put_bytes (st_payload x))),
      from_slice = (\<lambda>b.
        if length b < 10 then Inl ''short''
        else case get_string (drop 10 b) of None \<Rightarrow> Inl ''task''
           | Some (t, rest) \<Rightarrow>
               (case get_bytes rest of None \<Rightarrow> Inl ''payload''
                | Some (p, _) \<Rightarrow>
                    Inr \<lparr>st_id = i64_from_le (take 8 b), st_task = t, st_payload = p,
                         st_max_attempts = i16_from_le (take 2 (drop 8 b))\<rparr>))\<rparr>"

lemma plain_pack_ok: "stored_pack_ok plain_pack"
  using get_put_bytes [of _ "[]"] by (auto simp: stored_pack_ok_def plain_pack_def)

section \<open>Keys never meet\<close>

text \<open>The sorted sets of a namespace: the ten levels and the leases.\<close>

definition job_keys :: "keys \<Rightarrow> string set" where
  "job_keys k = ready k ` {..<LEVELS} \<union> {k_leased k}"

lemma ready_eq:
  assumes "l < LEVELS"
  shows "ready (new_keys ns) l = (ns @ '':ready:'') @ [char_of (48 + l)]"
  using assms by (simp add: ready_def new_keys_def LEVELS_def decimal.simps)

lemma leased_eq: "k_leased (new_keys ns) = (ns @ '':lease'') @ [CHR ''d'']"
  by (simp add: new_keys_def)

lemma digit_inject:
  assumes "l < LEVELS"
  shows "m < LEVELS \<Longrightarrow> char_of (48 + l) = (char_of (48 + m) :: char) \<longleftrightarrow> l = m"
    "char_of (48 + l) \<noteq> CHR ''d''"
proof -
  show "char_of (48 + l) \<noteq> CHR ''d''"
  proof
    assume "char_of (48 + l) = CHR ''d''"
    then have "of_char (char_of (48 + l) :: char) = (of_char (CHR ''d'') :: nat)" by simp
    then show False using assms by (simp add: of_char_of LEVELS_def)
  qed
  assume "m < LEVELS"
  show "char_of (48 + l) = (char_of (48 + m) :: char) \<longleftrightarrow> l = m"
  proof
    assume "char_of (48 + l) = (char_of (48 + m) :: char)"
    then have "of_char (char_of (48 + l) :: char) = (of_char (char_of (48 + m) :: char) :: nat)" by simp
    then show "l = m" using assms \<open>m < LEVELS\<close> by (simp add: of_char_of LEVELS_def)
  qed simp
qed

lemma ready_inject:
  assumes "l < LEVELS" "m < LEVELS"
  shows "ready (new_keys a) l = ready (new_keys b) m \<longleftrightarrow> a = b \<and> l = m"
  using assms digit_inject(1) by (simp add: ready_eq)

lemma ready_not_leased: "l < LEVELS \<Longrightarrow> ready (new_keys a) l \<noteq> k_leased (new_keys b)"
  using digit_inject(2) by (simp add: ready_eq leased_eq del: append_assoc)

lemma leased_no_level [simp]: "k_leased (new_keys b) \<notin> ready (new_keys a) ` {..<LEVELS}"
  using ready_not_leased [of _ a b] by force

lemma level_in [simp]: "l < LEVELS \<Longrightarrow> ready k l \<in> ready k ` {..<LEVELS}"
  by simp

lemma leased_inject: "k_leased (new_keys a) = k_leased (new_keys b) \<longleftrightarrow> a = b"
  "k_payload (new_keys a) = k_payload (new_keys b) \<longleftrightarrow> a = b"
  "k_attempt (new_keys a) = k_attempt (new_keys b) \<longleftrightarrow> a = b"
  by (simp_all add: new_keys_def)

lemma level_of_less [simp]: "level_of p < LEVELS"
  by (simp add: level_of_def LEVELS_def)

lemma job_keys_disjoint: "a \<noteq> b \<Longrightarrow> job_keys (new_keys a) \<inter> job_keys (new_keys b) = {}"
  using ready_inject [of _ _ a b] ready_not_leased [of _ a b] ready_not_leased [of _ b a]
  by (auto simp: job_keys_def leased_inject)

section \<open>Sorted sets\<close>

lemma zadd_members [simp]: "fst ` set (zadd i x z) = insert i (fst ` set z)"
  by (auto simp: zadd_def)

lemma zadd_distinct [simp]: "distinct (map fst z) \<Longrightarrow> distinct (map fst (zadd i x z))"
  by (auto simp: zadd_def distinct_map_filter)

lemma zadd_score [simp]: "map_of (zadd i x z) j = (if j = i then Some x else map_of z j)"
proof -
  have "j \<noteq> i \<Longrightarrow> map_of (filter (\<lambda>e. fst e \<noteq> i) z) j = map_of z j" by (induction z) auto
  then show ?thesis by (simp add: zadd_def)
qed

lemma fold_zadd_score: "map_of (fold (\<lambda>i. zadd i x) ids z) j = (if j \<in> set ids then Some x else map_of z j)"
  by (induction ids arbitrary: z) auto

lemma zrem_members [simp]: "fst ` set (zrem ids z) = fst ` set z - set ids"
  by (auto simp: zrem_def)

lemma zrem_distinct [simp]: "distinct (map fst z) \<Longrightarrow> distinct (map fst (zrem ids z))"
  by (simp add: zrem_def distinct_map_filter)

lemma zrem_none: "fst ` set z \<inter> set ids = {} \<Longrightarrow> zrem ids z = z"
  unfolding zrem_def by (rule filter_True) auto

lemma zrem_zrem: "zrem ys (zrem xs z) = zrem (xs @ ys) z"
  by (auto simp: zrem_def intro: filter_cong)

lemma fold_zadd_members [simp]: "fst ` set (fold (\<lambda>i. zadd i x) ids z) = fst ` set z \<union> set ids"
  by (induction ids arbitrary: z) auto

lemma fold_zadd_distinct [simp]: "distinct (map fst z) \<Longrightarrow> distinct (map fst (fold (\<lambda>i. zadd i x) ids z))"
  by (induction ids arbitrary: z) auto

lemma by_score_set: "set (by_score most z) = fst ` {e \<in> set z. snd e \<le> most}"
  by (simp add: by_score_def)

lemma by_score_distinct: "distinct (map fst z) \<Longrightarrow> distinct (by_score most z)"
  by (simp add: by_score_def distinct_map_sort_key distinct_map_filter)

lemma by_score_members: "set (by_score most z) \<subseteq> fst ` set z"
  by (auto simp: by_score_set)

section \<open>The claim\<close>

text \<open>A namespace is sound when no job is in two of its sets, or twice in one.\<close>

definition redis_inv :: "keys \<Rightarrow> server \<Rightarrow> bool" where
  "redis_inv k s \<longleftrightarrow> (\<forall>a \<in> job_keys k. distinct (map fst (zsets s a)))
   \<and> (\<forall>a \<in> job_keys k. \<forall>b \<in> job_keys k. a \<noteq> b \<longrightarrow> members s a \<inter> members s b = {})"

definition ready_ids :: "keys \<Rightarrow> server \<Rightarrow> i64 set" where
  "ready_ids k s = (\<Union>l<LEVELS. members s (ready k l))"

definition leased_ids :: "keys \<Rightarrow> server \<Rightarrow> i64 set" where
  "leased_ids k s = members s (k_leased k)"

text \<open>
  What a claim is meant to take: the due jobs, level by level and in each by due time, up to the
  limit. And the server once these are leased.
\<close>

definition due_jobs :: "keys \<Rightarrow> nat \<Rightarrow> nat list \<Rightarrow> server \<Rightarrow> i64 list" where
  "due_jobs k now levels s = concat (map (\<lambda>l. by_score now (zsets s (ready k l))) levels)"

definition without :: "keys \<Rightarrow> i64 list \<Rightarrow> server \<Rightarrow> server" where
  "without k ids s =
     s\<lparr>zsets := (\<lambda>key. if key \<in> ready k ` {..<LEVELS} then zrem ids (zsets s key) else zsets s key)\<rparr>"

definition leased_out :: "keys \<Rightarrow> nat \<Rightarrow> i64 list \<Rightarrow> server \<Rightarrow> server" where
  "leased_out k expires ids s = fold (claim_one k expires) ids (without k ids s)"

lemma claim_one_fold:
  "zsets (fold (claim_one k expires) ids s) = (zsets s)(k_leased k := fold (\<lambda>i. zadd i expires) ids (zsets s (k_leased k)))"
  "blobs (fold (claim_one k expires) ids s) = blobs s"
  by (induction ids arbitrary: s) (auto simp: claim_one_def)

lemma claim_one_counters:
  assumes "distinct ids"
  shows "counters (fold (claim_one k expires) ids s) key i =
    (if key = k_attempt k \<and> i \<in> set ids
     then Some (case counters s key i of None \<Rightarrow> 1 | Some n \<Rightarrow> n + 1) else counters s key i)"
  using assms by (induction ids arbitrary: s) (auto simp: claim_one_def)

lemma zrem_nil [simp]: "zrem [] z = z"
  by (simp add: zrem_def)

lemma without_nil [simp]: "without k [] s = s"
  by (rule server.equality) (simp_all add: without_def fun_eq_iff)

lemma without_claim_one:
  "without (new_keys ns) ids (claim_one (new_keys ns) expires i s) = claim_one (new_keys ns) expires i (without (new_keys ns) ids s)"
  by (rule server.equality) (simp_all add: without_def claim_one_def fun_eq_iff)

lemma without_fold:
  "without (new_keys ns) ids (fold (claim_one (new_keys ns) expires) xs s)
   = fold (claim_one (new_keys ns) expires) xs (without (new_keys ns) ids s)"
  by (induction xs arbitrary: s) (simp_all add: without_claim_one)

lemma without_append: "without k ys (without k xs s) = without k (xs @ ys) s"
  by (simp add: without_def zrem_zrem fun_eq_iff)

lemma leased_out_append:
  "leased_out (new_keys ns) e ys (leased_out (new_keys ns) e xs s) = leased_out (new_keys ns) e (xs @ ys) s"
  by (simp add: leased_out_def without_fold without_append)

lemma leased_out_sets:
  shows "l < LEVELS \<Longrightarrow> zsets (leased_out (new_keys ns) e ids s) (ready (new_keys ns) l) = zrem ids (zsets s (ready (new_keys ns) l))"
    and "zsets (leased_out (new_keys ns) e ids s) (k_leased (new_keys ns)) = fold (\<lambda>i. zadd i e) ids (zsets s (k_leased (new_keys ns)))"
    and "blobs (leased_out (new_keys ns) e ids s) = blobs s"
  using ready_not_leased [of l ns ns] by (simp_all add: leased_out_def claim_one_fold without_def)

lemma leased_out_ids:
  "ready_ids (new_keys ns) (leased_out (new_keys ns) e ids s) = ready_ids (new_keys ns) s - set ids"
  "leased_ids (new_keys ns) (leased_out (new_keys ns) e ids s) = leased_ids (new_keys ns) s \<union> set ids"
  by (auto simp: ready_ids_def leased_ids_def members_def leased_out_sets)

lemma redis_inv_disjoint:
  assumes "redis_inv (new_keys ns) s"
  shows "l < LEVELS \<Longrightarrow> m < LEVELS \<Longrightarrow> l \<noteq> m \<Longrightarrow> members s (ready (new_keys ns) l) \<inter> members s (ready (new_keys ns) m) = {}"
    and "l < LEVELS \<Longrightarrow> members s (ready (new_keys ns) l) \<inter> members s (k_leased (new_keys ns)) = {}"
    and "l < LEVELS \<Longrightarrow> distinct (map fst (zsets s (ready (new_keys ns) l)))"
    and "distinct (map fst (zsets s (k_leased (new_keys ns))))"
  using assms ready_inject [of l m ns ns] ready_not_leased [of l ns ns]
  by (simp_all add: redis_inv_def job_keys_def)

lemma redis_invI:
  assumes "\<And>l. l < LEVELS \<Longrightarrow> distinct (map fst (zsets s (ready (new_keys ns) l)))"
    and "distinct (map fst (zsets s (k_leased (new_keys ns))))"
    and "\<And>l m. l < LEVELS \<Longrightarrow> m < LEVELS \<Longrightarrow> l \<noteq> m \<Longrightarrow> members s (ready (new_keys ns) l) \<inter> members s (ready (new_keys ns) m) = {}"
    and "\<And>l. l < LEVELS \<Longrightarrow> members s (ready (new_keys ns) l) \<inter> members s (k_leased (new_keys ns)) = {}"
  shows "redis_inv (new_keys ns) s"
  unfolding redis_inv_def
proof (intro conjI ballI impI)
  fix a b assume "a \<in> job_keys (new_keys ns)" "b \<in> job_keys (new_keys ns)" "a \<noteq> b"
  then show "members s a \<inter> members s b = {}"
    using assms(3,4) unfolding job_keys_def by (elim UnE imageE singletonE) (simp; blast)+
qed (use assms(1,2) in \<open>auto simp: job_keys_def\<close>)

lemma leased_out_inv:
  assumes "redis_inv (new_keys ns) s" "set ids \<subseteq> ready_ids (new_keys ns) s"
  shows "redis_inv (new_keys ns) (leased_out (new_keys ns) e ids s)"
proof (rule redis_invI)
  fix l m assume "l < LEVELS" "m < LEVELS" "l \<noteq> m"
  then show "members (leased_out (new_keys ns) e ids s) (ready (new_keys ns) l)
      \<inter> members (leased_out (new_keys ns) e ids s) (ready (new_keys ns) m) = {}"
    using redis_inv_disjoint(1) [OF assms(1)] by (simp add: members_def leased_out_sets) blast
next
  fix l assume "l < LEVELS"
  then show "members (leased_out (new_keys ns) e ids s) (ready (new_keys ns) l)
      \<inter> members (leased_out (new_keys ns) e ids s) (k_leased (new_keys ns)) = {}"
    using redis_inv_disjoint(2) [OF assms(1)] by (simp add: members_def leased_out_sets) blast
qed (simp_all add: leased_out_sets redis_inv_disjoint [OF assms(1)])

lemma due_jobs_ready: "set levels \<subseteq> {..<LEVELS} \<Longrightarrow> set (due_jobs k now levels s) \<subseteq> ready_ids k s"
  using by_score_members by (fastforce simp: due_jobs_def ready_ids_def members_def)

lemma claim_level:
  assumes "redis_inv (new_keys ns) s" "level < LEVELS"
    and "set due \<subseteq> members s (ready (new_keys ns) level)"
  shows "fold (claim_one (new_keys ns) e) due
      (s\<lparr>zsets := (zsets s)(ready (new_keys ns) level := zrem due (zsets s (ready (new_keys ns) level)))\<rparr>)
    = leased_out (new_keys ns) e due s"
proof -
  have "zrem due (zsets s (ready (new_keys ns) m)) = zsets s (ready (new_keys ns) m)" if "m < LEVELS" "m \<noteq> level" for m
    using redis_inv_disjoint(1) [OF assms(1), of m level] that assms(2,3)
    by (intro zrem_none) (auto simp: members_def)
  then have "(zsets s)(ready (new_keys ns) level := zrem due (zsets s (ready (new_keys ns) level)))
      = zsets (without (new_keys ns) due s)"
    using assms(2) by (auto simp: without_def fun_eq_iff) metis
  then show ?thesis by (simp add: leased_out_def without_def)
qed

lemma due_jobs_leased_out:
  assumes "redis_inv (new_keys ns) s" "level < LEVELS" "set levels \<subseteq> {..<LEVELS}" "level \<notin> set levels"
    and "set due \<subseteq> members s (ready (new_keys ns) level)"
  shows "due_jobs (new_keys ns) now levels (leased_out (new_keys ns) e due s) = due_jobs (new_keys ns) now levels s"
proof -
  have "zrem due (zsets s (ready (new_keys ns) m)) = zsets s (ready (new_keys ns) m)" if "m \<in> set levels" for m
  proof (rule zrem_none)
    have "m < LEVELS" "m \<noteq> level" using that assms(3,4) by auto
    then show "fst ` set (zsets s (ready (new_keys ns) m)) \<inter> set due = {}"
      using redis_inv_disjoint(1) [OF assms(1), of m level] assms(2,5) unfolding members_def by blast
  qed
  then show ?thesis
    using assms(3) by (auto simp: due_jobs_def leased_out_sets(1) subset_iff intro!: arg_cong [of _ _ concat])
qed

lemma claim_from_spec:
  assumes "redis_inv (new_keys ns) s" "distinct levels" "set levels \<subseteq> {..<LEVELS}" "remaining \<le> cap"
  shows "claim_from cap (new_keys ns) now e levels remaining claimed s =
    (Inr (claimed @ take remaining (due_jobs (new_keys ns) now levels s)),
     leased_out (new_keys ns) e (take remaining (due_jobs (new_keys ns) now levels s)) s)"
  using assms
proof (induction levels arbitrary: remaining claimed s)
  case Nil
  then show ?case by (simp add: due_jobs_def leased_out_def)
next
  case (Cons level levels)
  let ?k = "new_keys ns" and ?all = "by_score now (zsets s (ready (new_keys ns) level))"
  define due where "due = take remaining ?all"
  have rest: "due_jobs ?k now (level # levels) s = ?all @ due_jobs ?k now levels s" by (simp add: due_jobs_def)
  have sub: "set due \<subseteq> members s (ready ?k level)"
    using by_score_members set_take_subset by (fastforce simp: due_def members_def)
  have lvl: "level < LEVELS" "level \<notin> set levels" "distinct levels" "set levels \<subseteq> {..<LEVELS}" using Cons.prems by simp_all
  consider "remaining = 0" | "remaining \<noteq> 0" "due = []" | "remaining \<noteq> 0" "due \<noteq> []" by blast
  then show ?case
  proof cases
    case 1
    then show ?thesis by (simp add: leased_out_def)
  next
    case 2
    then have "?all = []" by (simp add: due_def)
    then show ?thesis
      using Cons.IH [OF Cons.prems(1) lvl(3,4) Cons.prems(4), of claimed] 2 rest by (simp add: due_def zrangebyscore_def)
  next
    case 3
    have len: "\<not> cap < length due" using Cons.prems(4) by (simp add: due_def)
    have split: "take remaining (?all @ due_jobs ?k now levels s) = due @ take (remaining - length due) (due_jobs ?k now levels s)"
      by (simp add: due_def min_def)
    have inv: "redis_inv ?k (leased_out ?k e due s)"
      using sub lvl(1) by (intro leased_out_inv [OF Cons.prems(1)]) (auto simp: ready_ids_def)
    from 3 len have "claim_from cap ?k now e (level # levels) remaining claimed s
      = claim_from cap ?k now e levels (remaining - length due) (claimed @ due) (leased_out ?k e due s)"
      by (simp add: zrangebyscore_def due_def [symmetric] claim_level [OF Cons.prems(1) lvl(1) sub])
    also have "\<dots> = (Inr ((claimed @ due) @ take (remaining - length due) (due_jobs ?k now levels s)),
        leased_out ?k e (due @ take (remaining - length due) (due_jobs ?k now levels s)) s)"
      using Cons.IH [OF inv lvl(3,4), of "remaining - length due" "claimed @ due"] Cons.prems(4)
      by (simp add: due_jobs_leased_out [OF Cons.prems(1) lvl(1,4,2) sub] leased_out_append)
    finally show ?thesis unfolding rest split by simp
  qed
qed

lemma due_jobs_distinct:
  assumes "redis_inv (new_keys ns) s" "distinct levels" "set levels \<subseteq> {..<LEVELS}"
  shows "distinct (due_jobs (new_keys ns) now levels s)"
  using assms(2,3)
proof (induction levels)
  case (Cons l levels)
  have "set (by_score now (zsets s (ready (new_keys ns) l))) \<inter> set (due_jobs (new_keys ns) now levels s) = {}"
  proof -
    have "set (by_score now (zsets s (ready (new_keys ns) l))) \<inter> set (by_score now (zsets s (ready (new_keys ns) m))) = {}"
      if "m \<in> set levels" for m
    proof -
      have "l < LEVELS" "m < LEVELS" "l \<noteq> m" using Cons.prems that by auto
      from redis_inv_disjoint(1) [OF assms(1) this] show ?thesis
        using by_score_members [of now "zsets s (ready (new_keys ns) l)"]
          by_score_members [of now "zsets s (ready (new_keys ns) m)"] unfolding members_def by blast
    qed
    then show ?thesis by (auto simp: due_jobs_def)
  qed
  then show ?case
    using Cons redis_inv_disjoint(3) [OF assms(1)] by (simp add: due_jobs_def by_score_distinct)
qed (simp add: due_jobs_def)

lemma CLAIM_spec:
  assumes "redis_inv (new_keys ns) s" "limit \<le> cap"
  shows "CLAIM cap (new_keys ns) now limit e s =
    (Inr (take limit (due_jobs (new_keys ns) now [0..<LEVELS] s)),
     leased_out (new_keys ns) e (take limit (due_jobs (new_keys ns) now [0..<LEVELS] s)) s)"
  using claim_from_spec [OF assms(1), of "[0..<LEVELS]"] assms(2) by (simp add: CLAIM_def lessThan_atLeast0)

lemma due_now:
  assumes "redis_inv (new_keys ns) s"
  shows "set (take limit (due_jobs (new_keys ns) now [0..<LEVELS] s)) \<subseteq> ready_ids (new_keys ns) s"
    "distinct (take limit (due_jobs (new_keys ns) now [0..<LEVELS] s))"
  using due_jobs_ready [of "[0..<LEVELS]" "new_keys ns" now s] set_take_subset
    due_jobs_distinct [OF assms, of "[0..<LEVELS]"] by (fastforce simp: lessThan_atLeast0)+

section \<open>The contract of the queue\<close>

text \<open>A claim whose limit the Lua stack can hold, with room to spare.\<close>

record claim_args =
  ca_limit :: nat
  ca_spare :: nat
  ca_now :: nat
  ca_expires :: nat

definition run_claim :: "string \<Rightarrow> claim_args \<Rightarrow> server \<Rightarrow> i64 list \<times> server" where
  "run_claim ns c s =
     (case CLAIM (ca_limit c + ca_spare c) (new_keys ns) (ca_now c) (ca_limit c) (ca_expires c) s of
        (Inl e, s') \<Rightarrow> ([], s') | (Inr ids, s') \<Rightarrow> (ids, s'))"

interpretation redis_queue: work_queue "redis_inv (new_keys ns)" "ready_ids (new_keys ns)" "leased_ids (new_keys ns)" "run_claim ns"
proof unfold_locales
  fix s assume inv: "redis_inv (new_keys ns) s"
  show "ready_ids (new_keys ns) s \<inter> leased_ids (new_keys ns) s = {}"
    using redis_inv_disjoint(2) [OF inv] by (auto simp: ready_ids_def leased_ids_def)
  fix c ids s' assume "run_claim ns c s = (ids, s')"
  then have eqs: "ids = take (ca_limit c) (due_jobs (new_keys ns) (ca_now c) [0..<LEVELS] s)"
      "s' = leased_out (new_keys ns) (ca_expires c) ids s"
    by (auto simp: run_claim_def CLAIM_spec [OF inv])
  show "set ids \<subseteq> ready_ids (new_keys ns) s" "distinct ids" unfolding eqs(1) by (rule due_now [OF inv])+
  then show "redis_inv (new_keys ns) s'" unfolding eqs(2) by (intro leased_out_inv [OF inv])
  show "ready_ids (new_keys ns) s' = ready_ids (new_keys ns) s - set ids"
    "leased_ids (new_keys ns) s' = leased_ids (new_keys ns) s \<union> set ids"
    unfolding eqs(2) by (rule leased_out_ids)+
qed

text \<open>Two jobs at the first level, due at 5 and 3, and a more patient one at the third.\<close>

definition stock :: server where
  "stock = empty_server\<lparr>zsets := (zsets empty_server)
     (ready (new_keys ''gylo'') 0 := [(1, 5), (2, 3)], ready (new_keys ''gylo'') 2 := [(3, 0)])\<rparr>"

lemma stock_sets:
  "l < LEVELS \<Longrightarrow> zsets stock (ready (new_keys ''gylo'') l) = (if l = 0 then [(1, 5), (2, 3)] else if l = 2 then [(3, 0)] else [])"
  "zsets stock (k_leased (new_keys ''gylo'')) = []"
  using ready_not_leased [of 0 "''gylo''" "''gylo''"] ready_not_leased [of 2 "''gylo''" "''gylo''"]
  by (auto simp: stock_def empty_server_def ready_inject LEVELS_def)

lemma stock_inv: "redis_inv (new_keys ''gylo'') stock"
  by (rule redis_invI) (auto simp: members_def stock_sets)

text \<open>
  C19: The claim of the Redis backend is exclusive. On a sound namespace, no sequence of claims
  by any workers hands the same job out twice, and exactly the jobs handed out move from the
  ready sets to the leases.
\<close>

theorem redis_claims_never_overlap:
  assumes "redis_inv (new_keys ns) s" "claims (run_claim ns) cs s = (idss, s')"
  shows "distinct (concat idss) \<and> set (concat idss) \<subseteq> ready_ids (new_keys ns) s
    \<and> ready_ids (new_keys ns) s' = ready_ids (new_keys ns) s - set (concat idss)
    \<and> leased_ids (new_keys ns) s' = leased_ids (new_keys ns) s \<union> set (concat idss)"
  using redis_queue.claims_exclusive [OF assms] by blast

definition two_claims :: "claim_args list" where
  "two_claims = [\<lparr>ca_limit = 1, ca_spare = 9, ca_now = 10, ca_expires = 40\<rparr>, \<lparr>ca_limit = 2, ca_spare = 0, ca_now = 10, ca_expires = 50\<rparr>]"

theorem redis_claims_never_overlap_witness:
  "fst (claims (run_claim ''gylo'') two_claims stock) = [[2], [1, 3]]
   \<and> distinct (concat (fst (claims (run_claim ''gylo'') two_claims stock)))"
proof (rule conjI)
  show "fst (claims (run_claim ''gylo'') two_claims stock) = [[2], [1, 3]]" by code_simp
  show "distinct (concat (fst (claims (run_claim ''gylo'') two_claims stock)))"
    using redis_claims_never_overlap [OF stock_inv prod.collapse [symmetric], of two_claims] by blast
qed

text \<open>
  C20: The claim script is its reference. On a sound namespace, with a limit the Lua stack can
  hold, the loop over the levels returns exactly the first due jobs in the order of level, then
  due time, leases each of them until the time asked for, counts one more attempt for it, and
  leaves a sound namespace.
\<close>

theorem claim_takes_the_most_urgent_due_jobs:
  fixes now expires :: nat
  assumes "redis_inv (new_keys ns) s" "limit \<le> cap"
  defines "picked \<equiv> take limit (due_jobs (new_keys ns) now [0..<LEVELS] s)"
  defines "s' \<equiv> snd (CLAIM cap (new_keys ns) now limit expires s)"
  shows "fst (CLAIM cap (new_keys ns) now limit expires s) = Inr picked \<and> redis_inv (new_keys ns) s'
    \<and> (\<forall>i \<in> set picked. map_of (zsets s' (k_leased (new_keys ns))) i = Some expires
        \<and> counters s' (k_attempt (new_keys ns)) i =
            Some (case counters s (k_attempt (new_keys ns)) i of None \<Rightarrow> 1 | Some n \<Rightarrow> n + 1))"
proof -
  have run: "fst (CLAIM cap (new_keys ns) now limit expires s) = Inr picked" "s' = leased_out (new_keys ns) expires picked s"
    using CLAIM_spec [OF assms(1,2)] by (simp_all add: picked_def s'_def)
  have sub: "set picked \<subseteq> ready_ids (new_keys ns) s" "distinct picked"
    unfolding picked_def by (rule due_now [OF assms(1)])+
  show ?thesis
    using run sub leased_out_inv [OF assms(1) sub(1)] claim_one_counters [OF sub(2)]
    by (simp add: leased_out_sets fold_zadd_score) (simp add: leased_out_def without_def)
qed

theorem claim_takes_the_most_urgent_due_jobs_witness:
  "fst (CLAIM 9 (new_keys ''gylo'') 10 2 40 stock) = Inr [2, 1]
   \<and> redis_inv (new_keys ''gylo'') (snd (CLAIM 9 (new_keys ''gylo'') 10 2 40 stock))"
proof (rule conjI)
  show "fst (CLAIM 9 (new_keys ''gylo'') 10 2 40 stock) = Inr [2, 1]" by code_simp
  show "redis_inv (new_keys ''gylo'') (snd (CLAIM 9 (new_keys ''gylo'') 10 2 40 stock))"
    using claim_takes_the_most_urgent_due_jobs [OF stock_inv, of 2 9] by simp
qed

section \<open>Namespaces\<close>

datatype redis_call =
    REnqueue i64 string bytes i16 i16 duration
  | RFetch nat duration
  | RComplete "i64 list"
  | RRetry i64 i16 duration
  | RRenew "i64 list" duration
  | RAbandon "i64 list"
  | RDiscard "i64 list"
  | RReclaim nat
  | RClear

fun redis_exec :: "nat \<Rightarrow> stored_pack \<Rightarrow> link \<Rightarrow> keys \<Rightarrow> redis_call \<Rightarrow> server \<Rightarrow> server" where
  "redis_exec cap sp v k (REnqueue i t p prio attempts delay) s = snd (redis_enqueue sp v k i t p prio attempts delay s)"
| "redis_exec cap sp v k (RFetch limit lease) s = snd (redis_fetch cap sp v k limit lease s)"
| "redis_exec cap sp v k (RComplete ids) s = snd (redis_complete v k ids s)"
| "redis_exec cap sp v k (RRetry i prio delay) s = snd (redis_retry v k i prio delay s)"
| "redis_exec cap sp v k (RRenew ids lease) s = snd (redis_renew v k ids lease s)"
| "redis_exec cap sp v k (RAbandon ids) s = snd (redis_abandon v k ids s)"
| "redis_exec cap sp v k (RDiscard ids) s = snd (redis_discard v k ids s)"
| "redis_exec cap sp v k (RReclaim limit) s = snd (redis_reclaim_expired cap v k limit s)"
| "redis_exec cap sp v k RClear s = snd (redis_clear v k s)"

text \<open>Two servers hold the same for a namespace.\<close>

definition same_for :: "keys \<Rightarrow> server \<Rightarrow> server \<Rightarrow> bool" where
  "same_for k s s' \<longleftrightarrow> (\<forall>key \<in> job_keys k. zsets s' key = zsets s key)
   \<and> blobs s' (k_payload k) = blobs s (k_payload k) \<and> counters s' (k_attempt k) = counters s (k_attempt k)"

lemma same_for_refl [simp]: "same_for k s s"
  by (simp add: same_for_def)

lemma same_for_trans: "same_for k s t \<Longrightarrow> same_for k t u \<Longrightarrow> same_for k s u"
  by (simp add: same_for_def)

lemma same_for_round_trip:
  assumes "meanwhile v = (\<lambda>_ s. s)" "same_for k s (snd (request s))"
  shows "same_for k s (snd (round_trip v n request s))"
  using assms by (cases "request s") (auto simp: round_trip_def Let_def split: fault.split)

lemma foreign_key:
  assumes "a \<noteq> b" "key \<in> job_keys (new_keys b)"
  shows "key \<noteq> k_leased (new_keys a)" "l < LEVELS \<Longrightarrow> key \<noteq> ready (new_keys a) l"
proof -
  have "k_leased (new_keys a) \<in> job_keys (new_keys a)" by (simp add: job_keys_def)
  then show "key \<noteq> k_leased (new_keys a)" using job_keys_disjoint [OF assms(1)] assms(2) by blast
  assume "l < LEVELS"
  then have "ready (new_keys a) l \<in> job_keys (new_keys a)" by (simp add: job_keys_def)
  then show "key \<noteq> ready (new_keys a) l" using job_keys_disjoint [OF assms(1)] assms(2) by blast
qed

lemmas foreign = same_for_def foreign_key leased_inject

lemma same_for_claim_one: "a \<noteq> b \<Longrightarrow> same_for (new_keys b) s (fold (claim_one (new_keys a) e) ids s)"
  by (induction ids arbitrary: s) (auto simp: claim_one_def foreign)

lemma same_for_claim:
  assumes "a \<noteq> b" "set levels \<subseteq> {..<LEVELS}"
  shows "same_for (new_keys b) s (snd (claim_from cap (new_keys a) now e levels remaining claimed s))"
  using assms(2)
proof (induction levels arbitrary: remaining claimed s)
  case (Cons l levels)
  let ?due = "zrangebyscore now remaining (zsets s (ready (new_keys a) l))"
  let ?s1 = "s\<lparr>zsets := (zsets s)(ready (new_keys a) l := zrem ?due (zsets s (ready (new_keys a) l)))\<rparr>"
  have "same_for (new_keys b) s ?s1" using Cons.prems assms(1) by (auto simp: foreign)
  then have "same_for (new_keys b) s (fold (claim_one (new_keys a) e) ?due ?s1)"
    using same_for_claim_one [OF assms(1)] same_for_trans by blast
  then show ?case using Cons same_for_trans by (simp add: Let_def)
qed simp

lemma same_for_renew: "a \<noteq> b \<Longrightarrow> same_for (new_keys b) s (snd (renew_from (new_keys a) e ids n s))"
proof (induction ids arbitrary: n s)
  case (Cons i ids)
  let ?s1 = "s\<lparr>zsets := (zsets s)(k_leased (new_keys a) := zadd i e (zsets s (k_leased (new_keys a))))\<rparr>"
  have "same_for (new_keys b) s ?s1" using Cons.prems by (simp add: foreign)
  from same_for_trans [OF this Cons.IH [OF Cons.prems]] Cons.IH [OF Cons.prems] show ?case by simp
qed simp

lemma same_for_complete:
  assumes "meanwhile v = (\<lambda>_ s. s)" "a \<noteq> b"
  shows "same_for (new_keys b) s (snd (redis_complete v (new_keys a) ids s))"
proof (cases "ids = []")
  case False
  then show ?thesis
    using assms(2) by (simp add: redis_complete_def) (rule same_for_round_trip [OF assms(1)], simp add: foreign)
qed (simp add: redis_complete_def)

lemma same_for_fetch:
  assumes "meanwhile v = (\<lambda>_ s. s)" "a \<noteq> b"
  shows "same_for (new_keys b) s (snd (redis_fetch cap sp v (new_keys a) limit lease s))"
proof -
  define claim where "claim = round_trip v 0 (CLAIM cap (new_keys a) (now_millis v 1) limit (later v 0 lease)) s"
  have "same_for (new_keys b) s (snd claim)"
    unfolding claim_def CLAIM_def by (rule same_for_round_trip [OF assms(1)], rule same_for_claim [OF assms(2)]) auto
  moreover have "snd (round_trip v n (hmget_blobs k ids) s) = s" "snd (round_trip v n (hmget_counters k ids) s) = s" for n k ids s
    using assms(1) by (simp_all add: round_trip_def hmget_blobs_def hmget_counters_def Let_def split: fault.split)
  then have "snd (redis_fetch cap sp v (new_keys a) limit lease s) = snd claim"
    unfolding redis_fetch_def claim_def [symmetric]
    by (auto split: prod.split sum.split) (metis snd_conv)+
  ultimately show ?thesis by simp
qed

text \<open>
  Deployments that share a server do not meet. Whatever an operation of one namespace does,
  and however its round trips fail, every ready set, lease, payload and attempt counter of any
  other namespace is as it was, clearing the namespace included.
\<close>

theorem redis_namespaces_are_isolated:
  assumes "meanwhile v = (\<lambda>_ s. s)" "a \<noteq> b"
  shows "same_for (new_keys b) s (redis_exec cap sp v (new_keys a) c s)"
proof (cases c)
  case (REnqueue i t p prio attempts delay)
  have "same_for (new_keys b) s (snd (redis_enqueue sp v (new_keys a) i t p prio attempts delay s))"
    unfolding redis_enqueue_def using assms(2)
    by (auto split: sum.split intro!: same_for_round_trip [OF assms(1)]) (auto simp: foreign)
  then show ?thesis by (simp add: REnqueue)
next
  case (RFetch limit lease)
  then show ?thesis by (simp add: same_for_fetch [OF assms])
next
  case (RRenew ids lease)
  then show ?thesis
    using assms(2)
    by (auto simp: redis_renew_def RENEW_def same_for_renew prod.case_eq_if intro!: same_for_round_trip [OF assms(1)])
next
  case (RAbandon ids)
  let ?drop = "round_trip v 0 (\<lambda>s. (Inr (length (filter (\<lambda>e. fst e \<in> set ids) (zsets s (k_leased (new_keys a))))),
      s\<lparr>zsets := (zsets s)(k_leased (new_keys a) := zrem ids (zsets s (k_leased (new_keys a))))\<rparr>)) s"
  let ?put = "\<lambda>n. round_trip v 1 (\<lambda>s. (Inr n, s\<lparr>zsets := (zsets s)
      (ready (new_keys a) 0 := fold (\<lambda>i. zadd i (now_millis v 0)) ids (zsets s (ready (new_keys a) 0)))\<rparr>))"
  obtain r u where drop: "?drop = (r, u)" by (cases ?drop)
  have "same_for (new_keys b) s (snd ?drop)"
    by (rule same_for_round_trip [OF assms(1)]) (use assms(2) in \<open>simp add: foreign\<close>)
  then have first: "same_for (new_keys b) s u" by (simp only: drop snd_conv)
  have "same_for (new_keys b) u (snd (?put n u))" for n :: nat
    by (rule same_for_round_trip [OF assms(1)]) (use assms(2) in \<open>simp add: foreign LEVELS_def\<close>)
  from first same_for_trans [OF first this] show ?thesis
    by (cases r) (simp_all add: RAbandon redis_abandon_def drop del: One_nat_def)
next
  case (RReclaim limit)
  have "same_for (new_keys b) s (snd (RECLAIM cap (new_keys a) (now_millis v 0) limit s))"
    using assms(2) by (simp add: RECLAIM_def Let_def LEVELS_def foreign)
  then show ?thesis
    unfolding RReclaim redis_exec.simps redis_reclaim_expired_def by (rule same_for_round_trip [OF assms(1)])
next
  case RClear
  have "key \<notin> ready (new_keys a) ` {..<LEVELS} \<union> {k_leased (new_keys a)}" if "key \<in> job_keys (new_keys b)" for key
    using foreign_key [OF assms(2) that] by auto
  then show ?thesis
    using assms(2) by (simp add: RClear redis_clear_def) (rule same_for_round_trip [OF assms(1)], simp add: same_for_def leased_inject)
next
  case (RRetry i prio delay)
  then show ?thesis
    using assms(2) by (simp add: redis_retry_def) (rule same_for_round_trip [OF assms(1)], simp add: foreign)
qed (simp_all add: redis_discard_def same_for_complete [OF assms])

theorem redis_namespaces_are_isolated_witness:
  "zsets (redis_exec 9 plain_pack (calm 10) (new_keys ''other'') RClear stock) (ready (new_keys ''gylo'') 0) = [(1, 5), (2, 3)]"
  using redis_namespaces_are_isolated [of "calm 10" "''other''" "''gylo''" stock 9 plain_pack RClear] stock_sets(1) [of 0]
  by (simp add: calm_def same_for_def job_keys_def LEVELS_def)

section \<open>Delivery\<close>

text \<open>
  Every job of the namespace has a stored payload that reads back as that job, and its attempts
  can still be counted in an \<open>i16\<close>.
\<close>

definition stocked :: "stored_pack \<Rightarrow> keys \<Rightarrow> server \<Rightarrow> bool" where
  "stocked sp k s \<longleftrightarrow> (\<forall>i \<in> ready_ids k s.
      (\<exists>b x. blobs s (k_payload k) i = Some b \<and> from_slice sp b = Inr x \<and> st_id x = i)
    \<and> (case counters s (k_attempt k) i of None \<Rightarrow> True | Some n \<Rightarrow> 0 \<le> n \<and> n < 32767))"

lemma collect_ok_all:
  assumes "list_all2 (\<lambda>r x. r = Inr x) rs xs"
  shows "collect_ok rs = Inr xs"
  using assms by (induction rule: list_all2_induct) simp_all

lemma collect_ok_error: "Inl e \<in> set rs \<Longrightarrow> \<exists>e'. collect_ok rs = Inl e'"
proof (induction rs)
  case (Cons r rs)
  then show ?case by (cases r) (auto split: sum.split)
qed simp

text \<open>The jobs a claim on a calm link delivers.\<close>

definition delivered :: "stored_pack \<Rightarrow> keys \<Rightarrow> server \<Rightarrow> i64 list \<Rightarrow> (redis_error, job) result list" where
  "delivered sp k s ids =
     map (\<lambda>i. job_of sp i (blobs s (k_payload k) i) (map_option word_of_int (counters s (k_attempt k) i))) ids"

lemma calm_round_trip [simp]: "round_trip (calm now) n request s = request s"
  by (simp add: round_trip_def calm_def split: prod.split)

lemma calm_now [simp]: "now_millis (calm now) n = as_f64 now"
  by (simp add: now_millis_def calm_def)

lemma zip_map_triple: "zip xs (zip (map f xs) (map g xs)) = map (\<lambda>x. (x, f x, g x)) xs"
  by (induction xs) simp_all

lemma redis_fetch_calm:
  fixes now limit :: nat and lease :: duration
  assumes "redis_inv (new_keys ns) s" "limit \<le> cap"
  defines "picked \<equiv> take limit (due_jobs (new_keys ns) (as_f64 now) [0..<LEVELS] s)"
  defines "s' \<equiv> leased_out (new_keys ns) (later (calm now) 0 lease) picked s"
  shows "snd (redis_fetch cap sp (calm now) (new_keys ns) limit lease s) = s'"
    "fst (redis_fetch cap sp (calm now) (new_keys ns) limit lease s) =
      (if list_ex (\<lambda>i. case counters s' (k_attempt (new_keys ns)) i of None \<Rightarrow> False | Some n \<Rightarrow> n < - 32768 \<or> 32767 < n) picked
       then Inl (RedisError BadReply) else collect_ok (delivered sp (new_keys ns) s' picked))"
  unfolding redis_fetch_def calm_round_trip calm_now CLAIM_spec [OF assms(1,2)] picked_def [symmetric] s'_def [symmetric]
  by (auto simp: s'_def leased_out_def hmget_blobs_def hmget_counters_def Let_def delivered_def zip_map_triple o_def
      list_ex_iff)

lemma leased_out_counters:
  "distinct ids \<Longrightarrow> counters (leased_out k e ids s) (k_attempt k) i =
    (if i \<in> set ids then Some (case counters s (k_attempt k) i of None \<Rightarrow> 1 | Some n \<Rightarrow> n + 1) else counters s (k_attempt k) i)"
  by (simp add: leased_out_def claim_one_counters) (simp add: without_def)

lemma enqueued_server:
  fixes delay :: duration and s :: server and ns :: string and prio :: i16 and now :: nat
  assumes "to_vec sp \<lparr>st_id = i, st_task = t, st_payload = p, st_max_attempts = m\<rparr> = Inr b"
  defines "s' \<equiv> snd (redis_enqueue sp (calm now) (new_keys ns) i t p prio m delay s)"
  shows "l < LEVELS \<Longrightarrow> zsets s' (ready (new_keys ns) l) =
      (if l = level_of prio then zadd i (later (calm now) 0 delay) (zsets s (ready (new_keys ns) l))
       else zsets s (ready (new_keys ns) l))"
    "zsets s' (k_leased (new_keys ns)) = zsets s (k_leased (new_keys ns))"
    "blobs s' (k_payload (new_keys ns)) = (blobs s (k_payload (new_keys ns)))(i \<mapsto> b)" "counters s' = counters s"
  using assms(1) ready_inject [of l "level_of prio" ns ns] ready_not_leased [of "level_of prio" ns ns]
  by (auto simp: s'_def redis_enqueue_def)

text \<open>A new job keeps the namespace sound and stocked.\<close>

lemma enqueue_sound:
  fixes delay :: duration and prio :: i16 and now :: nat
  assumes "redis_inv (new_keys ns) s" "stocked sp (new_keys ns) s" "stored_pack_ok sp"
    and "i \<notin> ready_ids (new_keys ns) s \<union> leased_ids (new_keys ns) s" "counters s (k_attempt (new_keys ns)) i = None"
    and "to_vec sp \<lparr>st_id = i, st_task = t, st_payload = p, st_max_attempts = m\<rparr> = Inr b"
  defines "s' \<equiv> snd (redis_enqueue sp (calm now) (new_keys ns) i t p prio m delay s)"
  shows "redis_inv (new_keys ns) s'" "stocked sp (new_keys ns) s'" "ready_ids (new_keys ns) s' = insert i (ready_ids (new_keys ns) s)"
proof -
  note sets = enqueued_server [OF assms(6), where now = now and ns = ns and prio = prio and delay = delay and s = s, folded s'_def]
  have mem: "members s' (ready (new_keys ns) l) = (if l = level_of prio then insert i else id) (members s (ready (new_keys ns) l))"
    if "l < LEVELS" for l using that by (simp add: members_def sets(1))
  have leased: "members s' (k_leased (new_keys ns)) = members s (k_leased (new_keys ns))" by (simp add: members_def sets(2))
  have fresh: "i \<notin> members s (k_leased (new_keys ns))" "l < LEVELS \<Longrightarrow> i \<notin> members s (ready (new_keys ns) l)" for l
    using assms(4) by (auto simp: ready_ids_def leased_ids_def)
  show "redis_inv (new_keys ns) s'"
    by (rule redis_invI) (auto simp: sets mem leased fresh redis_inv_disjoint [OF assms(1)])
  show ids: "ready_ids (new_keys ns) s' = insert i (ready_ids (new_keys ns) s)"
    using level_of_less [of prio]
    by (auto simp: ready_ids_def mem split: if_splits) (rule bexI [of _ "level_of prio"]; simp)
  have "from_slice sp b = Inr \<lparr>st_id = i, st_task = t, st_payload = p, st_max_attempts = m\<rparr>"
    using assms(3,6) by (simp add: stored_pack_ok_def)
  then show "stocked sp (new_keys ns) s'"
    using assms(2,5) by (auto simp: stocked_def ids sets(3,4))
qed

text \<open>
  What is enqueued is delivered. After a new job is enqueued on a sound, stocked namespace,
  a fetch that is due to take it returns, in the order of the claim, exactly the jobs claimed,
  and this one with its task, payload and limit as given and counted as its first attempt.
\<close>

theorem redis_job_round_trip:
  fixes delay lease :: duration and prio :: i16 and now then_at limit :: nat
  assumes "redis_inv (new_keys ns) s" "stocked sp (new_keys ns) s" "stored_pack_ok sp"
    and "i \<notin> ready_ids (new_keys ns) s \<union> leased_ids (new_keys ns) s" "counters s (k_attempt (new_keys ns)) i = None"
    and "to_vec sp \<lparr>st_id = i, st_task = t, st_payload = p, st_max_attempts = m\<rparr> = Inr b" "limit \<le> cap"
  defines "s1 \<equiv> snd (redis_enqueue sp (calm now) (new_keys ns) i t p prio m delay s)"
  defines "picked \<equiv> take limit (due_jobs (new_keys ns) (as_f64 then_at) [0..<LEVELS] s1)"
  assumes "i \<in> set picked"
  shows "\<exists>js. fst (redis_fetch cap sp (calm then_at) (new_keys ns) limit lease s1) = Inr js \<and> map job_id js = picked
    \<and> \<lparr>job_id = i, job_task = t, job_payload = p, job_attempt = 1, job_max_attempts = m, job_durable = False\<rparr> \<in> set js"
proof -
  let ?k = "new_keys ns"
  note sound = enqueue_sound [OF assms(1-6), where now = now and prio = prio and delay = delay, folded s1_def]
  note sets = enqueued_server [OF assms(6), where now = now and ns = ns and prio = prio and delay = delay and s = s, folded s1_def]
  define s2 where "s2 = leased_out ?k (later (calm then_at) 0 lease) picked s1"
  have sub: "set picked \<subseteq> ready_ids ?k s1" "distinct picked" unfolding picked_def by (rule due_now [OF sound(1)])+
  have at: "counters s2 (k_attempt ?k) j = Some (case counters s1 (k_attempt ?k) j of None \<Rightarrow> 1 | Some n \<Rightarrow> n + 1)"
    and blob: "blobs s2 = blobs s1" if "j \<in> set picked" for j
    using that by (simp_all add: s2_def leased_out_counters [OF sub(2)] leased_out_sets(3))
  have range: "\<not> list_ex (\<lambda>i. case counters s2 (k_attempt ?k) i of None \<Rightarrow> False | Some n \<Rightarrow> n < - 32768 \<or> 32767 < n) picked"
    using sound(2) sub(1) by (auto simp: list_ex_iff at stocked_def split: option.splits) force+
  have "\<exists>x. r = Inr x \<and> job_id x = j" if "j \<in> set picked"
      "r = job_of sp j (blobs s2 (k_payload ?k) j) (map_option word_of_int (counters s2 (k_attempt ?k) j))" for j r
  proof -
    have "j \<in> ready_ids ?k s1" using that(1) sub(1) by blast
    then obtain b' x where "blobs s1 (k_payload ?k) j = Some b'" "from_slice sp b' = Inr x" "st_id x = j"
      using sound(2) unfolding stocked_def by blast
    then show ?thesis using that by (simp add: blob [OF that(1)] job_of_def)
  qed
  then obtain f where f: "\<And>j. j \<in> set picked \<Longrightarrow>
      job_of sp j (blobs s2 (k_payload ?k) j) (map_option word_of_int (counters s2 (k_attempt ?k) j)) = Inr (f j) \<and> job_id (f j) = j"
    by metis
  then have "collect_ok (delivered sp ?k s2 picked) = Inr (map f picked)"
    by (intro collect_ok_all) (simp add: delivered_def list_all2_map1 list_all2_map2 list_all2_same)
  then have "fst (redis_fetch cap sp (calm then_at) ?k limit lease s1) = Inr (map f picked)"
    using redis_fetch_calm(2) [OF sound(1) assms(7), where now = then_at and lease = lease and sp = sp, folded picked_def, folded s2_def] range
    by simp
  moreover have "map job_id (map f picked) = picked" using f by (simp add: o_def cong: map_cong)
  moreover have "f i = \<lparr>job_id = i, job_task = t, job_payload = p, job_attempt = 1, job_max_attempts = m, job_durable = False\<rparr>"
    using f [OF assms(10)] assms(3,5,6) by (auto simp: job_of_def blob [OF assms(10)] at [OF assms(10)] sets stored_pack_ok_def)
  ultimately show ?thesis using assms(10) by (intro exI [of _ "map f picked"]) force
qed

lemma empty_server_sound:
  "redis_inv k empty_server" "stocked sp k empty_server" "ready_ids k empty_server = {}" "leased_ids k empty_server = {}"
  by (simp_all add: redis_inv_def stocked_def ready_ids_def leased_ids_def members_def empty_server_def)

definition one_job_server :: server where
  "one_job_server = snd (redis_enqueue plain_pack (calm 10) (new_keys ''gylo'') 7 ''send'' [1] 3 20 0 empty_server)"

theorem redis_job_round_trip_witness:
  "\<exists>js. fst (redis_fetch 9 plain_pack (calm 20) (new_keys ''gylo'') 1 30000 one_job_server) = Inr js
     \<and> map job_id js = [7]
     \<and> \<lparr>job_id = 7, job_task = ''send'', job_payload = [1], job_attempt = 1, job_max_attempts = 20, job_durable = False\<rparr> \<in> set js"
proof -
  obtain b where vec: "to_vec plain_pack \<lparr>st_id = 7, st_task = ''send'', st_payload = [1], st_max_attempts = 20\<rparr> = Inr b"
    by (simp add: plain_pack_def)
  have "zsets one_job_server (ready (new_keys ''gylo'') l) = (if l = 3 then [(7, 10)] else [])" if "l < LEVELS" for l
    unfolding one_job_server_def enqueued_server(1) [OF vec that]
    by (simp add: level_of_def LEVELS_def zadd_def later_def calm_def now_millis_def as_f64_def add_f64_def empty_server_def)
  then have picked: "take 1 (due_jobs (new_keys ''gylo'') (as_f64 20) [0..<LEVELS] one_job_server) = [7]"
    by (simp add: due_jobs_def LEVELS_def upt_rec by_score_def as_f64_def)
  from redis_job_round_trip [OF empty_server_sound(1,2) plain_pack_ok _ _ vec, where now = 10 and then_at = 20 and limit = 1
      and cap = 9 and prio = 3 and delay = 0 and ns = "''gylo''" and lease = 30000, folded one_job_server_def, unfolded picked]
  show ?thesis by (simp add: empty_server_sound) (simp add: empty_server_def)
qed

section \<open>Reports that come too late\<close>

lemma revived_server:
  fixes t1 t2 :: nat and ns :: string and s :: server and i :: i64
  defines "s2 \<equiv> snd (redis_abandon (calm t2) (new_keys ns) [i] (snd (redis_complete (calm t1) (new_keys ns) [i] s)))"
  shows "l < LEVELS \<Longrightarrow> zsets s2 (ready (new_keys ns) l) =
      (if l = 0 then zadd i (as_f64 t2) (zsets s (ready (new_keys ns) 0)) else zsets s (ready (new_keys ns) l))"
    "zsets s2 (k_leased (new_keys ns)) = zrem [i] (zsets s (k_leased (new_keys ns)))"
    "blobs s2 (k_payload (new_keys ns)) i = None"
proof -
  have "(0 :: nat) < LEVELS" by (simp add: LEVELS_def)
  then show "l < LEVELS \<Longrightarrow> zsets s2 (ready (new_keys ns) l) =
      (if l = 0 then zadd i (as_f64 t2) (zsets s (ready (new_keys ns) 0)) else zsets s (ready (new_keys ns) l))"
    "zsets s2 (k_leased (new_keys ns)) = zrem [i] (zsets s (k_leased (new_keys ns)))"
    "blobs s2 (k_payload (new_keys ns)) i = None"
    using ready_inject [of l 0 ns ns] ready_not_leased [of l ns ns] ready_not_leased [of 0 ns ns]
    by (auto simp: s2_def redis_abandon_def redis_complete_def zrem_zrem) (auto simp: zrem_def)
qed

text \<open>
  A late report can revive a finished job and fail the fetches of others. When a worker
  abandons a job that has been completed in the meantime, the job is put back in the ready set
  although its payload is gone; the fetch that claims it returns an error, and every other job
  of that claim stays leased without having been delivered to anyone.
\<close>

theorem abandon_after_completion_fails_a_fetch:
  fixes lease :: duration and now t1 t2 limit :: nat
  assumes "redis_inv (new_keys ns) s" "i \<in> leased_ids (new_keys ns) s" "limit \<le> cap"
  defines "s1 \<equiv> snd (redis_complete (calm t1) (new_keys ns) [i] s)"
  defines "s2 \<equiv> snd (redis_abandon (calm t2) (new_keys ns) [i] s1)"
  defines "picked \<equiv> take limit (due_jobs (new_keys ns) (as_f64 now) [0..<LEVELS] s2)"
  assumes "i \<in> set picked"
  shows "(\<exists>e. fst (redis_fetch cap sp (calm now) (new_keys ns) limit lease s2) = Inl e)
    \<and> set picked \<subseteq> leased_ids (new_keys ns) (snd (redis_fetch cap sp (calm now) (new_keys ns) limit lease s2))"
proof -
  let ?k = "new_keys ns"
  have lvl: "(0 :: nat) < LEVELS" by (simp add: LEVELS_def)
  note sets = revived_server [where ns = ns and i = i and s = s and ?t1.0 = t1 and ?t2.0 = t2, folded s1_def, folded s2_def]
  have mem: "members s2 (ready ?k l) = (if l = 0 then insert i else id) (members s (ready ?k l))"
    "members s2 (k_leased ?k) = members s (k_leased ?k) - {i}" "i \<notin> members s (ready ?k l)"
    "members s (ready ?k l) \<inter> (members s (k_leased ?k) - {i}) = {}" if "l < LEVELS" for l
    using redis_inv_disjoint(2) [OF assms(1) that] assms(2) that by (auto simp: members_def sets leased_ids_def)
  have inv: "redis_inv ?k s2"
    using lvl by (intro redis_invI) (auto simp: sets mem redis_inv_disjoint [OF assms(1)])
  let ?s3 = "leased_out ?k (later (calm now) 0 lease) picked s2"
  have "Inl (Payload i) \<in> set (delivered sp ?k ?s3 picked)"
    using assms(7) sets(3) by (force simp: delivered_def job_of_def leased_out_sets(3))
  then have "\<exists>e. fst (redis_fetch cap sp (calm now) ?k limit lease s2) = Inl e"
    using redis_fetch_calm(2) [OF inv assms(3), where now = now and lease = lease and sp = sp, folded picked_def] collect_ok_error
    by auto
  moreover have "set picked \<subseteq> leased_ids ?k (snd (redis_fetch cap sp (calm now) ?k limit lease s2))"
    using redis_fetch_calm(1) [OF inv assms(3), where now = now and lease = lease and sp = sp, folded picked_def]
    by (simp add: leased_out_ids)
  ultimately show ?thesis by blast
qed

definition held_stock :: server where
  "held_stock = stock\<lparr>zsets := (zsets stock)(k_leased (new_keys ''gylo'') := [(5, 40)])\<rparr>"

lemma held_stock_sets:
  "l < LEVELS \<Longrightarrow> zsets held_stock (ready (new_keys ''gylo'') l) = zsets stock (ready (new_keys ''gylo'') l)"
  "zsets held_stock (k_leased (new_keys ''gylo'')) = [(5, 40)]"
  using ready_not_leased [of l "''gylo''" "''gylo''"] by (simp_all add: held_stock_def)

lemma held_stock_inv: "redis_inv (new_keys ''gylo'') held_stock" "5 \<in> leased_ids (new_keys ''gylo'') held_stock"
  by (auto simp: members_def stock_sets held_stock_sets leased_ids_def intro!: redis_invI split: if_splits)

theorem abandon_after_completion_fails_a_fetch_witness:
  "\<exists>e. fst (redis_fetch 9 plain_pack (calm 50) (new_keys ''gylo'') 3 30000
      (snd (redis_abandon (calm 20) (new_keys ''gylo'') [5] (snd (redis_complete (calm 10) (new_keys ''gylo'') [5] held_stock))))) = Inl e"
proof -
  let ?s2 = "snd (redis_abandon (calm 20) (new_keys ''gylo'') [5] (snd (redis_complete (calm 10) (new_keys ''gylo'') [5] held_stock)))"
  have "zsets ?s2 (ready (new_keys ''gylo'') l) = (if l = 0 then [(5, 20), (1, 5), (2, 3)] else if l = 2 then [(3, 0)] else [])"
    if "l < LEVELS" for l
    unfolding revived_server(1) [OF that] held_stock_sets(1) [OF that]
    by (simp add: LEVELS_def held_stock_sets stock_sets that [unfolded LEVELS_def] zadd_def as_f64_def)
  then have picked: "5 \<in> set (take 3 (due_jobs (new_keys ''gylo'') (as_f64 50) [0..<LEVELS] ?s2))"
    by (simp add: due_jobs_def LEVELS_def upt_rec by_score_def as_f64_def)
  have limit: "(3 :: nat) \<le> 9" by simp
  show ?thesis by (rule abandon_after_completion_fails_a_fetch [OF held_stock_inv limit picked, THEN conjunct1])
qed

text \<open>A renewal pushes out a lease whoever holds it by now.\<close>

lemma renew_extends_any_lease:
  assumes "i \<in> leased_ids k s" "i \<in> set ids"
  shows "map_of (zsets (snd (redis_renew (calm now) k ids lease s)) (k_leased k)) i = Some (later (calm now) 0 lease)"
proof -
  have "map_of (zsets (snd (renew_from k e ids n s)) (k_leased k)) i = Some e"
    if "map_of (zsets s (k_leased k)) i = Some e \<or> i \<in> set ids \<and> i \<in> members s (k_leased k)" for e n
    using that
  proof (induction ids arbitrary: n s)
    case (Cons j ids)
    let ?s1 = "s\<lparr>zsets := (zsets s)(k_leased k := zadd j e (zsets s (k_leased k)))\<rparr>"
    show ?case
    proof (cases "j \<in> members s (k_leased k)")
      case True
      have "map_of (zsets ?s1 (k_leased k)) i = Some e \<or> i \<in> set ids \<and> i \<in> members ?s1 (k_leased k)"
        using Cons.prems by (simp add: members_def) blast
      from Cons.IH [OF this] True show ?thesis by simp
    next
      case False
      then have "map_of (zsets s (k_leased k)) i = Some e \<or> i \<in> set ids \<and> i \<in> members s (k_leased k)"
        using Cons.prems by auto
      from Cons.IH [OF this] False show ?thesis by simp
    qed
  qed simp
  then show ?thesis using assms by (cases ids) (auto simp: redis_renew_def RENEW_def leased_ids_def prod.case_eq_if)
qed

end
