(* ===== verification/Supervisor.thy ===== *)
theory Supervisor
  imports Statements Capability
begin

text \<open>
  The supervisor of the worker process (\<open>crates/gylo-worker/src/lib.rs\<close>): its configuration and
  the checks at startup, the set of jobs in flight, what becomes of them when a session ends,
  the restarts of a child, and the maintenance loops, each one turn at a time. Tasks, sockets and
  timers are the runtime's; a turn of a loop is a function here, its statements run in given
  surroundings, and readings of the monotonic clock are arguments.
\<close>

section \<open>Configuration\<close>

type_synonym u32 = "32 word"

record config =
  cfg_queues :: "string list"
  cfg_processes :: nat
  cfg_concurrency :: nat
  cfg_batch :: i64
  cfg_lease :: duration
  cfg_poll_interval :: duration
  cfg_completion_batch :: nat
  cfg_completion_linger :: duration
  cfg_maintenance_interval :: duration
  cfg_reclaim_limit :: i64
  cfg_retain_completed :: duration
  cfg_retain_discarded :: duration
  cfg_prune_batch :: i64
  cfg_retry_base :: duration
  cfg_retry_cap :: duration
  cfg_max_restarts :: u32
  cfg_cron_limit :: i64
  cfg_python :: string
  cfg_app :: string
  cfg_python_path :: "string option"
  cfg_env :: "(string \<times> string) list"
  cfg_requires :: "feature list"

abbreviation (input) from_secs :: "nat \<Rightarrow> duration" where "from_secs n \<equiv> n * 1000000"
abbreviation (input) from_millis :: "nat \<Rightarrow> duration" where "from_millis n \<equiv> n * 1000"

definition default_config :: "nat option \<Rightarrow> config" where
  "default_config cores =
     \<lparr>cfg_queues = [''default''], cfg_processes = (case cores of None \<Rightarrow> 1 | Some n \<Rightarrow> n),
      cfg_concurrency = 256, cfg_batch = 128, cfg_lease = from_secs 30,
      cfg_poll_interval = from_millis 200, cfg_completion_batch = 100,
      cfg_completion_linger = from_millis 5, cfg_maintenance_interval = from_secs 10,
      cfg_reclaim_limit = 1000, cfg_retain_completed = from_secs (24 * 3600),
      cfg_retain_discarded = from_secs (7 * 24 * 3600), cfg_prune_batch = 5000,
      cfg_retry_base = from_secs 1, cfg_retry_cap = from_secs 3600, cfg_max_restarts = 8,
      cfg_cron_limit = 100, cfg_python = ''python3'', cfg_app = [], cfg_python_path = None,
      cfg_env = [], cfg_requires = []\<rparr>"

text \<open>Why a configuration is refused, with the values the message quotes.\<close>

datatype config_error =
    AppNotSet
  | NoQueues
  | NoProcesses
  | NoConcurrency
  | BatchTooSmall i64
  | MaintenanceTooSlow duration duration

datatype worker_error =
    Io string
  | DatabaseError pg_error
  | ProtocolError protocol_error
  | HandshakeTimeout duration
  | ChildExited string
  | ConfigRefused config_error
  | Lacking unsupported

definition validate :: "config \<Rightarrow> (config_error, unit) result" where
  "validate cfg =
     (if cfg_app cfg = [] then Inl AppNotSet
      else if cfg_queues cfg = [] then Inl NoQueues
      else if cfg_processes cfg = 0 then Inl NoProcesses
      else if cfg_concurrency cfg = 0 then Inl NoConcurrency
      else if sint (cfg_batch cfg) < 1 then Inl (BatchTooSmall (cfg_batch cfg))
      else if cfg_lease cfg \<le> cfg_maintenance_interval cfg
      then Inl (MaintenanceTooSlow (cfg_maintenance_interval cfg) (cfg_lease cfg))
      else Inr ())"

text \<open>The checks \<open>run\<close> makes before it starts anything.\<close>

definition startup :: "config \<Rightarrow> (worker_error, unit) result" where
  "startup cfg =
     (case validate cfg of
        Inl e \<Rightarrow> Inl (ConfigRefused e)
      | Inr _ \<Rightarrow>
          (case require PG_CAPABILITIES (cfg_requires cfg) of
             Inl u \<Rightarrow> Inl (Lacking u)
           | Inr _ \<Rightarrow> Inr ()))"

text \<open>
  The loop of \<open>run\<close> over the children as they end: \<open>None\<close> is one whose task panicked. The first
  error is the worker's and cancels the others.
\<close>

fun join_children ::
  "(worker_error, unit) result option list \<Rightarrow> (worker_error, unit) result \<Rightarrow> bool \<Rightarrow> (worker_error, unit) result \<times> bool"
where
  "join_children [] outcome cancelled = (outcome, cancelled)"
| "join_children (joined # rest) outcome cancelled =
     (case joined of
        Some (Inl e) \<Rightarrow>
          if is_ok outcome then join_children rest (Inl e) True else join_children rest outcome cancelled
      | _ \<Rightarrow> join_children rest outcome cancelled)"

section \<open>Jobs in flight\<close>

text \<open>
  The hash set of identifiers is a list without repetitions, in the order an iteration would
  give. \<open>freed\<close> is the stored permit of a notification, \<open>drained\<close> counts the wake-ups sent.
\<close>

record in_flight =
  held_now :: "i64 list"
  fl_limit :: nat
  freed :: bool
  drained :: nat

definition new_in_flight :: "nat \<Rightarrow> in_flight" where
  "new_in_flight limit = \<lparr>held_now = [], fl_limit = limit, freed = False, drained = 0\<rparr>"

definition held_count :: "in_flight \<Rightarrow> nat" where
  "held_count fl = length (held_now fl)"

definition available :: "in_flight \<Rightarrow> nat" where
  "available fl = fl_limit fl - held_count fl"

definition is_idle :: "in_flight \<Rightarrow> bool" where
  "is_idle fl \<longleftrightarrow> held_count fl = 0"

definition snapshot :: "in_flight \<Rightarrow> i64 list" where
  "snapshot fl = held_now fl"

definition take_held :: "in_flight \<Rightarrow> i64 list \<times> in_flight" where
  "take_held fl = (held_now fl, fl\<lparr>held_now := []\<rparr>)"

definition reserve :: "i64 list \<Rightarrow> in_flight \<Rightarrow> in_flight" where
  "reserve ids fl = fl\<lparr>held_now := held_now fl @ filter (\<lambda>i. i \<notin> set (held_now fl)) (remdups ids)\<rparr>"

definition release :: "i64 list \<Rightarrow> in_flight \<Rightarrow> in_flight" where
  "release ids fl =
     (if ids = [] then fl
      else
        let left = filter (\<lambda>i. i \<notin> set ids) (held_now fl) in
        fl\<lparr>held_now := left, drained := (if left = [] then drained fl + 1 else drained fl), freed := True\<rparr>)"

section \<open>The turns of the loops\<close>

text \<open>The surroundings from statement \<open>k\<close> on.\<close>

definition shift :: "nat \<Rightarrow> env \<Rightarrow> env" where
  "shift k v =
     \<lparr>clock = (\<lambda>n. clock v (k + n)), skips = (\<lambda>n. skips v (k + n)), others = (\<lambda>n. others v (k + n)),
      faults = (\<lambda>n. faults v (k + n))\<rparr>"

definition hand_back :: "env \<Rightarrow> in_flight \<Rightarrow> config \<Rightarrow> uuid \<Rightarrow> db \<Rightarrow> in_flight \<times> db" where
  "hand_back v fl cfg worker d =
     (let (held, fl1) = take_held fl in
      if held = [] then (fl1, d)
      else
        (case run_stmt v 0 (\<lambda>now _. abandon_leases now held worker) d of
           (Inl e, d1) \<Rightarrow> (fl1, d1)
         | (Inr _, d1) \<Rightarrow> (fl1, snd (run_stmt v 1 (\<lambda>now _. reclaim_expired (sint (cfg_reclaim_limit cfg)) now) d1))))"

definition renew_turn :: "env \<Rightarrow> config \<Rightarrow> uuid \<Rightarrow> in_flight \<Rightarrow> db \<Rightarrow> db" where
  "renew_turn v cfg worker fl d =
     (let held = snapshot fl in
      if held = [] then d
      else snd (run_stmt v 0 (\<lambda>now _. renew_leases now held worker (cfg_lease cfg)) d))"

fun sample_depths :: "env \<Rightarrow> string list \<Rightarrow> db \<Rightarrow> (string \<times> depth) list \<times> db" where
  "sample_depths v [] d = ([], d)"
| "sample_depths v (q # qs) d =
     (let (r, d1) = run_stmt v 0 (\<lambda>now _. depth_of now q) d; (seen, d2) = sample_depths (shift 1 v) qs d1
      in (case r of Inl _ \<Rightarrow> seen | Inr n \<Rightarrow> (q, n) # seen, d2))"

text \<open>The three parts of a turn of \<open>recover\<close> have their own surroundings.\<close>

definition recover_turn ::
  "('tz, 'cron) cron_crate \<Rightarrow> env \<Rightarrow> env \<Rightarrow> env \<Rightarrow> int \<Rightarrow> config \<Rightarrow> db \<Rightarrow> db"
where
  "recover_turn lib sampling firing sweeping t cfg d =
     (let d1 = snd (sample_depths sampling (cfg_queues cfg) d);
          d2 = snd (fire_due_schedules lib firing t (sint (cfg_cron_limit cfg)) d1)
      in snd (run_stmt sweeping 0 (\<lambda>now _. reclaim_expired (sint (cfg_reclaim_limit cfg)) now) d2))"

definition TICK_BUDGET :: duration where
  "TICK_BUDGET = from_secs 5"

text \<open>
  The pruning loop of \<open>retain\<close>. \<open>elapsed\<close> gives the time since the turn began, at each
  iteration; \<open>prune_batch as u64\<close> reads a negative batch as a huge one. A run of iterations
  that outlasts the fuel is \<open>None\<close>.
\<close>

fun retain_loop ::
  "nat \<Rightarrow> env \<Rightarrow> (nat \<Rightarrow> duration) \<Rightarrow> config \<Rightarrow> nat \<Rightarrow> nat \<Rightarrow> db \<Rightarrow> (nat \<times> nat \<times> db) option"
where
  "retain_loop 0 v elapsed cfg k removed d = None"
| "retain_loop (Suc fuel) v elapsed cfg k removed d =
     (case run_stmt v k (prune_completed (cfg_retain_completed cfg) None (sint (cfg_prune_batch cfg))) d of
        (Inl e, d1) \<Rightarrow> Some (Suc k, removed, d1)
      | (Inr batch, d1) \<Rightarrow>
          if batch < unat (cfg_prune_batch cfg) \<or> TICK_BUDGET < elapsed k
          then Some (Suc k, removed + batch, d1)
          else retain_loop fuel v elapsed cfg (Suc k) (removed + batch) d1)"

definition retain_turn :: "nat \<Rightarrow> env \<Rightarrow> (nat \<Rightarrow> duration) \<Rightarrow> config \<Rightarrow> db \<Rightarrow> (nat \<times> db) option" where
  "retain_turn fuel v elapsed cfg d =
     (case retain_loop fuel v elapsed cfg 0 0 d of
        None \<Rightarrow> None
      | Some (k, removed, d1) \<Rightarrow>
          let (removed2, d2) =
                (if elapsed k \<le> TICK_BUDGET
                 then case run_stmt v k (prune_discarded (cfg_retain_discarded cfg) None (sint (cfg_prune_batch cfg))) d1 of
                        (Inl e, d2) \<Rightarrow> (removed, d2)
                      | (Inr n, d2) \<Rightarrow> (removed + n, d2)
                 else (removed, d1))
          in Some (removed2, if 0 < removed2 then snd (run_stmt v (Suc k) (\<lambda>_ _. prune_workflows) d2) else d2))"

section \<open>Restarts\<close>

definition RESTART_DELAY :: duration where "RESTART_DELAY = from_millis 250"
definition RESTART_CEILING :: duration where "RESTART_CEILING = from_secs 30"
definition HEALTHY_SESSION :: duration where "HEALTHY_SESSION = from_secs 30"

definition restart_delay :: "u32 \<Rightarrow> duration" where
  "restart_delay consecutive = min (RESTART_DELAY * 2 ^ min (unat (consecutive - 1)) 16) RESTART_CEILING"

text \<open>
  A session, as what it did to the jobs in flight and the database, how long it lasted and how it
  ended. The list holds the sessions begun before a shutdown was asked for, each with the
  surroundings in which its jobs are handed back.
\<close>

type_synonym session = "in_flight \<times> db \<Rightarrow> ((worker_error, unit) result \<times> duration) \<times> in_flight \<times> db"

fun supervise ::
  "config \<Rightarrow> uuid \<Rightarrow> u32 \<Rightarrow> (env \<times> session) list \<Rightarrow> in_flight \<times> db \<Rightarrow>
   (worker_error, unit) result \<times> duration list \<times> in_flight \<times> db"
where
  "supervise cfg worker consecutive [] s = (Inr (), [], s)"
| "supervise cfg worker consecutive ((v, session) # rest) s =
     (case session s of
        ((Inr _, _), s1) \<Rightarrow> (Inr (), [], s1)
      | ((Inl e, elapsed), s1) \<Rightarrow>
          let c = (if HEALTHY_SESSION \<le> elapsed then 0 else consecutive) + 1;
              s2 = hand_back v (fst s1) cfg worker (snd s1)
          in if cfg_max_restarts cfg < c then (Inl e, [], s2)
             else let (outcome, delays, s3) = supervise cfg worker c rest s2
                  in (outcome, restart_delay c # delays, s3))"

section \<open>The last words of a child\<close>

definition LINE_CAP :: nat where "LINE_CAP = 8 * 1024"
definition LAST_WORDS :: nat where "LAST_WORDS = 20"

text \<open>
  \<open>String::from_utf8_lossy\<close>: valid characters are kept; the longest part that could still have
  begun a character, or else one byte, becomes U+FFFD.
\<close>

fun char_len :: "nat list \<Rightarrow> bool \<times> nat" where
  "char_len [] = (True, 0)"
| "char_len (b # bs) =
     (if b \<le> 0x7F then (True, 1)
      else if 0xC2 \<le> b \<and> b \<le> 0xDF then
        (case bs of c # _ \<Rightarrow> if cont c then (True, 2) else (False, 1) | _ \<Rightarrow> (False, 1))
      else if 0xE0 \<le> b \<and> b \<le> 0xEF then
        (case bs of
           c # r \<Rightarrow>
             if cont c \<and> (b = 0xE0 \<longrightarrow> 0xA0 \<le> c) \<and> (b = 0xED \<longrightarrow> c \<le> 0x9F)
             then (case r of d # _ \<Rightarrow> if cont d then (True, 3) else (False, 2) | _ \<Rightarrow> (False, 2))
             else (False, 1)
         | _ \<Rightarrow> (False, 1))
      else if 0xF0 \<le> b \<and> b \<le> 0xF4 then
        (case bs of
           c # r \<Rightarrow>
             if cont c \<and> (b = 0xF0 \<longrightarrow> 0x90 \<le> c) \<and> (b = 0xF4 \<longrightarrow> c \<le> 0x8F)
             then (case r of
                     d # r2 \<Rightarrow>
                       if cont d
                       then (case r2 of e # _ \<Rightarrow> if cont e then (True, 4) else (False, 3) | _ \<Rightarrow> (False, 3))
                       else (False, 2)
                   | _ \<Rightarrow> (False, 2))
             else (False, 1)
         | _ \<Rightarrow> (False, 1))
      else (False, 1))"

lemma char_len_pos: "0 < snd (char_len (b # bs))"
  by (auto split: list.splits)

function lossy :: "bytes \<Rightarrow> string" where
  "lossy [] = []"
| "lossy (b # bs) =
     (let (valid, n) = char_len (map unat (b # bs)) in
      (if valid then map byte_char (take n (b # bs)) else map byte_char [0xEF, 0xBF, 0xBD])
      @ lossy (drop n (b # bs)))"
  by pat_completeness auto
termination
proof (relation "measure length")
  fix b :: byte and bs x valid n
  assume "x = char_len (map unat (b # bs))" "(valid, n) = x"
  then have "0 < n" using char_len_pos [of "unat b" "map unat bs"] by (metis list.simps(9) snd_conv)
  then show "(drop n (b # bs), b # bs) \<in> measure length" by simp
qed simp

declare lossy.simps(2) [simp del]

record last_words =
  lw_lines :: "string list"
  lw_line :: bytes
  lw_truncated :: bool

definition silent :: last_words where
  "silent = \<lparr>lw_lines = [], lw_line = [], lw_truncated = False\<rparr>"

definition emit :: "last_words \<Rightarrow> last_words" where
  "emit w =
     (let rendered = lossy (lw_line w) @ (if lw_truncated w then '' [truncated]'' else []);
          held = (if length (lw_lines w) = LAST_WORDS then tl (lw_lines w) else lw_lines w)
      in \<lparr>lw_lines = held @ [rendered], lw_line = [], lw_truncated = False\<rparr>)"

definition watch_byte :: "byte \<Rightarrow> last_words \<Rightarrow> last_words" where
  "watch_byte b w =
     (if b = 10 then emit w
      else if length (lw_line w) < LINE_CAP then w\<lparr>lw_line := lw_line w @ [b]\<rparr>
      else w\<lparr>lw_truncated := True\<rparr>)"

definition watch_end :: "last_words \<Rightarrow> last_words" where
  "watch_end w = (if lw_line w \<noteq> [] then emit w else w)"

definition watch :: "bytes list \<Rightarrow> last_words" where
  "watch chunks = watch_end (fold (fold watch_byte) chunks silent)"

definition tail :: "last_words \<Rightarrow> string" where
  "tail w =
     (case find (\<lambda>l. split_whitespace_count l \<noteq> 0 \<and> (l = [] \<or> hd l \<noteq> CHR '' '')) (rev (lw_lines w)) of
        None \<Rightarrow> [] | Some l \<Rightarrow> l)"

definition exited :: "string \<Rightarrow> last_words \<Rightarrow> worker_error" where
  "exited reported said =
     ChildExited (if tail said = [] then reported else reported @ '': '' @ tail said)"

section \<open>The turns issue statements\<close>

text \<open>
  A call is well behaved when it takes the database from one state to another by statements of
  the backend; surroundings are orderly when what others do is.
\<close>

abbreviation db_steps :: "db \<Rightarrow> db \<Rightarrow> bool" where
  "db_steps \<equiv> db_step\<^sup>*\<^sup>*"

definition orderly :: "env \<Rightarrow> bool" where
  "orderly v \<longleftrightarrow> (\<forall>k d. db_steps d (others v k d))"

definition statement :: "(int \<Rightarrow> i64 list \<Rightarrow> 'a op) \<Rightarrow> bool" where
  "statement stmt \<longleftrightarrow> (\<forall>now skip d. db_steps d (snd (stmt now skip d)))"

lemma statement_exec:
  assumes "\<And>now skip d. call_ok (c now skip) \<and> snd (stmt now skip d) = exec now (c now skip) d"
  shows "statement stmt"
  unfolding statement_def using assms db_stepI r_into_rtranclp by metis

lemma statement_read: "(\<And>now skip d. snd (stmt now skip d) = d) \<Longrightarrow> statement stmt"
  by (simp add: statement_def)

lemma statement_prune_workflows: "statement (\<lambda>_ _. prune_workflows)"
  by (rule statement_exec [of "\<lambda>_ _. PruneWorkflows"]) simp

lemma run_stmt_steps:
  assumes "orderly v" "statement stmt"
  shows "db_steps d (snd (run_stmt v k stmt d))"
proof -
  have "db_steps d (others v k d)" using assms(1) by (simp add: orderly_def)
  moreover have "db_steps (others v k d) (snd (stmt (clock v k) (skips v k) (others v k d)))"
    using assms(2) by (simp add: statement_def)
  ultimately show ?thesis
    by (cases "stmt (clock v k) (skips v k) (others v k d)")
      (auto simp: run_stmt_def Let_def split: fault.splits intro: rtranclp_trans)
qed

lemma run_stmt_steps': "orderly v \<Longrightarrow> statement stmt \<Longrightarrow> run_stmt v k stmt d = (r, d') \<Longrightarrow> db_steps d d'"
  using run_stmt_steps [of v stmt d k] by simp

lemma orderly_shift [simp]: "orderly v \<Longrightarrow> orderly (shift k v)"
  by (simp add: orderly_def shift_def)

lemma orderly_quiet [simp]: "orderly (quiet now)"
  by (simp add: orderly_def quiet_def)

section \<open>What every statement of a worker keeps\<close>

text \<open>
  The calls a worker makes under its own name. A relation between databases that is a preorder and
  that each of these calls keeps, at the times \<open>T\<close> allows, is kept by every turn of every loop, whatever
  fails, as long as other sessions keep it too. The loops are followed once, for any such relation.
\<close>

fun made_by :: "uuid \<Rightarrow> call \<Rightarrow> bool" where
  "made_by w (FetchUnkeyed qs limit w' l skip) = (w' = w)"
| "made_by w (FetchKeyed qs limit w' l skip) = (w' = w)"
| "made_by w (Renew ids w' l) = (w' = w)"
| "made_by w (Abandon ids w') = (w' = w)"
| "made_by w (CompleteJobs ids rs w') = (w' = w)"
| "made_by w (Retry random ids errs w' base cap) = (w' = w)"
| "made_by w (Discard ids errs w') = (w' = w)"
| "made_by w (Reclaim limit) = True"
| "made_by w (RecordStep i name v) = True"
| "made_by w (UpsertCron e next_run) = True"
| "made_by w (FireCron name next_run) = True"
| "made_by w (Prune dead older_than q limit skip) = True"
| "made_by w PruneWorkflows = True"
| "made_by w _ = False"

definition surroundings :: "(db \<Rightarrow> db \<Rightarrow> bool) \<Rightarrow> (int \<Rightarrow> bool) \<Rightarrow> env \<Rightarrow> bool" where
  "surroundings S T v \<longleftrightarrow> (\<forall>k. T (clock v k) \<and> (\<forall>d. S d (others v k d)))"

lemma surroundings_shift [simp]: "surroundings S T v \<Longrightarrow> surroundings S T (shift k v)"
  by (simp add: surroundings_def shift_def)

lemma orderly_surroundings: "orderly v \<longleftrightarrow> surroundings db_steps (\<lambda>_. True) v"
  by (simp add: orderly_def surroundings_def)

locale kept_by_worker =
  fixes S :: "db \<Rightarrow> db \<Rightarrow> bool" and T :: "int \<Rightarrow> bool" and w :: uuid
  assumes kept_refl: "S d d"
    and kept_trans: "S d d1 \<Longrightarrow> S d1 d2 \<Longrightarrow> S d d2"
    and kept_call: "T now \<Longrightarrow> made_by w c \<Longrightarrow> S d (exec now c d)"
begin

lemma run_kept:
  assumes "surroundings S T v" "\<And>now skip d. T now \<Longrightarrow> S d (snd (stmt now skip d))"
  shows "S d (snd (run_stmt v k stmt d))"
proof -
  have "S d (others v k d)" "T (clock v k)" using assms(1) by (simp_all add: surroundings_def)
  then show ?thesis
    using assms(2) [of "clock v k" "others v k d" "skips v k"]
    by (cases "stmt (clock v k) (skips v k) (others v k d)")
      (auto simp: run_stmt_def Let_def split: fault.splits intro: kept_trans)
qed

lemma run_call_kept:
  assumes "surroundings S T v" "\<And>now skip. made_by w (c now skip)" "\<And>now skip d. snd (stmt now skip d) = exec now (c now skip) d"
  shows "S d (snd (run_stmt v k stmt d))"
  by (rule run_kept [OF assms(1)]) (simp add: assms(2,3) kept_call)

lemma run_read_kept:
  assumes "surroundings S T v" "\<And>now skip d. snd (stmt now skip d) = d"
  shows "S d (snd (run_stmt v k stmt d))"
  by (rule run_kept [OF assms(1)]) (simp add: assms(2) kept_refl)

lemma renew_kept: "surroundings S T v \<Longrightarrow> S d (snd (run_stmt v k (\<lambda>now _. renew_leases now ids w l) d))"
  by (rule run_call_kept [where c = "\<lambda>_ _. Renew ids w l"]) simp_all

lemma abandon_kept: "surroundings S T v \<Longrightarrow> S d (snd (run_stmt v k (\<lambda>now _. abandon_leases now ids w) d))"
  by (rule run_call_kept [where c = "\<lambda>_ _. Abandon ids w"]) simp_all

lemma reclaim_kept: "surroundings S T v \<Longrightarrow> S d (snd (run_stmt v k (\<lambda>now _. reclaim_expired limit now) d))"
  by (rule run_call_kept [where c = "\<lambda>_ _. Reclaim limit"]) simp_all

lemma upsert_kept: "surroundings S T v \<Longrightarrow> S d (snd (run_stmt v k (\<lambda>now _. upsert_cron now e n) d))"
  by (rule run_call_kept [where c = "\<lambda>_ _. UpsertCron e n"]) simp_all

lemma fire_kept: "surroundings S T v \<Longrightarrow> S d (snd (run_stmt v k (\<lambda>now _. fire_cron name n now) d))"
  by (rule run_call_kept [where c = "\<lambda>_ _. FireCron name n"]) simp_all

lemma prune_kept:
  "surroundings S T v \<Longrightarrow> S d (snd (run_stmt v k (prune_completed older_than q limit) d))"
  "surroundings S T v \<Longrightarrow> S d (snd (run_stmt v k (prune_discarded older_than q limit) d))"
  by (rule run_call_kept [where c = "\<lambda>_ skip. Prune False older_than q limit skip"]; simp add: prune_completed_def)
    (rule run_call_kept [where c = "\<lambda>_ skip. Prune True older_than q limit skip"]; simp add: prune_discarded_def)

lemma prune_workflows_kept: "surroundings S T v \<Longrightarrow> S d (snd (run_stmt v k (\<lambda>_ _. prune_workflows) d))"
  by (rule run_call_kept [where c = "\<lambda>_ _. PruneWorkflows"]) simp_all

lemma hand_back_kept:
  assumes "surroundings S T v"
  shows "S d (snd (hand_back v fl cfg w d))"
proof -
  let ?held = "fst (take_held fl)"
  obtain r d1 where run: "run_stmt v 0 (\<lambda>now _. abandon_leases now ?held w) d = (r, d1)" by fastforce
  have "S d d1" using abandon_kept [OF assms, of d 0 ?held] by (simp add: run)
  then show ?thesis
    using kept_trans [OF _ reclaim_kept [OF assms], of d d1] kept_refl
    by (auto simp: hand_back_def Let_def prod.case_eq_if run split: sum.split)
qed

lemma renew_turn_kept: "surroundings S T v \<Longrightarrow> S d (renew_turn v cfg w fl d)"
  by (simp add: renew_turn_def Let_def renew_kept kept_refl)

lemma sample_depths_kept: "surroundings S T v \<Longrightarrow> S d (snd (sample_depths v qs d))"
proof (induction qs arbitrary: v d)
  case (Cons q qs)
  obtain r d1 where run: "run_stmt v 0 (\<lambda>now _. depth_of now q) d = (r, d1)" by fastforce
  have "S d (snd (run_stmt v 0 (\<lambda>now _. depth_of now q) d))"
    by (rule run_read_kept [OF Cons.prems]) (simp add: depth_of_def bind_text_def)
  moreover have "S d1 (snd (sample_depths (shift 1 v) qs d1))" using Cons by simp
  ultimately show ?case by (auto simp: run split: prod.split intro: kept_trans)
qed (simp add: kept_refl)

lemma fire_each_kept: "surroundings S T v \<Longrightarrow> S d (snd (fire_each lib v t k es d))"
proof (induction es arbitrary: k d)
  case (Cons e es)
  show ?case
  proof (cases "next_run_of lib (dc_expression e) (dc_timezone e) t")
    case (Inr n)
    obtain r d1 where run: "run_stmt v k (\<lambda>now _. fire_cron (dc_name e) n now) d = (r, d1)" by fastforce
    have "S d d1" using fire_kept [OF Cons.prems, of d k "dc_name e" n] by (simp add: run)
    moreover have "S d1 (snd (fire_each lib v t (Suc k) es d1))" using Cons by simp
    ultimately show ?thesis by (auto simp: Inr run split: prod.split intro: kept_trans)
  qed (use Cons in simp)
qed (simp add: kept_refl)

lemma fire_due_schedules_kept:
  assumes "surroundings S T v"
  shows "S d (snd (fire_due_schedules lib v t limit d))"
proof -
  obtain r d1 where run: "run_stmt v 0 (\<lambda>now _. due_crons limit now) d = (r, d1)" by fastforce
  have "S d (snd (run_stmt v 0 (\<lambda>now _. due_crons limit now) d))"
    by (rule run_read_kept [OF assms]) (simp add: due_crons_def)
  then show ?thesis
    using fire_each_kept [OF assms, of d1 lib t 1]
    by (auto simp: fire_due_schedules_def run split: sum.split intro: kept_trans)
qed

lemma register_schedules_kept: "surroundings S T v \<Longrightarrow> S d (register_schedules lib v t k es d)"
proof (induction es arbitrary: k d)
  case (Cons e es)
  show ?case
  proof (cases "next_run_of lib (reg_expression e) (reg_timezone e) t")
    case (Inr n)
    let ?entry = "\<lparr>ce_name = reg_name e, ce_queue = reg_queue e, ce_task = reg_task e,
        ce_payload = reg_payload e, ce_expression = reg_expression e, ce_timezone = reg_timezone e\<rparr>"
    obtain r d1 where run: "run_stmt v k (\<lambda>now _. upsert_cron now ?entry n) d = (r, d1)" by fastforce
    have "S d d1" using upsert_kept [OF Cons.prems, of d k ?entry n] by (simp add: run)
    moreover have "S d1 (register_schedules lib v t (Suc k) es d1)" using Cons by simp
    ultimately show ?thesis by (auto simp: Inr run split: prod.split intro: kept_trans)
  qed (use Cons in simp)
qed (simp add: kept_refl)

lemma recover_turn_kept:
  assumes "surroundings S T sampling" "surroundings S T firing" "surroundings S T sweeping"
  shows "S d (recover_turn lib sampling firing sweeping t cfg d)"
  unfolding recover_turn_def Let_def
  by (rule kept_trans [OF sample_depths_kept [OF assms(1)]
        kept_trans [OF fire_due_schedules_kept [OF assms(2)] reclaim_kept [OF assms(3)]]])

lemma retain_loop_kept:
  "surroundings S T v \<Longrightarrow> retain_loop fuel v elapsed cfg k removed d = Some (k', n, d') \<Longrightarrow> S d d'"
proof (induction fuel arbitrary: k removed d)
  case (Suc fuel)
  obtain r d1 where run: "run_stmt v k (prune_completed (cfg_retain_completed cfg) None (sint (cfg_prune_batch cfg))) d = (r, d1)"
    by fastforce
  have "S d d1"
    using prune_kept(1) [OF Suc.prems(1), of d k "cfg_retain_completed cfg" None "sint (cfg_prune_batch cfg)"] by (simp add: run)
  moreover have "S d1 d'"
    using Suc.prems Suc.IH kept_refl by (auto simp: run split: sum.splits if_splits)
  ultimately show ?case by (rule kept_trans)
qed simp

lemma retain_turn_kept:
  assumes "surroundings S T v" "retain_turn fuel v elapsed cfg d = Some (n, d')"
  shows "S d d'"
proof -
  obtain k removed d1 where loop: "retain_loop fuel v elapsed cfg 0 0 d = Some (k, removed, d1)"
    using assms(2) by (auto simp: retain_turn_def split: option.splits)
  let ?run = "run_stmt v k (prune_discarded (cfg_retain_discarded cfg) None (sint (cfg_prune_batch cfg))) d1"
  have "S d1 (snd ?run)" by (rule prune_kept(2) [OF assms(1)])
  then have "\<exists>d2. S d1 d2 \<and> (d' = d2 \<or> d' = snd (run_stmt v (Suc k) (\<lambda>_ _. prune_workflows) d2))"
    using assms(2) kept_refl by (cases ?run) (auto simp: retain_turn_def loop Let_def split: if_splits sum.splits)
  then have "S d1 d'" using prune_workflows_kept [OF assms(1)] kept_trans by blast
  with retain_loop_kept [OF assms(1) loop] show ?thesis by (rule kept_trans)
qed

end

text \<open>Being reached by statements is such a relation.\<close>

lemma made_by_ok: "made_by w c \<Longrightarrow> call_ok c"
  by (cases c) simp_all

interpretation issued: kept_by_worker db_steps "\<lambda>_. True" w for w
proof unfold_locales
  show "db_steps d (exec now c d)" if "made_by w c" for now c d
    by (rule r_into_rtranclp, rule db_stepI, rule made_by_ok [OF that])
qed auto

lemma hand_back_steps: "orderly v \<Longrightarrow> db_steps d (snd (hand_back v fl cfg w d))"
  by (simp add: orderly_surroundings issued.hand_back_kept)

lemma renew_turn_steps: "orderly v \<Longrightarrow> db_steps d (renew_turn v cfg w fl d)"
  by (simp add: orderly_surroundings issued.renew_turn_kept)

lemma recover_turn_steps:
  "orderly v \<Longrightarrow> orderly v2 \<Longrightarrow> orderly v3 \<Longrightarrow> db_steps d (recover_turn lib v v2 v3 t cfg d)"
  by (simp add: orderly_surroundings issued.recover_turn_kept)

lemma retain_turn_steps:
  "orderly v \<Longrightarrow> retain_turn fuel v elapsed cfg d = Some (n, d') \<Longrightarrow> db_steps d d'"
  by (simp add: orderly_surroundings issued.retain_turn_kept)

section \<open>Jobs of other workers\<close>

text \<open>
  Leaving a row as it is, in a consistent database, is another such relation, for the row of a job
  another worker runs under a lease that has not expired.
\<close>

definition spares :: "job_row \<Rightarrow> db \<Rightarrow> db \<Rightarrow> bool" where
  "spares r d d' \<longleftrightarrow> (db_inv d \<and> r \<in> set (jobs d) \<longrightarrow> db_inv d' \<and> r \<in> set (jobs d'))"

definition leased_elsewhere :: "uuid \<Rightarrow> int \<Rightarrow> job_row \<Rightarrow> bool" where
  "leased_elsewhere w e r \<longleftrightarrow> row_wf r \<and> state r = Running \<and> locked_by r \<noteq> Some w \<and> lease_expires_at r = Some e"

lemma lease_selected_spares:
  assumes "db_wf d" "leasable now d sel" "r \<in> set (jobs d)" "state r = Running"
  shows "r \<in> set (jobs (snd (lease_selected now w l sel d)))"
proof -
  have "row_id r \<notin> row_id ` set sel"
    using leasable_member [OF assms(1-3)] assms(2,4) by (auto simp: leasable_def)
  then show ?thesis
    using assms(3) by (cases rule: lease_selected_cases [of now w l sel d]) (simp_all add: update_where_other)
qed

lemma insert_appends: "\<exists>rows. jobs (snd (insert_job now r d)) = jobs d @ rows"
  by (cases rule: insert_job_cases [of now r d]) simp_all

lemma made_by_spares:
  assumes "leased_elsewhere w e r" "now \<le> e" "made_by w c"
  shows "spares r d (exec now c d)"
proof -
  have r: "state r = Running" "locked_by r \<noteq> Some w" "lease_expires_at r = Some e" "pending_deps r = 0"
    using assms(1) by (auto simp: leased_elsewhere_def row_wf_def row_ok_def)
  have "r \<in> set (jobs (exec now c d))" if inv: "db_inv d" and mem: "r \<in> set (jobs d)"
  proof -
    have wf: "db_wf d" using inv by (simp add: db_inv_def)
    note report = report_exec [OF inv _ mem r(4,2)]
    show ?thesis
    proof (cases c)
      case (FetchUnkeyed qs limit w' l skip)
      then show ?thesis
        using lease_selected_spares [OF wf select_unkeyed_leasable [OF wf] mem r(1)] mem
        by (cases rule: fetch_unkeyed_cases [of qs limit w' l now skip d]) simp_all
    next
      case (FetchKeyed qs limit w' l skip)
      then show ?thesis
        using lease_selected_spares [OF wf admit_leasable [OF select_keyed_leasable [OF wf]] mem r(1)] mem
        by (cases rule: fetch_keyed_cases [of qs limit w' l now skip d]) simp_all
    next
      case (Reclaim limit)
      have "\<not> lease_expired now r" using r(3) assms(2) by (simp add: lease_expired_def)
      then have "r \<notin> set (expired_rows now limit d)" using expired_rows_subset [of now limit d] by blast
      then have "\<forall>s \<in> set (expired_rows now limit d). row_id s \<noteq> row_id r"
        using mem job_row_eqI [of "jobs d" r] wf expired_rows_subset [of now limit d] unfolding db_wf_def by fastforce
      then show ?thesis using mem by (auto simp: Reclaim reclaim_expired_def Let_def intro!: update_where_other)
    next
      case (FireCron name next_run)
      show ?thesis
      proof (cases rule: fire_cron_cases [of name next_run now d])
        case (won cr i d')
        then show ?thesis
          using insert_appends [of now "default_row now (c_queue cr) (c_task cr) (c_payload cr)" d] mem by (auto simp: FireCron)
      qed (simp_all add: FireCron mem)
    next
      case (Prune dead older_than q limit skip)
      let ?states = "if dead then [Discarded] else [Completed, Cancelled]"
      have "live r" using r(1) by (simp add: live_def)
      then have "row_id r \<notin> row_id ` set (victims now skip ?states older_than q limit d)"
        using victim_not_live [OF wf mem] by blast
      then show ?thesis
        using mem by (cases rule: prune_states_cases [of ?states older_than q limit now skip d]) (simp_all add: Prune)
    qed (use assms(3) report mem in \<open>auto simp: record_step_def upsert_cron_def prune_workflows_def bind_text_def Let_def simp del: exec.simps(6-7,9-11)\<close>)
  qed
  then show ?thesis using exec_inv [OF _ made_by_ok [OF assms(3)]] by (simp add: spares_def)
qed

lemma kept_by_worker_spares: "leased_elsewhere w e r \<Longrightarrow> kept_by_worker (spares r) (\<lambda>now. now \<le> e) w"
  by unfold_locales (auto simp: spares_def dest: made_by_spares [unfolded spares_def])

section \<open>Leases are kept\<close>

text \<open>
  The life of a leased job as the maintenance sees it: renewals by its own worker and sweeps by
  anyone, in the order they happen. \<open>keeps_time\<close> says that each happens no later than one
  maintenance interval after the last renewal, the lease itself counting as the first.
\<close>

datatype upkeep = Renewal int | Sweep int int

fun upkeep_run :: "config \<Rightarrow> uuid \<Rightarrow> in_flight \<Rightarrow> upkeep list \<Rightarrow> db \<Rightarrow> db" where
  "upkeep_run cfg w fl [] d = d"
| "upkeep_run cfg w fl (Renewal t # es) d = upkeep_run cfg w fl es (renew_turn (quiet t) cfg w fl d)"
| "upkeep_run cfg w fl (Sweep t limit # es) d = upkeep_run cfg w fl es (snd (reclaim_expired limit t d))"

fun keeps_time :: "duration \<Rightarrow> int \<Rightarrow> upkeep list \<Rightarrow> bool" where
  "keeps_time p since [] = True"
| "keeps_time p since (Renewal t # es) = (since \<le> t \<and> t \<le> since + int p \<and> keeps_time p t es)"
| "keeps_time p since (Sweep t limit # es) = (since \<le> t \<and> t \<le> since + int p \<and> keeps_time p since es)"

definition leased_at :: "config \<Rightarrow> uuid \<Rightarrow> int \<Rightarrow> job_row \<Rightarrow> bool" where
  "leased_at cfg w t r \<longleftrightarrow>
     state r = Running \<and> locked_by r = Some w \<and> lease_expires_at r = Some (t + int (cfg_lease cfg))"

lemma sweep_keeps_unexpired:
  assumes "db_wf d" "r \<in> set (jobs d)" "\<not> lease_expired now r"
  shows "r \<in> set (jobs (snd (reclaim_expired limit now d)))"
proof (cases "fst (reclaim_expired limit now d)")
  case (Inl e)
  then show ?thesis using assms(2) by (auto simp: reclaim_expired_def Let_def split: if_splits)
next
  case (Inr c)
  then have run: "reclaim_expired limit now d = (Inr c, snd (reclaim_expired limit now d))" by (metis prod.collapse)
  have "r \<notin> set (expired_rows now limit d)" using expired_rows_subset assms(3) by blast
  then show ?thesis unfolding reclaim_expired_jobs(1) [OF assms(1) run] using assms(2) by force
qed

lemma renew_turn_quiet: "renew_turn (quiet t) cfg w fl d = snd (renew_leases t (held_now fl) w (cfg_lease cfg) d)"
  by (simp add: renew_turn_def snapshot_def renew_leases_def Let_def)

lemma renewal_extends:
  assumes "r \<in> set (jobs d)" "leased_at cfg w t0 r" "row_id r \<in> set (held_now fl)"
  shows "r\<lparr>lease_expires_at := Some (t + int (cfg_lease cfg))\<rparr> \<in> set (jobs (renew_turn (quiet t) cfg w fl d))"
  using assms by (force simp: renew_turn_quiet renew_leases_eq update_where_def holds_def leased_at_def)

lemma upkeep_keeps:
  assumes "cfg_maintenance_interval cfg < cfg_lease cfg" "keeps_time (cfg_maintenance_interval cfg) t0 es"
    and "db_wf d" "r \<in> set (jobs d)" "leased_at cfg w t0 r" "row_id r \<in> set (held_now fl)"
  shows "\<exists>t1. \<exists>r' \<in> set (jobs (upkeep_run cfg w fl es d)).
    row_id r' = row_id r \<and> attempt r' = attempt r \<and> leased_at cfg w t1 r'"
  using assms(2-)
proof (induction es arbitrary: t0 d r)
  case Nil
  then show ?case by (intro exI [of _ t0] bexI [of _ r] conjI) simp_all
next
  case (Cons e es)
  show ?case
  proof (cases e)
    case (Renewal t)
    let ?r = "r\<lparr>lease_expires_at := Some (t + int (cfg_lease cfg))\<rparr>" and ?d = "renew_turn (quiet t) cfg w fl d"
    have "db_wf ?d" using Cons.prems(2) by (simp add: renew_turn_quiet renew_leases_wf)
    moreover have "?r \<in> set (jobs ?d)" by (rule renewal_extends [OF Cons.prems(3-5)])
    moreover have "leased_at cfg w t ?r" using Cons.prems(4) by (simp add: leased_at_def)
    ultimately show ?thesis using Cons.IH [of t ?d ?r] Cons.prems(1,5) by (simp add: Renewal)
  next
    case (Sweep t limit)
    have "\<not> lease_expired t r" using Cons.prems(1,4) assms(1) by (simp add: Sweep lease_expired_def leased_at_def)
    from sweep_keeps_unexpired [OF Cons.prems(2,3) this]
    show ?thesis using Cons.IH [of t0 _ r] Cons.prems reclaim_expired_wf by (simp add: Sweep)
  qed
qed

text \<open>
  C18: A worker whose configuration was accepted keeps its jobs. While it renews the leases of
  the jobs in flight once per maintenance interval, no sweep in between, by any worker at any
  time up to the next renewal, takes a job from it: however long the task runs, the row stays
  running, held by this worker, on the same attempt.
\<close>

theorem accepted_worker_keeps_its_jobs:
  assumes "startup cfg = Inr ()" "keeps_time (cfg_maintenance_interval cfg) t0 es"
    and "db_wf d" "r \<in> set (jobs d)" "leased_at cfg w t0 r" "row_id r \<in> set (held_now fl)"
  shows "\<exists>r' \<in> set (jobs (upkeep_run cfg w fl es d)). row_id r' = row_id r \<and> state r' = Running
    \<and> locked_by r' = Some w \<and> attempt r' = attempt r"
proof -
  have "cfg_maintenance_interval cfg < cfg_lease cfg"
    using assms(1) by (auto simp: startup_def validate_def split: if_splits sum.splits)
  from upkeep_keeps [OF this assms(2-)] show ?thesis unfolding leased_at_def by blast
qed

definition sample_config :: config where
  "sample_config = (default_config None)\<lparr>cfg_app := ''app:app''\<rparr>"

definition busy :: in_flight where
  "busy = reserve [1] (new_in_flight 4)"

definition busy_row :: job_row where
  "busy_row = leased_row 1 7 30000000"

definition busy_db :: db where
  "busy_db = db_with [busy_row]"

lemma busy_simps: "held_now busy = [1]" "row_id busy_row = 1" "state busy_row = Running" "locked_by busy_row = Some 7"
  "attempt busy_row = 1" "max_attempts busy_row = 20" "jobs busy_db = [busy_row]" "sint (cfg_reclaim_limit sample_config) = 1000"
  by (simp_all add: busy_def reserve_def new_in_flight_def busy_row_def leased_row_def plain_row_def default_row_def
      busy_db_def db_with_def sample_config_def default_config_def)

lemma busy_db_inv: "db_inv busy_db"
  by (simp add: db_inv_def busy_db_def busy_row_def leased_row_def sample_wf_simps flow_ok_def open_parents_def)

theorem accepted_worker_keeps_its_jobs_witness:
  "\<exists>r' \<in> set (jobs (upkeep_run sample_config 7 busy
       [Sweep 9000000 10, Renewal 10000000, Sweep 19000000 10, Renewal 20000000, Sweep 29999999 5, Renewal 30000000, Sweep 31000000 9] busy_db)).
     row_id r' = row_id busy_row \<and> state r' = Running \<and> locked_by r' = Some 7 \<and> attempt r' = attempt busy_row"
proof (rule accepted_worker_keeps_its_jobs [where ?t0.0 = 0])
  show "startup sample_config = Inr ()" by (simp add: startup_def validate_def sample_config_def default_config_def)
  show "db_wf busy_db" using busy_db_inv by (simp add: db_inv_def)
  show "busy_row \<in> set (jobs busy_db)" by (simp add: busy_db_def db_with_def)
  show "leased_at sample_config 7 0 busy_row"
    by (simp add: leased_at_def busy_row_def leased_row_def sample_config_def default_config_def)
  show "row_id busy_row \<in> set (held_now busy)" by (simp add: busy_simps)
qed (simp add: sample_config_def default_config_def)

section \<open>A failed session gives everything back\<close>

lemma hand_back_quiet:
  "hand_back (quiet now) fl cfg w d = (fl\<lparr>held_now := []\<rparr>,
     if held_now fl = [] then d
     else snd (reclaim_expired (sint (cfg_reclaim_limit cfg)) now (snd (abandon_leases now (held_now fl) w d))))"
  by (auto simp: hand_back_def take_held_def abandon_leases_def)

lemma abandoned_row:
  assumes "db_wf d" "r \<in> set (jobs d)" "holds w ids r" "0 \<le> limit"
    and "int (length (filter (lease_expired now) (jobs (snd (abandon_leases now ids w d))))) \<le> limit"
  shows "reclaim_row now (r\<lparr>lease_expires_at := Some (now - 1)\<rparr>)
    \<in> set (jobs (snd (reclaim_expired limit now (snd (abandon_leases now ids w d)))))"
proof -
  let ?d = "snd (abandon_leases now ids w d)" and ?r = "r\<lparr>lease_expires_at := Some (now - 1)\<rparr>"
  have "?r \<in> set (jobs ?d)" using assms(2,3) by (auto simp: abandon_leases_eq update_where_def)
  moreover have "lease_expired now ?r" using assms(3) by (simp add: lease_expired_def holds_def)
  ultimately have "?r \<in> set (expired_rows now limit ?d)" "?r \<in> set (jobs ?d)"
    by (simp_all add: expired_rows_all [OF assms(5)])
  moreover obtain c where "reclaim_expired limit now ?d = (Inr c, snd (reclaim_expired limit now ?d))"
    using assms(4) by (simp add: reclaim_expired_def Let_def)
  ultimately show ?thesis
    using reclaim_expired_jobs(1) [OF abandon_leases_wf [OF assms(1)]] by force
qed

text \<open>
  C21: When a session dies its jobs do not wait for the lease. If the limit of the sweep covers
  what has expired, handing back empties the set of jobs in flight and leaves every job the
  worker held available again, with no lease and the attempt counted, or dead-lettered when that
  was its last attempt.
\<close>

theorem hand_back_returns_the_held_jobs:
  assumes "db_wf d" "r \<in> set (jobs d)" "holds w (held_now fl) r" "0 \<le> sint (cfg_reclaim_limit cfg)"
    and "int (length (filter (lease_expired now) (jobs (snd (abandon_leases now (held_now fl) w d))))) \<le> sint (cfg_reclaim_limit cfg)"
    and "hand_back (quiet now) fl cfg w d = (fl', d')"
  shows "is_idle fl' \<and> (\<exists>r' \<in> set (jobs d'). row_id r' = row_id r \<and> attempt r' = attempt r
    \<and> locked_by r' = None \<and> lease_expires_at r' = None
    \<and> state r' = (if sint (attempt r) < sint (max_attempts r) then Available else Discarded))"
proof -
  have "held_now fl \<noteq> []" using assms(3) by (auto simp: holds_def)
  then have eqs: "fl' = fl\<lparr>held_now := []\<rparr>"
      "d' = snd (reclaim_expired (sint (cfg_reclaim_limit cfg)) now (snd (abandon_leases now (held_now fl) w d)))"
    using assms(6) by (simp_all add: hand_back_quiet)
  let ?r = "reclaim_row now (r\<lparr>lease_expires_at := Some (now - 1)\<rparr>)"
  have "?r \<in> set (jobs d')" unfolding eqs by (rule abandoned_row [OF assms(1-5)])
  moreover have "attempt ?r = attempt r" by (simp add: reclaim_row_def discard_row_def release_row_def)
  ultimately show ?thesis by (auto simp: eqs(1) is_idle_def held_count_def intro!: bexI [of _ ?r])
qed

theorem hand_back_returns_the_held_jobs_witness:
  "is_idle (fst (hand_back (quiet 1000) busy sample_config 7 busy_db))
   \<and> (\<exists>r' \<in> set (jobs (snd (hand_back (quiet 1000) busy sample_config 7 busy_db))). row_id r' = 1 \<and> state r' = Available)"
proof -
  have "db_wf busy_db" using busy_db_inv by (simp add: db_inv_def)
  moreover have "busy_row \<in> set (jobs busy_db)" by (simp add: busy_db_def db_with_def)
  moreover have "holds 7 (held_now busy) busy_row" "0 \<le> sint (cfg_reclaim_limit sample_config)"
    "int (length (filter (lease_expired 1000) (jobs (snd (abandon_leases 1000 (held_now busy) 7 busy_db))))) \<le> sint (cfg_reclaim_limit sample_config)"
    by (simp_all add: holds_def busy_simps abandon_leases_eq update_where_def)
  ultimately have "is_idle (fst (hand_back (quiet 1000) busy sample_config 7 busy_db)) \<and>
     (\<exists>r' \<in> set (jobs (snd (hand_back (quiet 1000) busy sample_config 7 busy_db))). row_id r' = row_id busy_row \<and> attempt r' = attempt busy_row
    \<and> locked_by r' = None \<and> lease_expires_at r' = None
    \<and> state r' = (if sint (attempt busy_row) < sint (max_attempts busy_row) then Available else Discarded))"
    by (rule hand_back_returns_the_held_jobs) simp
  then show ?thesis by (auto simp: busy_simps)
qed

section \<open>Restarts end\<close>

lemma supervise_failing:
  assumes "\<forall>(v, run) \<in> set ss. \<forall>s. \<exists>e t s'. run s = ((Inl e, t), s') \<and> t < HEALTHY_SESSION"
    and "unat c \<le> unat (cfg_max_restarts cfg)" "unat (cfg_max_restarts cfg) < unat c + length ss"
    and "unat (cfg_max_restarts cfg) < 2 ^ 32 - 1"
  shows "\<exists>e s'. supervise cfg w c ss s = (Inl e, map (\<lambda>k. min (RESTART_DELAY * 2 ^ min k 16) RESTART_CEILING)
      [unat c ..< unat (cfg_max_restarts cfg)], s')"
  using assms
proof (induction ss arbitrary: c s)
  case (Cons x ss)
  obtain v run where x: "x = (v, run)" by fastforce
  from Cons.prems(1) have "\<forall>s. \<exists>e t s'. run s = ((Inl e, t), s') \<and> t < HEALTHY_SESSION" by (simp add: x)
  then obtain e t s1 where run: "run s = ((Inl e, t), s1)" "t < HEALTHY_SESSION" by blast
  have "unat c + 1 < 2 ^ 32" using Cons.prems(2,4) by simp
  then have next_count: "unat (c + 1) = unat c + 1" by (simp add: unat_word_ariths)
  show ?case
  proof (cases "unat c = unat (cfg_max_restarts cfg)")
    case True
    then have "cfg_max_restarts cfg < c + 1" by (simp add: word_less_nat_alt next_count)
    then show ?thesis using run by (simp add: x True)
  next
    case False
    then have more: "\<not> cfg_max_restarts cfg < c + 1" "unat (c + 1) \<le> unat (cfg_max_restarts cfg)"
      using Cons.prems(2) by (simp_all add: word_less_nat_alt next_count)
    obtain e' s' where rest: "supervise cfg w (c + 1) ss (hand_back v (fst s1) cfg w (snd s1)) =
        (Inl e', map (\<lambda>k. min (RESTART_DELAY * 2 ^ min k 16) RESTART_CEILING) [unat (c + 1) ..< unat (cfg_max_restarts cfg)], s')"
      using Cons.IH [OF _ more(2) _ Cons.prems(4)] Cons.prems(1,3) by (simp add: next_count) blast
    have "[unat c ..< unat (cfg_max_restarts cfg)] = unat c # [unat (c + 1) ..< unat (cfg_max_restarts cfg)]"
      using False Cons.prems(2) by (simp add: upt_conv_Cons next_count)
    then show ?thesis using run more(1) by (simp add: x rest restart_delay_def)
  qed
qed simp

text \<open>
  C35: A child that cannot stay up stops the worker. When every session fails before it counts as
  healthy, the supervisor restarts the child exactly as often as configured and then returns the
  error; the pauses between start at a quarter of a second, double, and never exceed half a
  minute.
\<close>

theorem failing_child_stops_the_worker:
  assumes "\<forall>(v, run) \<in> set ss. \<forall>s. \<exists>e t s'. run s = ((Inl e, t), s') \<and> t < HEALTHY_SESSION"
    and "unat (cfg_max_restarts cfg) < length ss" "unat (cfg_max_restarts cfg) < 2 ^ 32 - 1"
  shows "\<exists>e delays s'. supervise cfg w 0 ss s = (Inl e, delays, s') \<and> length delays = unat (cfg_max_restarts cfg)
    \<and> (\<forall>k < length delays. delays ! k = min (250000 * 2 ^ min k 16) 30000000)"
  using supervise_failing [of ss 0 cfg w s] assms by (auto simp: RESTART_DELAY_def RESTART_CEILING_def)

definition crashing :: session where
  "crashing s = ((Inl (ChildExited ''boom''), 1000), s)"

theorem failing_child_stops_the_worker_witness:
  "\<exists>e delays s'. supervise (sample_config\<lparr>cfg_max_restarts := 2\<rparr>) 7 0 (replicate 5 (quiet 10, crashing)) (busy, busy_db) = (Inl e, delays, s')
     \<and> length delays = 2 \<and> delays ! 1 = 500000"
proof -
  have "\<exists>e delays s'. supervise (sample_config\<lparr>cfg_max_restarts := 2\<rparr>) 7 0 (replicate 5 (quiet 10, crashing)) (busy, busy_db) = (Inl e, delays, s')
    \<and> length delays = unat (cfg_max_restarts (sample_config\<lparr>cfg_max_restarts := 2\<rparr>))
    \<and> (\<forall>k < length delays. delays ! k = min (250000 * 2 ^ min k 16) 30000000)"
    by (rule failing_child_stops_the_worker) (auto simp: crashing_def HEALTHY_SESSION_def)
  then show ?thesis by force
qed

section \<open>A turn of retention ends\<close>

lemma retain_loop_returns:
  "TICK_BUDGET < elapsed j \<Longrightarrow> k \<le> j \<Longrightarrow> j < k + fuel \<Longrightarrow> retain_loop fuel v elapsed cfg k removed d \<noteq> None"
proof (induction fuel arbitrary: k removed d)
  case (Suc fuel)
  show ?case
  proof (cases "k = j")
    case True
    then show ?thesis using Suc.prems(1) by (auto split: prod.split sum.split)
  next
    case False
    then have "retain_loop fuel v elapsed cfg (Suc k) n d1 \<noteq> None" for n d1
      using Suc.prems by (intro Suc.IH) simp_all
    then show ?thesis by (simp split: prod.split sum.split)
  qed
qed simp

lemma retain_turn_returns:
  "TICK_BUDGET < elapsed j \<Longrightarrow> j < fuel \<Longrightarrow> \<exists>n d'. retain_turn fuel v elapsed cfg d = Some (n, d')"
  using retain_loop_returns [of elapsed j 0 fuel v cfg 0 d] by (auto simp: retain_turn_def Let_def prod.case_eq_if)

definition only_history_gone :: "db \<Rightarrow> db \<Rightarrow> bool" where
  "only_history_gone d d' \<longleftrightarrow> set (jobs d') \<subseteq> set (jobs d) \<and> (\<forall>r \<in> set (jobs d). live r \<longrightarrow> r \<in> set (jobs d'))"

lemma only_history_gone_trans: "only_history_gone d d1 \<Longrightarrow> only_history_gone d1 d2 \<Longrightarrow> only_history_gone d d2"
  unfolding only_history_gone_def by blast

lemma prune_stmt_history:
  assumes "others v = (\<lambda>_ d. d)" "db_inv d" "run_stmt v k (prune_states states older_than q limit) d = (r, d1)"
  shows "db_inv d1 \<and> only_history_gone d d1"
proof -
  have wf: "db_wf d" using assms(2) by (simp add: db_inv_def)
  let ?d = "snd (prune_states states older_than q limit (clock v k) (skips v k) d)"
  have "only_history_gone d ?d"
    by (cases rule: prune_states_cases [of states older_than q limit "clock v k" "skips v k" d])
      (use victim_not_live [OF wf] in \<open>simp_all add: only_history_gone_def, blast\<close>)
  moreover have "db_inv ?d" by (rule prune_states_inv [OF assms(2)])
  moreover have "d1 = d \<or> d1 = ?d"
    using assms(1,3) by (auto simp: run_stmt_def Let_def split: prod.splits fault.splits)
  moreover have "only_history_gone d d" by (simp add: only_history_gone_def)
  ultimately show ?thesis using assms(2) by blast
qed

lemma prune_workflows_stmt:
  assumes "others v = (\<lambda>_ d. d)"
  shows "jobs (snd (run_stmt v k (\<lambda>_ _. prune_workflows) d)) = jobs d"
  using assms by (simp add: run_stmt_def prune_workflows_def Let_def split: fault.split)

lemma retain_loop_history:
  assumes "others v = (\<lambda>_ d. d)" "db_inv d" "retain_loop fuel v elapsed cfg k removed d = Some (k', n, d')"
  shows "db_inv d' \<and> only_history_gone d d'"
  using assms(2,3)
proof (induction fuel arbitrary: k removed d)
  case (Suc fuel)
  obtain r d1 where run: "run_stmt v k (prune_completed (cfg_retain_completed cfg) None (sint (cfg_prune_batch cfg))) d = (r, d1)"
    by fastforce
  have d1: "db_inv d1" "only_history_gone d d1"
    using prune_stmt_history [OF assms(1) Suc.prems(1) run [unfolded prune_completed_def]] by simp_all
  have "d' = d1 \<or> (\<exists>m. retain_loop fuel v elapsed cfg (Suc k) m d1 = Some (k', n, d'))"
    using Suc.prems(2) by (auto simp: run split: sum.splits if_splits)
  then show ?case using d1 Suc.IH [OF d1(1)] only_history_gone_trans by blast
qed simp

text \<open>
  Enforcing retention ends and touches history only. Once the clock has passed the budget of
  a turn, at whatever iteration, the turn has returned; whichever of its statements failed, every
  row it leaves was there before and every waiting or running job is still there.
\<close>

theorem retention_turn_ends_and_keeps_live_jobs:
  assumes "TICK_BUDGET < elapsed j" "j < fuel" "others v = (\<lambda>_ d. d)" "db_inv d"
  shows "\<exists>n d'. retain_turn fuel v elapsed cfg d = Some (n, d') \<and> only_history_gone d d'"
proof -
  have "retain_loop fuel v elapsed cfg 0 0 d \<noteq> None" by (rule retain_loop_returns [of elapsed j]) (use assms(1,2) in simp_all)
  then obtain k removed d1 where loop: "retain_loop fuel v elapsed cfg 0 0 d = Some (k, removed, d1)" by auto
  note d1 = retain_loop_history [OF assms(3,4) loop]
  let ?stmt = "prune_discarded (cfg_retain_discarded cfg) None (sint (cfg_prune_batch cfg))"
  obtain r d2 where run: "run_stmt v k ?stmt d1 = (r, d2)" by fastforce
  have "only_history_gone d1 d2"
    using prune_stmt_history [OF assms(3) _ run [unfolded prune_discarded_def]] d1 by blast
  then have "only_history_gone d d1" "only_history_gone d d2" using d1 only_history_gone_trans by blast+
  moreover have "only_history_gone d (snd (run_stmt v m (\<lambda>_ _. prune_workflows) x)) = only_history_gone d x" for m x
    by (simp add: only_history_gone_def prune_workflows_stmt [OF assms(3)])
  ultimately show ?thesis
    by (auto simp: retain_turn_def loop run Let_def split: sum.split)
qed

theorem retention_turn_ends_and_keeps_live_jobs_witness:
  "\<exists>n d'. retain_turn 3 (quiet 100) (\<lambda>k. k * 4000000) (sample_config\<lparr>cfg_prune_batch := 0\<rparr>) history_db = Some (n, d')
     \<and> plain_row 4 \<in> set (jobs d')"
proof -
  have "\<exists>n d'. retain_turn 3 (quiet 100) (\<lambda>k. k * 4000000) (sample_config\<lparr>cfg_prune_batch := 0\<rparr>) history_db = Some (n, d')
     \<and> only_history_gone history_db d'"
    by (rule retention_turn_ends_and_keeps_live_jobs [where j = 2]) (simp_all add: TICK_BUDGET_def quiet_def)
  then show ?thesis
    by (auto simp: only_history_gone_def history_db_def db_with_def plain_row_def default_row_def live_def)
qed

section \<open>Last words are bounded\<close>

lemma lossy_length: "length (lossy bs) \<le> 3 * length bs"
proof (induction bs rule: lossy.induct)
  case (2 b bs)
  obtain valid n where n: "char_len (map unat (b # bs)) = (valid, n)" by fastforce
  then have "0 < n" using char_len_pos [of "unat b" "map unat bs"] by simp
  moreover have "length (lossy (drop n (b # bs))) \<le> 3 * length (drop n (b # bs))" using "2.IH" [OF n [symmetric] refl] by simp
  ultimately show ?case using n by (auto simp: lossy.simps(2) [of b bs] min_def)
qed simp

definition words_ok :: "last_words \<Rightarrow> bool" where
  "words_ok w \<longleftrightarrow> length (lw_lines w) \<le> LAST_WORDS \<and> length (lw_line w) \<le> LINE_CAP
   \<and> (\<forall>l \<in> set (lw_lines w). length l \<le> 3 * LINE_CAP + 12)"

lemma emit_ok:
  assumes "words_ok w"
  shows "words_ok (emit w)"
proof -
  have "length (lossy (lw_line w)) \<le> 3 * LINE_CAP"
    using lossy_length [of "lw_line w"] assms by (simp add: words_ok_def)
  moreover have "set (tl (lw_lines w)) \<subseteq> set (lw_lines w)" by (cases "lw_lines w") auto
  ultimately show ?thesis using assms by (auto simp: words_ok_def emit_def Let_def LAST_WORDS_def)
qed

lemma watch_byte_ok: "words_ok w \<Longrightarrow> words_ok (watch_byte b w)"
  using emit_ok by (auto simp: watch_byte_def words_ok_def)

lemma fold_watch_ok: "words_ok w \<Longrightarrow> words_ok (fold (fold watch_byte) chunks w)"
proof (induction chunks arbitrary: w)
  case (Cons chunk chunks)
  have "words_ok (fold watch_byte chunk w)" if "words_ok w" for w
    using that by (induction chunk arbitrary: w) (simp_all add: watch_byte_ok)
  with Cons show ?case by simp
qed simp

text \<open>
  What is kept of a child's output is bounded and does not depend on how it was read. However
  much a child writes, at most twenty lines are held, each of at most 8192 bytes rendered and
  marked if cut; and reading the same bytes in other portions keeps the same lines.
\<close>

theorem last_words_stay_bounded:
  "length (lw_lines (watch chunks)) \<le> 20 \<and> list_all (\<lambda>l. length l \<le> 3 * 8192 + 12) (lw_lines (watch chunks))
   \<and> watch chunks = watch [concat chunks]"
proof -
  have "words_ok silent" by (simp add: words_ok_def silent_def)
  then have "words_ok (watch chunks)" using fold_watch_ok emit_ok by (simp add: watch_def watch_end_def)
  moreover have "fold (fold watch_byte) chunks w = fold watch_byte (concat chunks) w" for w
    by (induction chunks arbitrary: w) simp_all
  ultimately show ?thesis by (simp add: words_ok_def LAST_WORDS_def LINE_CAP_def watch_def list_all_iff)
qed

end
