(* ===== verification/Worker.thy ===== *)
theory Worker
  imports Supervisor
begin

text \<open>
  The two halves of a session (\<open>crates/gylo-worker/src/lib.rs\<close>): \<open>dispatch\<close>, which leases jobs
  and writes them to the child, and \<open>collect_completions\<close>, which reads the child's reports and
  records them in batches. A turn of either loop is a function; what the socket delivers and when
  the timer fires is a list of events. The theorems follow a report from the bytes the child
  writes to the row it ends in, and a job from its lease to the bytes the child reads.
\<close>

section \<open>Pending reports\<close>

record pending =
  pe_completed :: "i64 list"
  pe_with_result :: "i64 list"
  pe_results :: "bytes list"
  pe_retry :: "i64 list"
  pe_retry_errors :: "string list"
  pe_terminal :: "i64 list"
  pe_terminal_errors :: "string list"

definition no_pending :: pending where
  "no_pending =
     \<lparr>pe_completed = [], pe_with_result = [], pe_results = [], pe_retry = [], pe_retry_errors = [],
      pe_terminal = [], pe_terminal_errors = []\<rparr>"

fun push :: "i64 \<Rightarrow> outcome \<Rightarrow> pending \<Rightarrow> pending" where
  "push i (Success v) p =
     (if v = [] then p\<lparr>pe_completed := pe_completed p @ [i]\<rparr>
      else p\<lparr>pe_with_result := pe_with_result p @ [i], pe_results := pe_results p @ [v]\<rparr>)"
| "push i (Failure e retry) p =
     (if retry then p\<lparr>pe_retry := pe_retry p @ [i], pe_retry_errors := pe_retry_errors p @ [e]\<rparr>
      else p\<lparr>pe_terminal := pe_terminal p @ [i], pe_terminal_errors := pe_terminal_errors p @ [e]\<rparr>)"

definition pending_len :: "pending \<Rightarrow> nat" where
  "pending_len p =
     length (pe_completed p) + length (pe_with_result p) + length (pe_retry p) + length (pe_terminal p)"

text \<open>The four statements of a flush, each logged and passed over when it fails.\<close>

definition flush_statements ::
  "(i64 \<Rightarrow> rat) \<Rightarrow> env \<Rightarrow> config \<Rightarrow> uuid \<Rightarrow> pending \<Rightarrow> db \<Rightarrow> db"
where
  "flush_statements random v cfg worker p d =
     (let d1 = snd (run_stmt v 0 (\<lambda>now _. complete_many now (pe_completed p) worker) d);
          d2 = snd (run_stmt v 1 (\<lambda>now _. complete_many_with_results now (pe_with_result p) (pe_results p) worker) d1);
          d3 = snd (run_stmt v 2 (\<lambda>now _. retry_many random now (pe_retry p) (pe_retry_errors p) worker
                      (cfg_retry_base cfg) (cfg_retry_cap cfg)) d2)
      in snd (run_stmt v 3 (\<lambda>now _. discard_many now (pe_terminal p) (pe_terminal_errors p) worker) d3))"

definition flush ::
  "(i64 \<Rightarrow> rat) \<Rightarrow> env \<Rightarrow> config \<Rightarrow> uuid \<Rightarrow> pending \<Rightarrow> in_flight \<Rightarrow> db \<Rightarrow> pending \<times> in_flight \<times> db"
where
  "flush random v cfg worker p fl d =
     (if pending_len p = 0 then (p, fl, d)
      else
        (no_pending,
         release (pe_completed p @ pe_with_result p @ pe_retry p @ pe_terminal p) fl,
         flush_statements random v cfg worker p d))"

section \<open>Dispatching\<close>

definition hex_byte :: "byte \<Rightarrow> string" where
  "hex_byte b =
     (let digit = (\<lambda>n. if n < 10 then char_of (48 + n) else char_of (87 + n :: nat))
      in ''0x'' @ [digit (unat b div 16), digit (unat b mod 16)])"

fun show_protocol_error :: "protocol_error \<Rightarrow> string" where
  "show_protocol_error (FrameTooLarge n) =
     ''frame body of '' @ decimal n @ '' bytes exceeds the '' @ decimal MAX_FRAME_BYTES @ '' byte limit''"
| "show_protocol_error Truncated = ''frame body is truncated''"
| "show_protocol_error (UnknownKind k) = ''unknown message kind '' @ hex_byte k"
| "show_protocol_error (UnknownOutcome k) = ''unknown outcome '' @ hex_byte k"
| "show_protocol_error (NotUtf8 what) = what @ '' is not valid utf-8''"
| "show_protocol_error (TaskNameTooLong n) = ''task name of '' @ decimal n @ '' bytes exceeds the 65535 byte limit''"
| "show_protocol_error (Malformed e) = ''messagepack body is malformed: '' @ e"

definition dispatch_message :: "job \<Rightarrow> message" where
  "dispatch_message j = Dispatch (job_id j) (job_attempt j) (job_max_attempts j) (job_task j) (job_payload j)"

text \<open>
  One job of a batch: the steps of an earlier attempt if there are any, then the job. A job that
  cannot be encoded is discarded instead.
\<close>

definition prior_steps ::
  "msgpack \<Rightarrow> (string \<Rightarrow> 'k::linorder) \<Rightarrow> env \<Rightarrow> job \<Rightarrow> bytes \<Rightarrow> db \<Rightarrow> bytes \<times> db"
where
  "prior_steps mp coll v j out d =
     (if job_durable j \<and> 1 < sint (job_attempt j)
      then case run_stmt v 0 (\<lambda>_ _. steps_for coll (job_id j)) d of
             (Inl e, d1) \<Rightarrow> (out, d1)
           | (Inr found, d1) \<Rightarrow> (if found \<noteq> [] then snd (encode mp (Steps (job_id j) found) out) else out, d1)
      else (out, d))"

definition frame_job ::
  "msgpack \<Rightarrow> (string \<Rightarrow> 'k::linorder) \<Rightarrow> env \<Rightarrow> uuid \<Rightarrow> job \<Rightarrow> bytes \<times> i64 list \<times> db \<Rightarrow> bytes \<times> i64 list \<times> db"
where
  "frame_job mp coll v worker j = (\<lambda>(out, reserved, d).
     let (out1, d1) = prior_steps mp coll v j out d in
     case encode mp (dispatch_message j) out1 of
       (Inr _, out2) \<Rightarrow> (out2, reserved @ [job_id j], d1)
     | (Inl e, out2) \<Rightarrow>
         (out2, reserved, snd (run_stmt v 1 (\<lambda>now _. discard_many now [job_id j] [show_protocol_error e] worker) d1)))"

fun frame_jobs ::
  "msgpack \<Rightarrow> (string \<Rightarrow> 'k::linorder) \<Rightarrow> env \<Rightarrow> uuid \<Rightarrow> job list \<Rightarrow> bytes \<times> i64 list \<times> db \<Rightarrow> bytes \<times> i64 list \<times> db"
where
  "frame_jobs mp coll v worker [] s = s"
| "frame_jobs mp coll v worker (j # js) s = frame_jobs mp coll (shift 2 v) worker js (frame_job mp coll v worker j s)"

text \<open>What a turn of \<open>dispatch\<close> comes to: waiting for room, for the database or for work, or bytes to write.\<close>

datatype turn = Full | LeasingFailed pg_error | Idle | NothingToSend | Send bytes

definition dispatch_turn ::
  "msgpack \<Rightarrow> (string \<Rightarrow> 'k::linorder) \<Rightarrow> env \<Rightarrow> config \<Rightarrow> uuid \<Rightarrow> in_flight \<Rightarrow> db \<Rightarrow> turn \<times> in_flight \<times> db"
where
  "dispatch_turn mp coll v cfg worker fl d =
     (if available fl = 0 then (Full, fl, d)
      else
        (case fetch v (cfg_queues cfg) (min (sint (cfg_batch cfg)) (int (available fl))) (cfg_lease cfg) worker d of
           (Inl e, d1) \<Rightarrow> (LeasingFailed e, fl, d1)
         | (Inr js, d1) \<Rightarrow>
             if js = [] then (Idle, fl, d1)
             else
               let (out, reserved, d2) = frame_jobs mp coll (shift 3 v) worker js ([], [], d1) in
               if reserved = [] then (NothingToSend, fl, d2)
               else (Send out, reserve reserved fl, d2)))"

text \<open>\<open>forward_ack\<close>: what is written for an acknowledgement, if it encodes.\<close>

definition forward_ack :: "msgpack \<Rightarrow> message option \<Rightarrow> bytes" where
  "forward_ack mp ack =
     (case ack of None \<Rightarrow> []
      | Some m \<Rightarrow> (case encode mp m [] of (Inr _, out) \<Rightarrow> out | (Inl _, _) \<Rightarrow> []))"

section \<open>Collecting\<close>

record collector =
  co_decoder :: decoder
  co_pending :: pending
  co_deadline :: "int option"
  co_flight :: in_flight
  co_db :: db
  co_acks :: "message list"

text \<open>What a session's collector is given.\<close>

record ('tz, 'cron) collecting =
  cg_lib :: "('tz, 'cron) cron_crate"
  cg_random :: "i64 \<Rightarrow> rat"
  cg_pack :: msgpack
  cg_config :: config
  cg_worker :: uuid

definition flush_now :: "('tz, 'cron) collecting \<Rightarrow> env \<Rightarrow> collector \<Rightarrow> collector" where
  "flush_now g v c =
     (let (p, fl, d) = flush (cg_random g) v (cg_config g) (cg_worker g) (co_pending c) (co_flight c) (co_db c)
      in c\<lparr>co_pending := p, co_flight := fl, co_db := d\<rparr>)"

text \<open>
  One message: \<open>t\<close> is the worker's clock, \<open>inst\<close> the monotonic one. Frames only the supervisor may
  send are logged and passed over.
\<close>

fun handle :: "('tz, 'cron) collecting \<Rightarrow> env \<Rightarrow> int \<Rightarrow> int \<Rightarrow> message \<Rightarrow> collector \<Rightarrow> collector" where
  "handle g v t inst (Complete i oc) c =
     c\<lparr>co_pending := push i oc (co_pending c),
       co_deadline := (case co_deadline c of None \<Rightarrow> Some (inst + int (cfg_completion_linger (cg_config g))) | Some x \<Rightarrow> Some x)\<rparr>"
| "handle g v t inst (Register entries) c = c\<lparr>co_db := register_schedules (cg_lib g) v t 0 entries (co_db c)\<rparr>"
| "handle g v t inst (Record i name result) c =
     (case run_stmt v 0 (\<lambda>now _. record_step now i name result) (co_db c) of
        (Inl e, d) \<Rightarrow> c\<lparr>co_db := d\<rparr>
      | (Inr _, d) \<Rightarrow> c\<lparr>co_db := d, co_acks := co_acks c @ [Stored i name]\<rparr>)"
| "handle g v t inst (Steps i found) c = c"
| "handle g v t inst (Stored i name) c = c"
| "handle g v t inst (Dispatch i a m name p) c = c"

text \<open>
  The inner loop: messages are handled until the buffer holds no whole frame, or holds one that
  cannot be read, when the pending reports are flushed and the collector returns. \<open>vs k\<close> are the
  surroundings of the \<open>k\<close>th message.
\<close>

function drain ::
  "('tz, 'cron) collecting \<Rightarrow> (nat \<Rightarrow> env) \<Rightarrow> int \<Rightarrow> int \<Rightarrow> nat \<Rightarrow> collector \<Rightarrow> bool \<times> collector"
where
  "drain g vs t inst k c =
     (case next_message (cg_pack g) (co_decoder c) of
        (Inr (Some m), dec) \<Rightarrow> drain g vs t inst (Suc k) (handle g (vs k) t inst m (c\<lparr>co_decoder := dec\<rparr>))
      | (Inr None, dec) \<Rightarrow> (True, c\<lparr>co_decoder := dec\<rparr>)
      | (Inl e, dec) \<Rightarrow> (False, flush_now g (vs k) (c\<lparr>co_decoder := dec\<rparr>)))"
  by pat_completeness auto

lemma handle_decoder [simp]: "co_decoder (handle g v t inst m c) = co_decoder c"
  by (cases m) (auto split: prod.split sum.split)

termination drain
  by (relation "measure (\<lambda>(g, vs, t, inst, k, c). buffered (co_decoder c))")
    (auto dest: next_message_decreases [OF sym])

declare drain.simps [simp del]

datatype event = Chunk bytes | Closed | ReadFailed | Timer

definition collect_event ::
  "('tz, 'cron) collecting \<Rightarrow> (nat \<Rightarrow> env) \<Rightarrow> env \<Rightarrow> int \<Rightarrow> int \<Rightarrow> event \<Rightarrow> collector \<Rightarrow> bool \<times> collector"
where
  "collect_event g vs v t inst ev c =
     (case ev of
        Chunk bs \<Rightarrow>
          if bs = [] then (False, flush_now g v c)
          else
            (let (going, c1) = drain g vs t inst 0 (c\<lparr>co_decoder := Protocol.extend (co_decoder c) bs\<rparr>) in
             if \<not> going then (False, c1)
             else if cfg_completion_batch (cg_config g) \<le> pending_len (co_pending c1)
             then (True, (flush_now g v c1)\<lparr>co_deadline := None\<rparr>)
             else (True, c1))
      | Closed \<Rightarrow> (False, flush_now g v c)
      | ReadFailed \<Rightarrow> (False, flush_now g v c)
      | Timer \<Rightarrow> (True, (flush_now g v c)\<lparr>co_deadline := None\<rparr>))"

text \<open>The surroundings and clocks of each event come with it.\<close>

record moment =
  mo_messages :: "nat \<Rightarrow> env"
  mo_flush :: env
  mo_wall :: int
  mo_at :: int

fun collect :: "('tz, 'cron) collecting \<Rightarrow> (moment \<times> event) list \<Rightarrow> collector \<Rightarrow> collector" where
  "collect g [] c = c"
| "collect g ((m, ev) # evs) c =
     (let (going, c1) = collect_event g (mo_messages m) (mo_flush m) (mo_wall m) (mo_at m) ev c
      in if going then collect g evs c1 else c1)"

definition new_collector :: "in_flight \<Rightarrow> db \<Rightarrow> collector" where
  "new_collector fl d =
     \<lparr>co_decoder = new_decoder, co_pending = no_pending, co_deadline = None, co_flight = fl, co_db = d,
      co_acks = []\<rparr>"

section \<open>Sessions issue statements\<close>

lemma shift_quiet [simp]: "shift k (quiet now) = quiet now"
  by (simp add: shift_def quiet_def)

lemma statement_record_step: "statement (\<lambda>now _. record_step now i name v)"
  by (rule statement_exec [of "\<lambda>_ _. RecordStep i name v"]) simp

section \<open>What the loops keep\<close>

definition around :: "(db \<Rightarrow> db \<Rightarrow> bool) \<Rightarrow> (int \<Rightarrow> bool) \<Rightarrow> moment \<Rightarrow> bool" where
  "around S T m \<longleftrightarrow> surroundings S T (mo_flush m) \<and> (\<forall>k. surroundings S T (mo_messages m k))"

context kept_by_worker
begin

lemma complete_kept:
  "surroundings S T v \<Longrightarrow> S d (snd (run_stmt v k (\<lambda>now _. complete now ids rs w) d))"
  by (rule run_call_kept [where c = "\<lambda>_ _. CompleteJobs ids rs w"]) simp_all

lemma retry_kept:
  "surroundings S T v \<Longrightarrow> S d (snd (run_stmt v k (\<lambda>now _. retry_many random now ids errs w base cap) d))"
  by (rule run_call_kept [where c = "\<lambda>_ _. Retry random ids errs w base cap"]) simp_all

lemma discard_kept:
  "surroundings S T v \<Longrightarrow> S d (snd (run_stmt v k (\<lambda>now _. discard_many now ids errs w) d))"
  by (rule run_call_kept [where c = "\<lambda>_ _. Discard ids errs w"]) simp_all

lemma record_kept:
  "surroundings S T v \<Longrightarrow> S d (snd (run_stmt v k (\<lambda>now _. record_step now i name b) d))"
  by (rule run_call_kept [where c = "\<lambda>_ _. RecordStep i name b"]) simp_all

lemma passes_kept:
  "surroundings S T v \<Longrightarrow> S d (snd (run_stmt v k (fetch_unkeyed qs limit w l) d))"
  "surroundings S T v \<Longrightarrow> S d (snd (run_stmt v k (fetch_keyed qs limit w l) d))"
  by (rule run_call_kept [where c = "\<lambda>_ skip. FetchUnkeyed qs limit w l skip"]; simp)
    (rule run_call_kept [where c = "\<lambda>_ skip. FetchKeyed qs limit w l skip"]; simp)

lemma flush_kept:
  assumes "surroundings S T v"
  shows "S d (snd (snd (flush random v cfg w p fl d)))"
proof (cases "pending_len p = 0")
  case False
  then show ?thesis
    unfolding flush_def flush_statements_def complete_many_def complete_many_with_results_def Let_def
    by (simp, intro kept_trans [OF complete_kept kept_trans [OF complete_kept kept_trans [OF retry_kept discard_kept]]] assms)
qed (simp add: flush_def kept_refl)

lemma fetch_kept:
  assumes "surroundings S T v"
  shows "S d (snd (fetch v qs limit l w d))"
proof -
  let ?read = "\<lambda>now _. bind_text qs (\<lambda>d. (Inr (keyed_waiting now qs d), d))"
  obtain r1 d1 where s1: "run_stmt v 0 (fetch_unkeyed qs limit w l) d = (r1, d1)" by fastforce
  obtain r2 d2 where s2: "run_stmt v 1 ?read d1 = (r2, d2)" by fastforce
  have "S d1 (snd (run_stmt v 1 ?read d1))" by (rule run_read_kept [OF assms]) (simp add: bind_text_def)
  moreover have 1: "S d d1" using passes_kept(1) [OF assms, of d 0 qs limit l] by (simp add: s1)
  ultimately have 2: "S d d2" unfolding s2 snd_conv by (rule kept_trans [rotated])
  have 3: "S d x \<Longrightarrow> run_stmt v 2 (fetch_keyed qs n w l) x = (r3, d3) \<Longrightarrow> S d d3" for x n r3 d3
    using kept_trans [OF _ passes_kept(2) [OF assms, of x 2 qs n l], of d] by simp
  show ?thesis
    using 1 2 3 unfolding fetch_def s1
    by (auto simp: s2 Let_def simp del: One_nat_def split: sum.split list.split prod.split bool.split)
qed

lemma prior_steps_kept:
  assumes "surroundings S T v"
  shows "S d (snd (prior_steps mp coll v j out d))"
proof -
  obtain r d1 where run: "run_stmt v 0 (\<lambda>_ _. steps_for coll (job_id j)) d = (r, d1)" by fastforce
  have "S d (snd (run_stmt v 0 (\<lambda>_ _. steps_for coll (job_id j)) d))"
    by (rule run_read_kept [OF assms]) (simp add: steps_for_def)
  then show ?thesis by (simp add: prior_steps_def run kept_refl split: sum.split)
qed

lemma frame_jobs_kept:
  "surroundings S T v \<Longrightarrow> S d0 (snd (snd s)) \<Longrightarrow> S d0 (snd (snd (frame_jobs mp coll v w js s)))"
proof (induction js arbitrary: v s)
  case (Cons j js)
  obtain out reserved d where s: "s = (out, reserved, d)" by (cases s)
  obtain out1 d1 where prior: "prior_steps mp coll v j out d = (out1, d1)" by fastforce
  have "S d d1" using prior_steps_kept [OF Cons.prems(1), of d mp coll j out] by (simp add: prior)
  then have "S d0 d1" using Cons.prems(2) by (auto simp: s intro: kept_trans)
  then have "S d0 (snd (snd (frame_job mp coll v w j s)))"
    using kept_trans [OF _ discard_kept [OF Cons.prems(1)]]
    by (auto simp: frame_job_def s prior split: prod.split sum.split)
  then show ?case using Cons.IH [of "shift 2 v"] Cons.prems(1) by simp
qed simp

lemma dispatch_turn_kept:
  assumes "surroundings S T v"
  shows "S d (snd (snd (dispatch_turn mp coll v cfg w fl d)))"
proof -
  let ?limit = "min (sint (cfg_batch cfg)) (int (available fl))"
  obtain r d1 where run: "fetch v (cfg_queues cfg) ?limit (cfg_lease cfg) w d = (r, d1)" by fastforce
  have d1: "S d d1" using fetch_kept [OF assms, of d "cfg_queues cfg" ?limit "cfg_lease cfg"] by (simp add: run)
  then have "S d (snd (snd (frame_jobs mp coll (shift 3 v) w js ([], [], d1))))" for js
    by (intro frame_jobs_kept) (use assms in simp_all)
  then show ?thesis
    using d1 unfolding dispatch_turn_def run by (simp add: prod.case_eq_if Let_def kept_refl split: sum.split)
qed

lemma flush_now_kept: "surroundings S T v \<Longrightarrow> cg_worker g = w \<Longrightarrow> S (co_db c) (co_db (flush_now g v c))"
  using flush_kept [of v "co_db c" "cg_random g" "cg_config g" "co_pending c" "co_flight c"]
  by (simp add: flush_now_def prod.case_eq_if)

lemma handle_kept: "surroundings S T v \<Longrightarrow> S (co_db c) (co_db (handle g v t inst m c))"
proof (cases m)
  case (Record i name b)
  assume "surroundings S T v"
  from record_kept [OF this, of "co_db c" 0 i name b] show ?thesis by (auto simp: Record split: prod.split sum.split)
qed (simp_all add: register_schedules_kept kept_refl)

lemma drain_kept:
  "(\<And>k. surroundings S T (vs k)) \<Longrightarrow> cg_worker g = w \<Longrightarrow> S (co_db c) (co_db (snd (drain g vs t inst k c)))"
proof (induction g vs t inst k c rule: drain.induct)
  case (1 g vs t inst k c)
  show ?case
  proof (cases "next_message (cg_pack g) (co_decoder c)")
    case (Pair r dec)
    let ?c = "c\<lparr>co_decoder := dec\<rparr>"
    consider e where "r = Inl e" | "r = Inr None" | m where "r = Inr (Some m)" by (cases r) (auto elim: option.exhaust)
    then show ?thesis
    proof cases
      case 1
      then show ?thesis
        using flush_now_kept [OF "1.prems"(1) [of k] "1.prems"(2), of ?c] by (simp add: drain.simps [of g vs t inst k c] Pair)
    next
      case 2
      then show ?thesis by (simp add: drain.simps [of g vs t inst k c] Pair kept_refl)
    next
      case (3 m)
      let ?h = "handle g (vs k) t inst m ?c"
      have "S (co_db c) (co_db ?h)" using handle_kept [OF "1.prems"(1) [of k], where c = ?c] by simp
      moreover have "S (co_db ?h) (co_db (snd (drain g vs t inst (Suc k) ?h)))"
        by (rule "1.IH" [OF Pair [symmetric]]) (use 3 "1.prems" in auto)
      ultimately show ?thesis by (auto simp: drain.simps [of g vs t inst k c] Pair 3 intro: kept_trans)
    qed
  qed
qed

lemma collect_event_kept:
  assumes "surroundings S T v" "\<And>k. surroundings S T (vs k)" "cg_worker g = w"
  shows "S (co_db c) (co_db (snd (collect_event g vs v t inst ev c)))"
proof (cases ev)
  case (Chunk bs)
  let ?c = "c\<lparr>co_decoder := Protocol.extend (co_decoder c) bs\<rparr>"
  obtain going c1 where run: "drain g vs t inst 0 ?c = (going, c1)" by fastforce
  have "S (co_db c) (co_db c1)"
    using drain_kept [where vs = vs and g = g and t = t and inst = inst and k = 0 and c = ?c] assms(2,3) by (simp add: run)
  then show ?thesis
    using kept_trans [OF _ flush_now_kept [OF assms(1,3), of c1]] flush_now_kept [OF assms(1,3), of c] by (simp add: collect_event_def Chunk run)
qed (simp_all add: collect_event_def flush_now_kept [OF assms(1,3)])

lemma collect_kept:
  "\<forall>(m, ev) \<in> set evs. around S T m \<Longrightarrow> cg_worker g = w \<Longrightarrow> S (co_db c) (co_db (collect g evs c))"
proof (induction evs arbitrary: c)
  case (Cons x evs)
  obtain m ev where x: "x = (m, ev)" by fastforce
  obtain going c1 where run: "collect_event g (mo_messages m) (mo_flush m) (mo_wall m) (mo_at m) ev c = (going, c1)" by fastforce
  have "S (co_db c) (co_db c1)"
    using collect_event_kept [of "mo_flush m" "mo_messages m" g c "mo_wall m" "mo_at m" ev] Cons.prems
    by (simp add: x run around_def)
  then show ?case using Cons.IH [of c1] Cons.prems by (auto simp: x run intro: kept_trans)
qed (simp add: kept_refl)

end

text \<open>So every turn of a worker is a sequence of statements.\<close>

lemma dispatch_turn_steps: "orderly v \<Longrightarrow> db_steps d (snd (snd (dispatch_turn mp coll v cfg w fl d)))"
  by (simp add: orderly_surroundings issued.dispatch_turn_kept)

lemma flush_now_steps: "orderly v \<Longrightarrow> db_steps (co_db c) (co_db (flush_now g v c))"
  by (simp add: orderly_surroundings issued.flush_now_kept)

lemma handle_steps: "orderly v \<Longrightarrow> db_steps (co_db c) (co_db (handle g v t inst m c))"
  by (simp add: orderly_surroundings issued.handle_kept)

definition orderly_moment :: "moment \<Rightarrow> bool" where
  "orderly_moment m \<longleftrightarrow> orderly (mo_flush m) \<and> (\<forall>k. orderly (mo_messages m k))"

lemma collect_steps:
  "\<forall>(m, ev) \<in> set evs. orderly_moment m \<Longrightarrow> db_steps (co_db c) (co_db (collect g evs c))"
  by (rule issued.collect_kept [OF _ refl]) (simp add: orderly_moment_def orderly_surroundings around_def)

lemma reachable_steps: "db_steps d d' \<Longrightarrow> reachable_db d \<Longrightarrow> reachable_db d'"
  by (induction rule: rtranclp_induct) (auto simp: reachable_db_def intro: reach_step)

text \<open>
  C4: A worker never disturbs a job another worker runs. From a reachable database, while the other
  worker's lease has not expired at any time the statements see and other sessions leave the row
  alone, the row stays exactly as it is through a turn of dispatching, a whole run of the collector
  over any bytes - whatever jobs the reports name and whatever schedules they register - the hand back
  of a failed session, and a turn of each of the three maintenance loops, whichever of their
  statements fail, before or after they took effect. The retention turn returns, given one more
  batch of fuel than fit its time budget.
\<close>

theorem worker_leaves_other_workers_alone:
  assumes "reachable_db d" "r \<in> set (jobs d)" "state r = Running" "locked_by r \<noteq> Some w" "lease_expires_at r = Some e"
    and v: "\<forall>v \<in> {dv, hv, rv, sv, fv, xv, pv}. surroundings (spares r) (\<lambda>now. now \<le> e) v"
    and moments: "\<forall>(m, ev) \<in> set evs. around (spares r) (\<lambda>now. now \<le> e) m" and "cg_worker g = w"
    and budget: "TICK_BUDGET < elapsed j" "j < fuel"
  shows "r \<in> set (jobs (snd (snd (dispatch_turn mp coll dv cfg w fl d))))
    \<and> r \<in> set (jobs (co_db (collect g evs (new_collector fl d))))
    \<and> r \<in> set (jobs (snd (hand_back hv fl cfg w d)))
    \<and> r \<in> set (jobs (renew_turn rv cfg w fl d))
    \<and> r \<in> set (jobs (recover_turn lib sv fv xv t cfg d))
    \<and> (\<exists>n d'. retain_turn fuel pv elapsed cfg d = Some (n, d') \<and> r \<in> set (jobs d'))"
proof -
  have inv: "db_inv d" using pg.reach_inv assms(1) by (simp add: reachable_db_def)
  have "leased_elsewhere w e r" using inv assms(2-5) by (simp add: leased_elsewhere_def db_inv_def db_wf_def)
  note kept = kept_by_worker_spares [OF this]
  have go: "r \<in> set (jobs d')" if "spares r d d'" for d' using that inv assms(2) by (simp add: spares_def)
  obtain n d' where retain: "retain_turn fuel pv elapsed cfg d = Some (n, d')"
    using retain_turn_returns [of elapsed j fuel, OF budget] by blast
  have collected: "spares r d (co_db (collect g evs (new_collector fl d)))"
    using kept_by_worker.collect_kept [OF kept moments assms(8), of "new_collector fl d"] by (simp add: new_collector_def)
  show ?thesis
  proof (intro conjI)
    show "r \<in> set (jobs (snd (snd (dispatch_turn mp coll dv cfg w fl d))))"
      by (rule go, rule kept_by_worker.dispatch_turn_kept [OF kept]) (use v in simp)
    show "r \<in> set (jobs (recover_turn lib sv fv xv t cfg d))"
      by (rule go, rule kept_by_worker.recover_turn_kept [OF kept]) (use v in simp_all)
    show "\<exists>n d'. retain_turn fuel pv elapsed cfg d = Some (n, d') \<and> r \<in> set (jobs d')"
      using retain go [OF kept_by_worker.retain_turn_kept [OF kept _ retain]] v by simp
  qed (use go [OF collected] go [OF kept_by_worker.hand_back_kept [OF kept]] go [OF kept_by_worker.renew_turn_kept [OF kept]] v in simp_all)
qed

definition quiet_moment :: "int \<Rightarrow> moment" where
  "quiet_moment now = \<lparr>mo_messages = (\<lambda>_. quiet now), mo_flush = quiet now, mo_wall = now, mo_at = now\<rparr>"

definition sample_collecting :: "(unit, unit) collecting" where
  "sample_collecting =
     \<lparr>cg_lib = hourly_crate, cg_random = (\<lambda>_. 0), cg_pack = unary_pack, cg_config = sample_config, cg_worker = 7\<rparr>"

lemma surroundings_quiet: "T now \<Longrightarrow> (\<And>d. S d d) \<Longrightarrow> surroundings S T (quiet now)"
  by (simp add: surroundings_def quiet_def)

theorem worker_leaves_other_workers_alone_witness:
  "let r = (leased_row 1 7 40)\<lparr>started_at := Some 10\<rparr>; v = quiet 20 in
     r \<in> set (jobs worked_db)
   \<and> r \<in> set (jobs (snd (snd (dispatch_turn unary_pack length v sample_config 8 busy worked_db))))
   \<and> r \<in> set (jobs (co_db (collect (sample_collecting\<lparr>cg_worker := 8\<rparr>)
         [(quiet_moment 20, Chunk [1, 2]), (quiet_moment 30, Timer)] (new_collector busy worked_db))))
   \<and> r \<in> set (jobs (snd (hand_back v busy sample_config 8 worked_db)))"
proof -
  let ?r = "(leased_row 1 7 40)\<lparr>started_at := Some 10\<rparr>"
  let ?evs = "[(quiet_moment 20, Chunk [1, 2]), (quiet_moment 30, Timer)]"
  have r: "?r \<in> set (jobs worked_db)" by (simp add: worked_db_jobs)
  have still: "surroundings (spares ?r) (\<lambda>now. now \<le> 40) (quiet now)" if "now \<le> 40" for now
    by (rule surroundings_quiet) (use that in \<open>simp_all add: spares_def\<close>)
  have moments: "\<forall>(m, ev) \<in> set ?evs. around (spares ?r) (\<lambda>now. now \<le> 40) m"
    by (simp add: around_def quiet_moment_def still)
  have row: "state ?r = Running" "locked_by ?r \<noteq> Some 8" "lease_expires_at ?r = Some 40" by (simp_all add: leased_row_def)
  have quiet: "\<forall>v \<in> {quiet 20, quiet 20, quiet 20, quiet 20, quiet 20, quiet 20, quiet 20}. surroundings (spares ?r) (\<lambda>now. now \<le> 40) v"
    by (simp add: still)
  have "cg_worker (sample_collecting\<lparr>cg_worker := 8\<rparr>) = 8" "TICK_BUDGET < (\<lambda>_. TICK_BUDGET + 1) (0::nat)" "0 < (1::nat)" by simp_all
  from worker_leaves_other_workers_alone [OF worked_db_reachable r row quiet moments this, where mp = unary_pack and coll = length
      and cfg = sample_config and fl = busy and lib = hourly_crate] r
  show ?thesis unfolding Let_def by blast
qed

end
