(* ===== verification/Reports.thy ===== *)
theory Reports
  imports Worker
begin

text \<open>
  From the bytes a child writes to the rows its jobs end in: a batch of pending reports records
  every outcome it holds and touches no other running job, and the collector, however the bytes
  arrive and whenever its timer fires, passes every report to exactly one such batch.
\<close>

section \<open>What a report leaves on the row\<close>

fun recorded :: "outcome \<Rightarrow> job_row \<Rightarrow> bool" where
  "recorded (Success v) r \<longleftrightarrow> state r = Completed \<and> job_result r = (if v = [] then None else Some v)"
| "recorded (Failure e retry) r \<longleftrightarrow>
     e \<in> ee_error ` set (errors r)
   \<and> (if retry then state r \<in> {Available, Discarded, Cancelled} else state r = Discarded)"

definition recorded_in :: "db \<Rightarrow> i64 \<times> outcome \<Rightarrow> bool" where
  "recorded_in d x \<longleftrightarrow> (\<exists>r \<in> set (jobs d). row_id r = fst x \<and> recorded (snd x) r)"

definition held_in :: "uuid \<Rightarrow> db \<Rightarrow> i64 \<Rightarrow> bool" where
  "held_in w d i \<longleftrightarrow> (\<exists>r \<in> set (jobs d). row_id r = i \<and> state r = Running \<and> locked_by r = Some w)"

definition retryable :: "config \<Rightarrow> db \<Rightarrow> bool" where
  "retryable cfg d \<longleftrightarrow> (\<forall>r \<in> set (jobs d). state r = Running \<longrightarrow> \<not> delay_overflows (cfg_retry_base cfg) (sint (attempt r)))"

text \<open>
  A statement that reports on some jobs of a worker: rows stay in place, none starts to run, and
  what is not reported on keeps running as it was or keeps what was recorded before.
\<close>

definition reports_on :: "uuid \<Rightarrow> i64 list \<Rightarrow> db \<Rightarrow> db \<Rightarrow> bool" where
  "reports_on w ids d d' \<longleftrightarrow> (\<exists>f. jobs d' = map f (jobs d) \<and> (\<forall>r \<in> set (jobs d).
      row_id (f r) = row_id r \<and> (state (f r) = Running \<longrightarrow> f r = r)
    \<and> (\<not> holds w ids r \<longrightarrow> (state r = Running \<longrightarrow> f r = r) \<and> (\<forall>oc. recorded oc r \<longrightarrow> recorded oc (f r)))))"

lemma reports_onI:
  assumes "jobs d' = map f (jobs d)"
    and "\<And>r. r \<in> set (jobs d) \<Longrightarrow> row_id (f r) = row_id r \<and> (state (f r) = Running \<longrightarrow> f r = r)"
    and "\<And>r. r \<in> set (jobs d) \<Longrightarrow> \<not> holds w ids r \<Longrightarrow> state r = Running \<Longrightarrow> f r = r"
    and "\<And>r oc. r \<in> set (jobs d) \<Longrightarrow> \<not> holds w ids r \<Longrightarrow> recorded oc r \<Longrightarrow> recorded oc (f r)"
  shows "reports_on w ids d d'"
  unfolding reports_on_def using assms by blast

lemma recorded_not_running: "recorded oc r \<Longrightarrow> state r \<noteq> Running"
  by (cases oc) (auto split: if_splits)

lemma recorded_finish: "holds w ids r \<Longrightarrow> recorded (Success v) (finish_row now (if v = [] then None else Some v) r)"
  by (simp add: finish_row_def)

lemma complete_reports_on:
  assumes "db_inv d"
  shows "reports_on w ids d (snd (complete now ids vs w d))"
proof (rule reports_onI [OF complete_ok(2) [OF assms]])
  fix r assume r: "r \<in> set (jobs d)"
  have idle: "state r = Running \<Longrightarrow> \<not> holds w ids r \<Longrightarrow> complete_row now ids vs w d r = r"
    using edges_into_pending(2) [OF assms r, of w ids] by (simp add: complete_row_def)
  then show "\<not> holds w ids r \<Longrightarrow> state r = Running \<Longrightarrow> complete_row now ids vs w d r = r" by blast
  show "row_id (complete_row now ids vs w d r) = row_id r \<and>
      (state (complete_row now ids vs w d r) = Running \<longrightarrow> complete_row now ids vs w d r = r)"
  proof (cases "holds w ids r")
    case False
    then have "row_id (complete_row now ids vs w d r) = row_id r" "state (complete_row now ids vs w d r) = state r"
      by (simp_all add: complete_row_def unblock_row_def)
    then show ?thesis using idle False by simp
  qed (simp add: complete_row_def finish_row_def)
  show "recorded oc (complete_row now ids vs w d r)" if "\<not> holds w ids r" "recorded oc r" for oc
    using that by (cases oc) (auto simp: complete_row_def unblock_row_def)
qed

lemma retry_reports_on: "reports_on w ids d (snd (retry_many random now ids errs w base cap d))"
proof (cases rule: retry_many_cases [of random now ids errs w base cap d])
  case (retried res)
  show ?thesis
    by (rule reports_onI [of _ "\<lambda>r. if holds w ids r then retry_row random now ids errs base cap r else r"])
      (auto simp: retried update_where_def retry_row_def discard_row_def reschedule_row_def)
qed (auto intro: reports_onI [of _ "\<lambda>r. r"])

lemma discard_reports_on: "reports_on w ids d (snd (discard_many now ids errs w d))"
proof (cases "list_all text_ok errs")
  case True
  show ?thesis
  proof (rule reports_onI [OF discard_many_jobs(2) [OF True]])
    show "recorded oc (discard_many_row now ids errs w d r)" if "\<not> holds w ids r" "recorded oc r" for oc r
      using that by (cases oc) (auto simp: discard_many_row_def cascade_row_def)
  qed (auto simp: discard_many_row_def discard_row_def cascade_row_def)
qed (auto simp: discard_many_jobs(3) intro: reports_onI [of _ "\<lambda>r. r"])

lemma reports_on_keeps:
  assumes "reports_on w ids d d'"
  shows "held_in w d i \<Longrightarrow> i \<notin> set ids \<Longrightarrow> held_in w d' i"
    and "recorded_in d x \<Longrightarrow> recorded_in d' x"
    and "retryable cfg d \<Longrightarrow> retryable cfg d'"
proof -
  obtain f where f: "jobs d' = map f (jobs d)"
    "\<And>r. r \<in> set (jobs d) \<Longrightarrow> row_id (f r) = row_id r \<and> (state (f r) = Running \<longrightarrow> f r = r)"
    "\<And>r. r \<in> set (jobs d) \<Longrightarrow> \<not> holds w ids r \<Longrightarrow> state r = Running \<Longrightarrow> f r = r"
    "\<And>r oc. r \<in> set (jobs d) \<Longrightarrow> \<not> holds w ids r \<Longrightarrow> recorded oc r \<Longrightarrow> recorded oc (f r)"
    using assms unfolding reports_on_def by blast
  show "held_in w d' i" if h: "held_in w d i" "i \<notin> set ids"
  proof -
    obtain r where r: "r \<in> set (jobs d)" "row_id r = i" "state r = Running" "locked_by r = Some w"
      using h(1) unfolding held_in_def by blast
    then have "f r = r" using f(3) h(2) by (simp add: holds_def)
    then have "r \<in> set (jobs d')" using r(1) unfolding f(1) set_map by (metis image_eqI)
    then show ?thesis using r unfolding held_in_def by blast
  qed
  show "recorded_in d' x" if h: "recorded_in d x"
  proof -
    obtain r where r: "r \<in> set (jobs d)" "row_id r = fst x" "recorded (snd x) r"
      using h unfolding recorded_in_def by blast
    then have "\<not> holds w ids r" using recorded_not_running by (auto simp: holds_def)
    then show ?thesis using r f(2,4) unfolding recorded_in_def f(1) by (intro bexI [of _ "f r"] conjI) auto
  qed
  show "retryable cfg d'" if h: "retryable cfg d"
    unfolding retryable_def
  proof (intro ballI impI)
    fix x assume "x \<in> set (jobs d')" "state x = Running"
    then obtain r where "r \<in> set (jobs d)" "x = f r" "f r = r" using f(1,2) by auto
    then show "\<not> delay_overflows (cfg_retry_base cfg) (sint (attempt x))"
      using h \<open>state x = Running\<close> by (simp add: retryable_def)
  qed
qed

section \<open>A batch of reports\<close>

abbreviation (input) push_report :: "i64 \<times> outcome \<Rightarrow> pending \<Rightarrow> pending" where
  "push_report \<equiv> \<lambda>(i, oc). push i oc"

definition pending_of :: "(i64 \<times> outcome) list \<Rightarrow> pending" where
  "pending_of rs = fold push_report rs no_pending"

fun plain :: "outcome \<Rightarrow> bool" where
  "plain (Success v) = (v = [])" | "plain (Failure e retry) = False"

fun with_value :: "outcome \<Rightarrow> bytes option" where
  "with_value (Success v) = (if v = [] then None else Some v)" | "with_value (Failure e retry) = None"

fun failed_with :: "bool \<Rightarrow> outcome \<Rightarrow> string option" where
  "failed_with b (Failure e retry) = (if retry = b then Some e else None)" | "failed_with b (Success v) = None"

lemma push_fields:
  "pe_completed (push i oc p) = pe_completed p @ (if plain oc then [i] else [])"
  "pe_with_result (push i oc p) = pe_with_result p @ (if with_value oc \<noteq> None then [i] else [])"
  "pe_results (push i oc p) = pe_results p @ (case with_value oc of None \<Rightarrow> [] | Some v \<Rightarrow> [v])"
  "pe_retry (push i oc p) = pe_retry p @ (if failed_with True oc \<noteq> None then [i] else [])"
  "pe_retry_errors (push i oc p) = pe_retry_errors p @ (case failed_with True oc of None \<Rightarrow> [] | Some v \<Rightarrow> [v])"
  "pe_terminal (push i oc p) = pe_terminal p @ (if failed_with False oc \<noteq> None then [i] else [])"
  "pe_terminal_errors (push i oc p) = pe_terminal_errors p @ (case failed_with False oc of None \<Rightarrow> [] | Some v \<Rightarrow> [v])"
  by (cases oc; simp)+

lemma fold_push:
  "pe_completed (fold push_report rs p) = pe_completed p @ map fst (filter (plain \<circ> snd) rs)"
  "pe_with_result (fold push_report rs p) = pe_with_result p @ map fst (filter (\<lambda>x. with_value (snd x) \<noteq> None) rs)"
  "pe_results (fold push_report rs p) = pe_results p @ List.map_filter (with_value \<circ> snd) rs"
  "pe_retry (fold push_report rs p) = pe_retry p @ map fst (filter (\<lambda>x. failed_with True (snd x) \<noteq> None) rs)"
  "pe_retry_errors (fold push_report rs p) = pe_retry_errors p @ List.map_filter (failed_with True \<circ> snd) rs"
  "pe_terminal (fold push_report rs p) = pe_terminal p @ map fst (filter (\<lambda>x. failed_with False (snd x) \<noteq> None) rs)"
  "pe_terminal_errors (fold push_report rs p) = pe_terminal_errors p @ List.map_filter (failed_with False \<circ> snd) rs"
  by (induction rs arbitrary: p; simp add: push_fields map_filter_simps prod.case_eq_if split: option.split)+

lemmas pending_of_fields = fold_push [of _ no_pending, folded pending_of_def]

text \<open>The value a report carries is found at its identifier's position.\<close>

lemma zip_map_filter:
  "map_of (zip (map fst (filter (\<lambda>x. g (snd x) \<noteq> None) rs)) (List.map_filter (g \<circ> snd) rs)) i
   = map_of (map (\<lambda>x. (fst x, the (g (snd x)))) (filter (\<lambda>x. g (snd x) \<noteq> None) rs)) i"
  by (induction rs) (auto simp: map_filter_simps)

lemma map_of_report:
  assumes "distinct (map fst rs)" "(i, oc) \<in> set rs" "g oc = Some v"
  shows "map_of (zip (map fst (filter (\<lambda>x. g (snd x) \<noteq> None) rs)) (List.map_filter (g \<circ> snd) rs)) i = Some v"
  unfolding zip_map_filter
proof (rule map_of_is_SomeI)
  show "distinct (map fst (map (\<lambda>x. (fst x, the (g (snd x)))) (filter (\<lambda>x. g (snd x) \<noteq> None) rs)))"
    using assms(1) by (simp add: o_def distinct_map_filter)
  show "(i, v) \<in> set (map (\<lambda>x. (fst x, the (g (snd x)))) (filter (\<lambda>x. g (snd x) \<noteq> None) rs))"
    using assms(2,3) by force
qed

text \<open>What each of the four statements records of the jobs it reports on.\<close>

lemma complete_records:
  assumes "db_inv d" "held_in w d i" "i \<in> set ids"
    and "(case map_of (zip ids vs) i of None \<Rightarrow> None | Some v \<Rightarrow> v) = (if v = [] then None else Some v)"
  shows "recorded_in (snd (complete now ids vs w d)) (i, Success v)"
proof -
  obtain r where r: "r \<in> set (jobs d)" "row_id r = i" "state r = Running" "locked_by r = Some w"
    using assms(2) unfolding held_in_def by blast
  then have "complete_row now ids vs w d r = finish_row now (if v = [] then None else Some v) r"
    using assms(3,4) by (simp add: complete_row_def holds_def)
  then have "recorded (Success v) (complete_row now ids vs w d r)" "row_id (complete_row now ids vs w d r) = i"
    using r(2) by (simp_all add: finish_row_def)
  then show ?thesis using r(1) by (auto simp: recorded_in_def complete_ok(2) [OF assms(1)])
qed

lemma retry_records:
  assumes "held_in w d i" "i \<in> set ids" "list_all text_ok errs" "retryable cfg d" "map_of (zip ids errs) i = Some e"
  shows "recorded_in (snd (retry_many random now ids errs w (cfg_retry_base cfg) cap d)) (i, Failure e True)"
proof -
  obtain r where r: "r \<in> set (jobs d)" "row_id r = i" "state r = Running" "locked_by r = Some w"
    using assms(1) unfolding held_in_def by blast
  have ids: "ids \<noteq> []" using assms(2) by auto
  show ?thesis
  proof (cases rule: retry_many_cases [of random now ids errs w "cfg_retry_base cfg" cap d])
    case (refused e')
    have "fst (retry_many random now ids errs w (cfg_retry_base cfg) cap d) \<noteq> Inl (Database e')"
      using assms(4) by (subst retry_many_accepted [OF ids assms(3)]) (auto simp: retryable_def holds_def)
    then show ?thesis using refused by simp
  next
    case (retried res)
    let ?r = "retry_row random now ids errs (cfg_retry_base cfg) cap r"
    have "recorded (Failure e True) ?r" "row_id ?r = i"
      using assms(5) r(2) by (simp_all add: retry_row_def discard_row_def reschedule_row_def error_for_def)
    moreover have "?r \<in> set (jobs (snd (retry_many random now ids errs w (cfg_retry_base cfg) cap d)))"
      using r assms(2) by (force simp: retried update_where_def holds_def)
    ultimately show ?thesis unfolding recorded_in_def by (intro bexI [of _ ?r]) simp_all
  qed
qed

lemma discard_records:
  assumes "held_in w d i" "i \<in> set ids" "list_all text_ok errs" "map_of (zip ids errs) i = Some e"
  shows "recorded_in (snd (discard_many now ids errs w d)) (i, Failure e False)"
proof -
  obtain r where r: "r \<in> set (jobs d)" "row_id r = i" "state r = Running" "locked_by r = Some w"
    using assms(1) unfolding held_in_def by blast
  let ?r = "discard_many_row now ids errs w d r"
  have "recorded (Failure e False) ?r" "row_id ?r = i"
    using assms(2,4) r by (simp_all add: discard_many_row_def holds_def discard_row_def error_for_def)
  then show ?thesis using r(1) unfolding recorded_in_def discard_many_jobs(2) [OF assms(3)] by auto
qed

text \<open>The messages of a batch are text the database takes.\<close>

definition texts_ok :: "(i64 \<times> outcome) list \<Rightarrow> bool" where
  "texts_ok rs \<longleftrightarrow> (\<forall>(i, oc) \<in> set rs. case oc of Success v \<Rightarrow> True | Failure e retry \<Rightarrow> text_ok e)"

lemma texts_ok_errors: "texts_ok rs \<Longrightarrow> list_all text_ok (List.map_filter (failed_with b \<circ> snd) rs)"
  by (induction rs) (auto simp: texts_ok_def map_filter_simps split: outcome.splits option.splits if_splits)

lemma flush_statements_quiet:
  "flush_statements random (quiet now) cfg w p d =
     snd (discard_many now (pe_terminal p) (pe_terminal_errors p) w
       (snd (retry_many random now (pe_retry p) (pe_retry_errors p) w (cfg_retry_base cfg) (cfg_retry_cap cfg)
         (snd (complete_many_with_results now (pe_with_result p) (pe_results p) w
           (snd (complete_many now (pe_completed p) w d)))))))"
  by (simp add: flush_statements_def Let_def)

lemma complete_many_eqs:
  "complete_many now ids w d = complete now ids (replicate (length ids) None) w d"
  "complete_many_with_results now ids vs w d = complete now ids (map Some vs) w d"
  by (simp_all add: complete_many_def complete_many_with_results_def)

lemma zip_replicate_none: "(case map_of (zip ids (replicate n None)) i of None \<Rightarrow> None | Some v \<Rightarrow> v) = None"
  by (auto split: option.split dest!: map_of_SomeD set_zip_rightD)

lemma reported_once:
  "distinct (map fst rs) \<Longrightarrow> (i, oc) \<in> set rs \<Longrightarrow> i \<in> set (map fst (filter P rs)) \<longleftrightarrow> P (i, oc)"
  by (force simp: distinct_map inj_on_def)

text \<open>
  A flush whose statements all reach the database goes through three intermediate databases;
  what was recorded stays so through all of them, and the jobs of a later statement are still held.
\<close>

definition flushed :: "(i64 \<Rightarrow> rat) \<Rightarrow> int \<Rightarrow> config \<Rightarrow> uuid \<Rightarrow> pending \<Rightarrow> nat \<Rightarrow> db \<Rightarrow> db" where
  "flushed random now cfg w p k d =
     (let d1 = snd (complete_many now (pe_completed p) w d);
          d2 = snd (complete_many_with_results now (pe_with_result p) (pe_results p) w d1);
          d3 = snd (retry_many random now (pe_retry p) (pe_retry_errors p) w (cfg_retry_base cfg) (cfg_retry_cap cfg) d2);
          d4 = snd (discard_many now (pe_terminal p) (pe_terminal_errors p) w d3)
      in [d, d1, d2, d3, d4] ! k)"

lemma flushed_simps:
  "flushed random now cfg w p 0 d = d"
  "flushed random now cfg w p 1 d = snd (complete now (pe_completed p) (replicate (length (pe_completed p)) None) w d)"
  "flushed random now cfg w p 2 d =
     snd (complete now (pe_with_result p) (map Some (pe_results p)) w (flushed random now cfg w p 1 d))"
  "flushed random now cfg w p 3 d =
     snd (retry_many random now (pe_retry p) (pe_retry_errors p) w (cfg_retry_base cfg) (cfg_retry_cap cfg) (flushed random now cfg w p 2 d))"
  "flushed random now cfg w p 4 d =
     snd (discard_many now (pe_terminal p) (pe_terminal_errors p) w (flushed random now cfg w p 3 d))"
  "flush_statements random (quiet now) cfg w p d = flushed random now cfg w p 4 d"
  by (simp_all add: flushed_def complete_many_eqs flush_statements_quiet Let_def)

lemma flushed_inv:
  assumes "db_inv d"
  shows "db_inv (flushed random now cfg w p 1 d)" "db_inv (flushed random now cfg w p 2 d)"
    "db_inv (flushed random now cfg w p 3 d)" "db_inv (flushed random now cfg w p 4 d)"
  using assms by (simp_all add: flushed_simps(2-5) complete_inv retry_many_inv discard_many_inv del: One_nat_def)

lemma flushed_reports_on:
  assumes "db_inv d"
  shows "reports_on w (pe_completed p) d (flushed random now cfg w p 1 d)"
    "reports_on w (pe_with_result p) (flushed random now cfg w p 1 d) (flushed random now cfg w p 2 d)"
    "reports_on w (pe_retry p) (flushed random now cfg w p 2 d) (flushed random now cfg w p 3 d)"
    "reports_on w (pe_terminal p) (flushed random now cfg w p 3 d) (flushed random now cfg w p 4 d)"
  using complete_reports_on [OF assms] complete_reports_on [OF flushed_inv(1) [OF assms]]
  by (simp_all add: flushed_simps(2-5) retry_reports_on discard_reports_on del: One_nat_def)

lemmas flushed_keeps =
  flushed_reports_on(1) [THEN reports_on_keeps(1)] flushed_reports_on(2) [THEN reports_on_keeps(1)]
  flushed_reports_on(3) [THEN reports_on_keeps(1)] flushed_reports_on(4) [THEN reports_on_keeps(1)]

lemmas flushed_recorded =
  flushed_reports_on(1) [THEN reports_on_keeps(2)] flushed_reports_on(2) [THEN reports_on_keeps(2)]
  flushed_reports_on(3) [THEN reports_on_keeps(2)] flushed_reports_on(4) [THEN reports_on_keeps(2)]

lemmas flushed_retryable =
  flushed_reports_on(1) [THEN reports_on_keeps(3)] flushed_reports_on(2) [THEN reports_on_keeps(3)]
  flushed_reports_on(3) [THEN reports_on_keeps(3)] flushed_reports_on(4) [THEN reports_on_keeps(3)]

lemmas batch_fields = pending_of_fields no_pending_def

lemma flush_records_success:
  assumes "db_inv d" "distinct (map fst rs)" and i: "(i, Success v) \<in> set rs" and held: "held_in w d i"
  shows "recorded_in (flushed random now cfg w (pending_of rs) 4 d) (i, Success v)"
proof -
  let ?p = "pending_of rs" and ?d = "\<lambda>k. flushed random now cfg w (pending_of rs) k d"
  note once = reported_once [OF assms(2) i] and on = flushed_recorded [OF assms(1)]
  have "recorded_in (?d 2) (i, Success v)"
  proof (cases "v = []")
    case True
    then have "i \<in> set (pe_completed ?p)" using once [of "plain \<circ> snd"] by (simp add: batch_fields)
    then have "recorded_in (?d 1) (i, Success v)"
      using complete_records [OF assms(1) held, of "pe_completed ?p" _ v] True
      by (simp add: flushed_simps(2) zip_replicate_none del: One_nat_def)
    then show ?thesis using on(2) by blast
  next
    case False
    then have at: "i \<in> set (pe_with_result ?p)" "i \<notin> set (pe_completed ?p)"
      "map_of (zip (pe_with_result ?p) (pe_results ?p)) i = Some v"
      using once [of "plain \<circ> snd"] once [of "\<lambda>x. with_value (snd x) \<noteq> None"] map_of_report [OF assms(2) i, of with_value]
      by (simp_all add: batch_fields)
    show ?thesis
      using complete_records [OF flushed_inv(1) [OF assms(1)] flushed_keeps(1) [OF assms(1) held at(2)] at(1), of _ v] at(3) False
      by (simp add: flushed_simps(3) zip_map2 map_of_map option.map_comp del: One_nat_def)
  qed
  then show ?thesis using on(3,4) by blast
qed

lemma flush_records_failure:
  assumes inv: "db_inv d" and "retryable cfg d" "texts_ok rs" "distinct (map fst rs)"
    and i: "(i, Failure e retry) \<in> set rs" and held: "held_in w d i"
  shows "recorded_in (flushed random now cfg w (pending_of rs) 4 d) (i, Failure e retry)"
proof -
  let ?p = "pending_of rs" and ?d = "\<lambda>k. flushed random now cfg w (pending_of rs) k d"
  note once = reported_once [OF assms(4) i] and found = map_of_report [OF assms(4) i]
  have texts: "list_all text_ok (pe_retry_errors ?p)" "list_all text_ok (pe_terminal_errors ?p)"
    using texts_ok_errors [OF assms(3)] by (simp_all add: batch_fields)
  have "i \<notin> set (pe_completed ?p)" "i \<notin> set (pe_with_result ?p)"
    using once [of "plain \<circ> snd"] once [of "\<lambda>x. with_value (snd x) \<noteq> None"] by (simp_all add: batch_fields)
  then have held2: "held_in w (?d 2) i" using flushed_keeps(1,2) [OF inv] held by blast
  have base: "retryable cfg (?d 2)" using assms(2) flushed_retryable(1,2) [OF inv] by blast
  have at: "if retry then i \<in> set (pe_retry ?p) \<and> map_of (zip (pe_retry ?p) (pe_retry_errors ?p)) i = Some e
      else i \<in> set (pe_terminal ?p) \<and> i \<notin> set (pe_retry ?p) \<and> map_of (zip (pe_terminal ?p) (pe_terminal_errors ?p)) i = Some e"
    using once [of "\<lambda>x. failed_with True (snd x) \<noteq> None"] once [of "\<lambda>x. failed_with False (snd x) \<noteq> None"]
      found [of "failed_with True"] found [of "failed_with False"] by (simp add: batch_fields)
  show ?thesis
  proof (cases retry)
    case True
    then have "recorded_in (?d 3) (i, Failure e retry)"
      using retry_records [OF held2 _ texts(1) base] at by (simp add: flushed_simps(4))
    then show ?thesis using flushed_recorded(4) [OF inv] by blast
  next
    case False
    then show ?thesis
      using discard_records [OF flushed_keeps(3) [OF inv held2] _ texts(2)] at by (simp add: flushed_simps(5))
  qed
qed

lemma flush_records:
  fixes rs random now cfg w d
  defines "d' \<equiv> flush_statements random (quiet now) cfg w (pending_of rs) d"
  assumes inv: "db_inv d" and "retryable cfg d" "texts_ok rs" "distinct (map fst rs)" "\<forall>x \<in> set rs. held_in w d (fst x)"
  shows "db_inv d'" and "retryable cfg d'" and "\<forall>x \<in> set rs. recorded_in d' x"
    and "recorded_in d y \<Longrightarrow> recorded_in d' y" and "held_in w d i \<Longrightarrow> i \<notin> fst ` set rs \<Longrightarrow> held_in w d' i"
proof -
  have d': "d' = flushed random now cfg w (pending_of rs) 4 d" by (simp add: d'_def flushed_simps(6))
  show "db_inv d'" by (simp add: d' flushed_inv(4) [OF inv])
  show "retryable cfg d'" unfolding d' by (intro flushed_retryable [OF inv] assms(3))
  show "recorded_in d' y" if "recorded_in d y" for y unfolding d' by (intro flushed_recorded [OF inv] that)
  show "held_in w d' i" if h: "held_in w d i" "i \<notin> fst ` set rs" for i
    unfolding d' by (rule flushed_keeps(4) [OF inv flushed_keeps(3) [OF inv flushed_keeps(2) [OF inv flushed_keeps(1) [OF inv h(1)]]]])
      (use h(2) in \<open>auto simp: batch_fields image_iff\<close>)
  show "\<forall>x \<in> set rs. recorded_in d' x"
  proof (clarify)
    fix i oc assume i: "(i, oc) \<in> set rs"
    then have "held_in w d i" using assms(6) by fastforce
    then show "recorded_in d' (i, oc)"
      unfolding d' using flush_records_success [OF inv assms(5)] flush_records_failure [OF inv assms(3-5)] i
      by (cases oc) simp_all
  qed
qed

lemma batch_ids:
  "set (pe_completed (pending_of rs) @ pe_with_result (pending_of rs) @ pe_retry (pending_of rs) @ pe_terminal (pending_of rs))
   = fst ` set rs"
proof -
  have "plain oc \<or> with_value oc \<noteq> None \<or> failed_with True oc \<noteq> None \<or> failed_with False oc \<noteq> None" for oc
    by (cases oc) auto
  then show ?thesis by (force simp: pending_of_fields no_pending_def)
qed

lemma batch_empty: "pending_len (pending_of rs) = 0 \<longleftrightarrow> rs = []"
  using batch_ids [of rs] by (auto simp: pending_len_def)

section \<open>A run of the collector\<close>

abbreviation (input) report_of :: "i64 \<times> outcome \<Rightarrow> message" where
  "report_of \<equiv> \<lambda>(i, oc). Complete i oc"

text \<open>
  The collector between two events: the reports \<open>done\<close> are in the database, those of \<open>pend\<close> are
  pending, and those of \<open>todo\<close> have still to arrive.
\<close>

definition on_track ::
  "('tz, 'cron) collecting \<Rightarrow> i64 list \<Rightarrow> (i64 \<times> outcome) list \<Rightarrow> (i64 \<times> outcome) list \<Rightarrow> (i64 \<times> outcome) list \<Rightarrow> collector \<Rightarrow> bool"
where
  "on_track g had finished pend todo c \<longleftrightarrow>
     db_inv (co_db c) \<and> retryable (cg_config g) (co_db c) \<and> co_pending c = pending_of pend
   \<and> (\<forall>x \<in> set finished. recorded_in (co_db c) x) \<and> (\<forall>x \<in> set (pend @ todo). held_in (cg_worker g) (co_db c) (fst x))
   \<and> held_now (co_flight c) = filter (\<lambda>i. i \<notin> fst ` set finished) had
   \<and> distinct (map fst (finished @ pend @ todo)) \<and> texts_ok pend \<and> texts_ok todo"

lemma flush_now_on_track:
  assumes "on_track g had finished pend todo c"
  shows "on_track g had (finished @ pend) [] todo (flush_now g (quiet now) c)"
    and "co_decoder (flush_now g (quiet now) c) = co_decoder c"
proof -
  let ?d = "flush_statements (cg_random g) (quiet now) (cg_config g) (cg_worker g) (pending_of pend) (co_db c)"
  show "co_decoder (flush_now g (quiet now) c) = co_decoder c" by (simp add: flush_now_def prod.case_eq_if)
  show "on_track g had (finished @ pend) [] todo (flush_now g (quiet now) c)"
  proof (cases "pend = []")
    case True
    then have "flush_now g (quiet now) c = c"
      using assms by (simp add: on_track_def flush_now_def flush_def pending_of_def no_pending_def pending_len_def)
    then show ?thesis using assms True by (simp add: on_track_def)
  next
    case False
    then have c': "flush_now g (quiet now) c = c\<lparr>co_pending := no_pending,
        co_flight := release (pe_completed (pending_of pend) @ pe_with_result (pending_of pend) @ pe_retry (pending_of pend) @ pe_terminal (pending_of pend)) (co_flight c),
        co_db := ?d\<rparr>"
      using assms by (simp add: on_track_def flush_now_def flush_def batch_empty)
    have ids: "held_now (release ids fl) = filter (\<lambda>i. i \<notin> set ids) (held_now fl)" for ids fl
      by (simp add: release_def Let_def)
    have pre: "db_inv (co_db c)" "retryable (cg_config g) (co_db c)" "texts_ok pend" "distinct (map fst pend)"
      "\<forall>x \<in> set pend. held_in (cg_worker g) (co_db c) (fst x)"
      using assms by (simp_all add: on_track_def)
    note batch = flush_records [OF pre, where random = "cg_random g" and now = now]
    have "held_in (cg_worker g) ?d (fst x)" if "x \<in> set todo" for x
      by (rule batch(5)) (use assms that in \<open>auto simp: on_track_def\<close>)
    moreover have "recorded_in ?d x" if "x \<in> set (finished @ pend)" for x
      using that assms batch(3) batch(4) [of x] by (auto simp: on_track_def)
    moreover have "held_now (release (pe_completed (pending_of pend) @ pe_with_result (pending_of pend) @ pe_retry (pending_of pend) @ pe_terminal (pending_of pend)) (co_flight c))
        = filter (\<lambda>i. i \<notin> fst ` set (finished @ pend)) had"
      unfolding ids batch_ids using assms by (auto simp: on_track_def intro: filter_cong)
    ultimately show ?thesis
      using assms batch(1,2) unfolding on_track_def c' by (simp add: pending_of_def [of "[]"] texts_ok_def)
  qed
qed

lemma pending_of_append: "fold push_report got (pending_of pend) = pending_of (pend @ got)"
  by (simp add: pending_of_def)

text \<open>The inner loop adds the reports whose frames are whole to the pending ones.\<close>

lemma drain_reports:
  assumes "pulls (peek (cg_pack g)) bs ms rest" "ms = map report_of got" "pending_bytes (co_decoder c) = bs" "wf_decoder (co_decoder c)"
  shows "\<exists>c'. drain g vs t inst k c = (True, c') \<and> wf_decoder (co_decoder c') \<and> pending_bytes (co_decoder c') = rest
    \<and> co_pending c' = fold push_report got (co_pending c) \<and> co_flight c' = co_flight c \<and> co_db c' = co_db c"
  using assms
proof (induction arbitrary: c got k rule: pulls.induct)
  case (pulls_wait bs)
  then show ?case
    using next_message_peek [of "co_decoder c" "cg_pack g"] by (auto simp: drain.simps [of g vs t inst k c])
next
  case (pulls_take bs m r ms rest)
  then obtain dec where dec: "next_message (cg_pack g) (co_decoder c) = (Inr (Some m), dec)" "wf_decoder dec" "pending_bytes dec = r"
    using next_message_peek [of "co_decoder c" "cg_pack g"] by auto
  obtain i oc got' where got: "got = (i, oc) # got'" "m = Complete i oc" "ms = map report_of got'"
    using pulls_take.prems(1) by (cases got) auto
  let ?c = "handle g (vs k) t inst m (c\<lparr>co_decoder := dec\<rparr>)"
  have "drain g vs t inst k c = drain g vs t inst (Suc k) ?c" by (simp add: drain.simps [of g vs t inst k c] dec(1))
  then show ?case using pulls_take.IH [of got' ?c "Suc k"] dec(2,3) got by simp
qed

text \<open>Bytes that arrive, in pieces of any size, between firings of the linger timer.\<close>

fun arrived :: "event \<Rightarrow> bytes" where
  "arrived (Chunk bs) = bs" | "arrived Closed = []" | "arrived ReadFailed = []" | "arrived Timer = []"

fun open_socket :: "event \<Rightarrow> bool" where
  "open_socket (Chunk bs) \<longleftrightarrow> bs \<noteq> []" | "open_socket Closed \<longleftrightarrow> False" | "open_socket ReadFailed \<longleftrightarrow> False"
| "open_socket Timer \<longleftrightarrow> True"

definition healthy :: "moment \<Rightarrow> bool" where
  "healthy m \<longleftrightarrow> mo_flush m = quiet (mo_wall m)"

definition waiting :: "msgpack \<Rightarrow> collector \<Rightarrow> bool" where
  "waiting mp c \<longleftrightarrow> wf_decoder (co_decoder c) \<and> peek mp (pending_bytes (co_decoder c)) = Inr None"

lemma chunk_on_track:
  assumes track: "on_track g had finished pend todo c" and "waiting (cg_pack g) c"
    and ok: "\<forall>x \<in> set todo. sendable (cg_pack g) (report_of x)"
    and bytes: "pending_bytes (co_decoder c) @ bs @ later = concat (map (frame_of (cg_pack g) \<circ> report_of) todo)"
  obtains c' got todo' where
    "drain g vs t inst 0 (c\<lparr>co_decoder := Protocol.extend (co_decoder c) bs\<rparr>) = (True, c')"
    "todo = got @ todo'" "on_track g had finished (pend @ got) todo' c'" "waiting (cg_pack g) c'"
    "pending_bytes (co_decoder c') @ later = concat (map (frame_of (cg_pack g) \<circ> report_of) todo')"
proof -
  let ?c = "c\<lparr>co_decoder := Protocol.extend (co_decoder c) bs\<rparr>"
  have wf: "wf_decoder (co_decoder ?c)" "pending_bytes (co_decoder ?c) = pending_bytes (co_decoder c) @ bs"
    using assms(2) by (simp_all add: waiting_def)
  have "(pending_bytes (co_decoder c) @ bs) @ later = concat (map (frame_of (cg_pack g)) (map report_of todo))"
    using bytes by simp
  from wire.pulls_prefix [OF _ this] ok obtain got' todo'' rest where
    split: "map report_of todo = got' @ todo''"
    and pulls: "pulls (peek (cg_pack g)) (pending_bytes (co_decoder c) @ bs) got' rest"
    and rest: "rest @ later = concat (map (frame_of (cg_pack g)) todo'')" by auto
  from split obtain got todo' where todo: "todo = got @ todo'" "got' = map report_of got" "todo'' = map report_of todo'"
    by (auto simp: map_eq_append_conv)
  from drain_reports [OF pulls todo(2) wf(2) wf(1), where vs = vs and t = t and inst = inst and k = 0] obtain c1 where
    c1: "drain g vs t inst 0 ?c = (True, c1)" "wf_decoder (co_decoder c1)"
      "pending_bytes (co_decoder c1) = rest" "co_pending c1 = fold push_report got (co_pending c)"
      "co_flight c1 = co_flight c" "co_db c1 = co_db c" by auto
  show ?thesis
  proof (rule that [OF c1(1) todo(1)])
    show "on_track g had finished (pend @ got) todo' c1"
      using track by (auto simp: on_track_def c1 todo(1) pending_of_append texts_ok_def)
    have "peek (cg_pack g) rest = Inr None" using pulls by (induction rule: pulls.induct) auto
    then show "waiting (cg_pack g) c1" by (simp add: waiting_def c1)
    show "pending_bytes (co_decoder c1) @ later = concat (map (frame_of (cg_pack g) \<circ> report_of) todo')"
      using rest by (simp add: c1 todo(3))
  qed
qed

lemma collect_event_on_track:
  assumes track: "on_track g had finished pend todo c" and "waiting (cg_pack g) c"
    and ok: "\<forall>x \<in> set todo. sendable (cg_pack g) (report_of x)"
    and bytes: "pending_bytes (co_decoder c) @ arrived ev @ later = concat (map (frame_of (cg_pack g) \<circ> report_of) todo)"
    and "open_socket ev" "healthy m"
  obtains c' finished' pend' todo' where
    "collect_event g (mo_messages m) (mo_flush m) (mo_wall m) (mo_at m) ev c = (True, c')"
    "on_track g had finished' pend' todo' c'" "waiting (cg_pack g) c'"
    "finished' @ pend' @ todo' = finished @ pend @ todo" "set todo' \<subseteq> set todo"
    "pending_bytes (co_decoder c') @ later = concat (map (frame_of (cg_pack g) \<circ> report_of) todo')"
proof (cases ev)
  case Timer
  let ?c = "(flush_now g (quiet (mo_wall m)) c)\<lparr>co_deadline := None\<rparr>"
  note flushed = flush_now_on_track [OF track, where now = "mo_wall m"]
  show ?thesis
    by (rule that [of ?c "finished @ pend" "[]" todo])
      (use assms flushed Timer in \<open>simp_all add: collect_event_def healthy_def on_track_def waiting_def\<close>)
next
  case (Chunk bs)
  obtain c1 got todo' where
    c1: "drain g (mo_messages m) (mo_wall m) (mo_at m) 0 (c\<lparr>co_decoder := Protocol.extend (co_decoder c) bs\<rparr>) = (True, c1)"
      "todo = got @ todo'" "on_track g had finished (pend @ got) todo' c1" "waiting (cg_pack g) c1"
      "pending_bytes (co_decoder c1) @ later = concat (map (frame_of (cg_pack g) \<circ> report_of) todo')"
    by (rule chunk_on_track [OF track assms(2) ok, of bs later]) (use bytes Chunk in simp)
  let ?batch = "cfg_completion_batch (cg_config g) \<le> pending_len (co_pending c1)"
  let ?f = "(flush_now g (quiet (mo_wall m)) c1)\<lparr>co_deadline := None\<rparr>"
  note flushed = flush_now_on_track [OF c1(3), where now = "mo_wall m"]
  have step: "collect_event g (mo_messages m) (mo_flush m) (mo_wall m) (mo_at m) ev c = (True, if ?batch then ?f else c1)"
    using assms(5,6) by (simp add: collect_event_def Chunk c1(1) healthy_def)
  show ?thesis
  proof (cases ?batch)
    case True
    show ?thesis
      by (rule that [of ?f "finished @ pend @ got" "[]" todo'])
        (use step True flushed c1(4,5) in \<open>simp_all add: c1(2) on_track_def waiting_def\<close>)
  next
    case False
    show ?thesis
      by (rule that [of c1 finished "pend @ got" todo']) (use step False c1 in simp_all)
  qed
qed (use assms(5) in simp_all)

lemma collect_on_track:
  assumes "on_track g had finished pend todo c" "waiting (cg_pack g) c"
    and "\<forall>x \<in> set todo. sendable (cg_pack g) (report_of x)"
    and "\<forall>(m, ev) \<in> set evs. open_socket ev \<and> healthy m"
    and "pending_bytes (co_decoder c) @ concat (map (arrived \<circ> snd) evs) = concat (map (frame_of (cg_pack g) \<circ> report_of) todo)"
    and "healthy bye"
  shows "on_track g had (finished @ pend @ todo) [] [] (collect g (evs @ [(bye, Closed)]) c)"
  using assms
proof (induction evs arbitrary: c finished pend todo)
  case Nil
  have "todo = []"
  proof (rule ccontr)
    assume "todo \<noteq> []"
    then obtain x xs where "todo = x # xs" by (cases todo) auto
    with Nil.prems(2,3,5) show False by (auto simp: waiting_def wire.peek_frame)
  qed
  then show ?case
    using flush_now_on_track(1) [OF Nil.prems(1), of "mo_wall bye"] Nil.prems(6)
    by (simp add: collect_event_def healthy_def)
next
  case (Cons x evs)
  obtain m ev where x: "x = (m, ev)" by fastforce
  have now: "open_socket ev" "healthy m" and bytes: "pending_bytes (co_decoder c) @ arrived ev @ concat (map (arrived \<circ> snd) evs)
      = concat (map (frame_of (cg_pack g) \<circ> report_of) todo)"
    using Cons.prems(4,5) by (simp_all add: x o_def)
  obtain c' finished' pend' todo' where
    c': "collect_event g (mo_messages m) (mo_flush m) (mo_wall m) (mo_at m) ev c = (True, c')"
    "on_track g had finished' pend' todo' c'" "waiting (cg_pack g) c'"
    "finished' @ pend' @ todo' = finished @ pend @ todo" "set todo' \<subseteq> set todo"
    "pending_bytes (co_decoder c') @ concat (map (arrived \<circ> snd) evs) = concat (map (frame_of (cg_pack g) \<circ> report_of) todo')"
    by (rule collect_event_on_track [OF Cons.prems(1-3) bytes now])
  have "on_track g had (finished' @ pend' @ todo') [] [] (collect g (evs @ [(bye, Closed)]) c')"
    by (rule Cons.IH [OF c'(2,3) _ _ c'(6) Cons.prems(6)]) (use Cons.prems(3,4) c'(5) in auto)
  then show ?case by (simp add: x c'(1,4))
qed

text \<open>A child that reports once on each of some held jobs and closes, while the database answers.\<close>

lemma collector_on_track:
  assumes "db_inv d" "retryable (cg_config g) d" "texts_ok rs" "distinct (map fst rs)"
    and "\<forall>x \<in> set rs. held_in (cg_worker g) d (fst x) \<and> sendable (cg_pack g) (report_of x)"
    and "\<forall>(m, ev) \<in> set evs. open_socket ev \<and> healthy m" "healthy bye"
    and "concat (map (arrived \<circ> snd) evs) = concat (map (frame_of (cg_pack g) \<circ> report_of) rs)"
  shows "on_track g (held_now fl) rs [] [] (collect g (evs @ [(bye, Closed)]) (new_collector fl d))"
proof -
  have "on_track g (held_now fl) ([] @ [] @ rs) [] [] (collect g (evs @ [(bye, Closed)]) (new_collector fl d))"
  proof (rule collect_on_track)
    show "on_track g (held_now fl) [] [] rs (new_collector fl d)"
      using assms(1-5) by (auto simp: on_track_def new_collector_def pending_of_def texts_ok_def)
  qed (use assms(5-8) in \<open>auto simp: waiting_def new_collector_def wire.peek_nothing\<close>)
  then show ?thesis by simp
qed

text \<open>
  C12: Every report reaches its row. While the database answers, let a child report once on each of
  some jobs the worker holds and then close: however its bytes are cut into reads, wherever the
  linger timer fires between them and whatever the batch size, nothing is left pending, every
  success is on its row with its value, every failure is in its row's errors with the job back in
  the queue or in its final state, and exactly the reported jobs leave the in-flight set.
\<close>

theorem every_report_is_recorded:
  assumes "db_inv d" "retryable (cg_config g) d" "texts_ok rs" "distinct (map fst rs)"
    and "\<forall>x \<in> set rs. held_in (cg_worker g) d (fst x) \<and> sendable (cg_pack g) (Complete (fst x) (snd x))"
    and "\<forall>(m, ev) \<in> set evs. open_socket ev \<and> healthy m" "healthy bye"
    and "concat (map (arrived \<circ> snd) evs) = encode_all (cg_pack g) (map (\<lambda>x. Complete (fst x) (snd x)) rs) []"
    and "c = collect g (evs @ [(bye, Closed)]) (new_collector fl d)"
  shows "co_pending c = no_pending \<and> (\<forall>x \<in> set rs. recorded_in (co_db c) x)
    \<and> held_now (co_flight c) = filter (\<lambda>i. i \<notin> fst ` set rs) (held_now fl) \<and> db_inv (co_db c)"
proof -
  have reports: "report_of = (\<lambda>x. Complete (fst x) (snd x))" by (auto simp: fun_eq_iff)
  have "filter (encodable (cg_pack g)) (map report_of rs) = map report_of rs"
    using assms(5) by (auto simp: sendable_def reports intro!: filter_True)
  then have "concat (map (arrived \<circ> snd) evs) = concat (map (frame_of (cg_pack g) \<circ> report_of) rs)"
    using assms(8) by (simp add: encode_all_frames reports)
  from collector_on_track [OF assms(1-4) _ assms(6,7) this, of fl] assms(5) show ?thesis
    unfolding assms(9) by (simp add: on_track_def pending_of_def reports)
qed

text \<open>Two jobs of a workflow end, one with a value and one in an error; the bytes come in two pieces.\<close>

definition two_reports :: "(i64 \<times> outcome) list" where
  "two_reports = [(1, Success [42]), (2, Failure ''boom'' True)]"

definition two_frames :: bytes where
  "two_frames = encode_all unary_pack (map (\<lambda>x. Complete (fst x) (snd x)) two_reports) []"

lemma two_reports_sendable:
  "\<forall>x \<in> set two_reports. held_in 7 flow_db (fst x) \<and> sendable unary_pack (Complete (fst x) (snd x))"
proof -
  have "held_in 7 flow_db 1" "held_in 7 flow_db 2" by (simp_all add: held_in_def flow_db_def leased_row_def sample_defs)
  moreover have "wf_string ''boom''" by (simp add: wf_string_def char_byte_def)
  ultimately show ?thesis
    by (simp add: two_reports_def sendable_def unary_pack_ok encodable_def encode_reference MAX_FRAME_BYTES_def)
qed

theorem every_report_is_recorded_witness:
  "recorded_in (co_db (collect sample_collecting
      ([(quiet_moment 20, Chunk (take 13 two_frames)), (quiet_moment 25, Timer), (quiet_moment 30, Chunk (drop 13 two_frames))]
       @ [(quiet_moment 40, Closed)]) (new_collector (reserve [1, 2, 9] (new_in_flight 4)) flow_db))) (2, Failure ''boom'' True)"
  (is "recorded_in (co_db (collect _ (?evs @ _) (new_collector ?fl _))) _")
proof -
  have "length two_frames = 33"
    by (simp add: two_frames_def two_reports_def encode_reference framed_def MAX_FRAME_BYTES_def)
  then have "take 13 two_frames \<noteq> []" "drop 13 two_frames \<noteq> []" by auto
  then have evs: "\<forall>(m, ev) \<in> set ?evs. open_socket ev \<and> healthy m" "healthy (quiet_moment 40)"
    by (simp_all add: healthy_def quiet_moment_def)
  have d: "retryable (cg_config sample_collecting) flow_db"
    by (simp add: retryable_def sample_collecting_def sample_config_def default_config_def flow_db_def leased_row_def
        parked_row_def sample_defs delay_overflows_def pow2_def)
  have rs: "texts_ok two_reports" "distinct (map fst two_reports)"
    by (simp_all add: two_reports_def texts_ok_def text_ok_def)
  have g: "cg_worker sample_collecting = 7" "cg_pack sample_collecting = unary_pack" by (simp_all add: sample_collecting_def)
  note all = every_report_is_recorded [OF flow_db_inv d rs _ evs _ refl, where fl = ?fl]
  have "\<forall>x \<in> set two_reports. recorded_in (co_db (collect sample_collecting (?evs @ [(quiet_moment 40, Closed)]) (new_collector ?fl flow_db))) x"
    using all two_reports_sendable by (simp add: g two_frames_def)
  then show ?thesis by (simp add: two_reports_def)
qed

end
