(* ===== verification/Delivery.thy ===== *)
theory Delivery
  imports Reports
begin

text \<open>
  From the lease of a job to the bytes its child reads: a turn of \<open>dispatch\<close>
  (\<open>crates/gylo-worker/src/lib.rs\<close>) leaves no job leased and forgotten, and the child decodes the
  jobs in the order they were leased. The last section says what becomes of reports when the
  database does not answer.
\<close>

section \<open>What a fetch leases\<close>

text \<open>The jobs of a pass are the worker's, and the passes of one call never meet.\<close>

definition leased_in :: "uuid \<Rightarrow> db \<Rightarrow> job \<Rightarrow> bool" where
  "leased_in w d j \<longleftrightarrow> (\<exists>r \<in> set (jobs d). job_from r = j \<and> state r = Running \<and> locked_by r = Some w)"

definition takes :: "uuid \<Rightarrow> job list \<Rightarrow> db \<Rightarrow> db \<Rightarrow> bool" where
  "takes w js d d' \<longleftrightarrow> distinct (map job_id js) \<and> job_id ` set js \<subseteq> waiting_ids d
     \<and> waiting_ids d' = waiting_ids d - job_id ` set js \<and> running_ids d' = running_ids d \<union> job_id ` set js
     \<and> (\<forall>j \<in> set js. leased_in w d' j) \<and> (\<forall>j. leased_in w d j \<longrightarrow> leased_in w d' j)
     \<and> task ` set (jobs d') = task ` set (jobs d) \<and> db_wf d'"

lemma job_id_from [simp]: "job_id (job_from r) = row_id r"
  by (simp add: job_from_def)

lemma takes_none [simp]: "takes w [] d d \<longleftrightarrow> db_wf d"
  by (simp add: takes_def)

lemma takes_append:
  assumes "takes w xs d d1" "takes w ys d1 d2"
  shows "takes w (xs @ ys) d d2"
proof -
  have "db_wf d1" using assms(1) by (simp add: takes_def)
  from waiting_running_disjoint [OF this] have "job_id ` set xs \<inter> job_id ` set ys = {}" using assms by (auto simp: takes_def)
  then show ?thesis using assms by (auto simp: takes_def)
qed

lemma lease_selected_takes:
  assumes "db_wf d" "leasable now d sel" "fst (lease_selected now w l sel d) = Inr rows"
  shows "takes w (map job_from rows) d (snd (lease_selected now w l sel d))"
proof -
  let ?d = "snd (lease_selected now w l sel d)"
  have rows: "rows = map (lease_row now w l) sel" by (rule lease_selected_jobs(1) [OF assms])
  have ids: "map row_id rows = map row_id sel" by (simp add: rows)
  have "leased_in w ?d (job_from r)" if "r \<in> set rows" for r
    using that lease_selected_rows [OF assms] unfolding leased_in_def
    by (intro bexI [of _ r]) (auto simp: rows)
  moreover have "leased_in w ?d j" if h: "leased_in w d j" for j
  proof -
    obtain r where r: "r \<in> set (jobs d)" "job_from r = j" "state r = Running" "locked_by r = Some w"
      using h unfolding leased_in_def by blast
    then have "r \<notin> set sel" using assms(2) by (auto simp: leasable_def)
    then have "r \<in> set (jobs ?d)" using r(1) by (force simp: lease_selected_jobs(2) [OF assms])
    then show ?thesis using r unfolding leased_in_def by blast
  qed
  moreover have "task ` set (jobs ?d) = task ` set (jobs d)"
    unfolding lease_selected_jobs(2) [OF assms] set_map image_image by (rule image_cong) (auto simp: lease_row_def)
  moreover have "job_id ` set (map job_from rows) = row_id ` set sel" by (simp add: rows image_image)
  moreover have "distinct (map job_id (map job_from rows))" using assms(2) ids by (simp add: leasable_def o_def)
  ultimately show ?thesis
    using lease_selected_moves [OF assms] lease_selected_wf [OF assms(1,2)] unfolding takes_def by auto
qed

lemma fetch_unkeyed_takes:
  assumes "db_wf d" "fetch_unkeyed qs limit w l now skip d = (Inr rows, d')"
  shows "takes w (map (\<lambda>p. job_from (fst p)) rows) d d'"
proof (cases rule: fetch_unkeyed_cases [of qs limit w l now skip d])
  case (leased sel)
  then have "map (\<lambda>p. job_from (fst p)) rows = map job_from (map (lease_row now w l) sel)" "d' = snd (lease_selected now w l sel d)"
    using assms(2) by auto
  moreover have "leasable now d sel" unfolding leased(1) by (rule select_unkeyed_leasable [OF assms(1)])
  ultimately show ?thesis using lease_selected_takes [OF assms(1) _ leased(5)] by (simp only:)
qed (use assms in simp)

lemma fetch_keyed_takes:
  assumes "db_wf d" "fetch_keyed qs limit w l now skip d = (Inr rows, d')"
  shows "takes w (map job_from rows) d d'"
proof (cases rule: fetch_keyed_cases [of qs limit w l now skip d])
  case (leased sel)
  then have "rows = map (lease_row now w l) sel" "d' = snd (lease_selected now w l sel d)"
    using assms(2) by auto
  moreover have "leasable now d sel" unfolding leased(1) by (intro admit_leasable select_keyed_leasable assms(1))
  ultimately show ?thesis using lease_selected_takes [OF assms(1) _ leased(5)] by (simp only:)
qed (use assms in simp)

lemma fetch_takes:
  assumes "db_wf d" "fetch (quiet now) qs limit lease w d = (Inr js, d')"
  shows "takes w js d d'"
proof -
  obtain rows d1 where u: "fetch_unkeyed qs limit w lease now [] d = (Inr rows, d1)"
    using assms(2) by (auto simp: fetch_def split: prod.splits sum.splits)
  note takes1 = fetch_unkeyed_takes [OF assms(1) u]
  then have wf1: "db_wf d1" by (simp add: takes_def)
  consider "js = map (\<lambda>p. job_from (fst p)) rows" "d' = d1"
    | n keyed where "js = map (\<lambda>p. job_from (fst p)) rows @ map job_from keyed" "fetch_keyed qs n w lease now [] d1 = (Inr keyed, d')"
    using assms(2) unfolding fetch_def
    by (auto simp: u bind_text_def Let_def split: prod.splits sum.splits list.splits if_splits)
  then show ?thesis
  proof cases
    case 1
    then show ?thesis using takes1 by simp
  next
    case (2 n keyed)
    show ?thesis unfolding 2(1) by (rule takes_append [OF takes1 fetch_keyed_takes [OF wf1 2(2)]])
  qed
qed

section \<open>What a batch writes\<close>

definition sends :: "msgpack \<Rightarrow> job \<Rightarrow> bool" where
  "sends mp j \<longleftrightarrow> encodable mp (dispatch_message j)"

fun is_dispatch :: "message \<Rightarrow> bool" where
  "is_dispatch (Dispatch i a m name p) \<longleftrightarrow> True" | "is_dispatch _ \<longleftrightarrow> False"

fun is_steps :: "message \<Rightarrow> bool" where
  "is_steps (Steps i found) \<longleftrightarrow> True" | "is_steps _ \<longleftrightarrow> False"

text \<open>What is written for some leased jobs: each of them in its order, and stored steps between them.\<close>

definition carries :: "job list \<Rightarrow> message list \<Rightarrow> bool" where
  "carries js ms \<longleftrightarrow> filter is_dispatch ms = map dispatch_message js \<and> (\<forall>m \<in> set ms. is_dispatch m \<or> is_steps m)"

lemma carries_none: "carries [] []"
  by (simp add: carries_def)

lemma carries_append: "carries js ms \<Longrightarrow> carries ks ns \<Longrightarrow> carries (js @ ks) (ms @ ns)"
  by (auto simp: carries_def)

lemma carries_one: "list_all is_steps ss \<Longrightarrow> carries [j] (ss @ [dispatch_message j])"
proof -
  have "is_steps m \<Longrightarrow> \<not> is_dispatch m" for m by (cases m) simp_all
  then show "list_all is_steps ss \<Longrightarrow> carries [j] (ss @ [dispatch_message j])"
    by (auto simp: carries_def list_all_iff filter_empty_conv dispatch_message_def)
qed

lemma carries_wf:
  assumes "carries js ms" "\<forall>j \<in> set js. wf_string (job_task j)" "m \<in> set ms"
  shows "wf_message m"
proof (cases "is_dispatch m")
  case True
  then have "m \<in> set (filter is_dispatch ms)" using assms(3) by simp
  then show ?thesis using assms(1,2) by (auto simp: carries_def dispatch_message_def simp del: set_filter)
next
  case False
  then show ?thesis using assms(1,3) by (cases m) (auto simp: carries_def)
qed

lemma carries_encodable: "carries js ms \<Longrightarrow> carries (filter (sends mp) js) (filter (encodable mp) ms)"
proof -
  assume h: "carries js ms"
  have "filter is_dispatch (filter (encodable mp) ms) = filter (encodable mp) (filter is_dispatch ms)" by (simp add: conj_commute)
  also have "\<dots> = filter (encodable mp) (map dispatch_message js)" using h unfolding carries_def by metis
  finally show "carries (filter (sends mp) js) (filter (encodable mp) ms)"
    using h by (simp add: carries_def filter_map o_def sends_def [abs_def])
qed

lemma prior_steps_quiet:
  obtains ms where "prior_steps mp coll (quiet now) j out d = (encode_all mp ms out, d)" "list_all is_steps ms"
proof (cases "prior_steps mp coll (quiet now) j out d = (out, d)")
  case True
  then show ?thesis using that [of "[]"] by simp
next
  case False
  then have "prior_steps mp coll (quiet now) j out d =
      (encode_all mp [Steps (job_id j) (map (\<lambda>s. (s_name s, s_result s))
        (sort_key (\<lambda>s. (s_created_at s, coll (s_name s))) (filter (\<lambda>s. s_job s = job_id j) (Store.steps d))))] out, d)"
    by (auto simp: prior_steps_def steps_for_def split: if_splits)
  then show ?thesis by (rule that) simp
qed

lemma text_ok_append: "text_ok (xs @ ys) \<longleftrightarrow> text_ok xs \<and> text_ok ys"
  by (auto simp: text_ok_def)

lemma text_ok_decimal: "text_ok (decimal n)"
proof (induction n rule: decimal.induct)
  case (1 n)
  have "text_ok [char_of (48 + m)]" if "m < 10" for m :: nat
  proof -
    have "of_char (char_of (48 + m)) \<noteq> (of_char (CHR 0x00) :: nat)" using that by simp
    then have "CHR 0x00 \<noteq> char_of (48 + m)" by metis
    then show ?thesis by (simp add: text_ok_def)
  qed
  then show ?case using 1 by (subst decimal.simps) (simp add: text_ok_append)
qed

lemma dispatch_error_text:
  assumes "encode mp (dispatch_message j) out = (Inl e, out')"
  shows "text_ok (show_protocol_error e)" "out' = out" "\<not> sends mp j"
  using assms
  by (auto simp: encode_reference dispatch_message_def sends_def encodable_def text_ok_append text_ok_decimal
      split: if_splits) (use text_ok_decimal in \<open>simp_all add: text_ok_def\<close>)

lemma reports_on_trans:
  assumes "reports_on w xs d d1" "reports_on w ys d1 d2"
  shows "reports_on w (xs @ ys) d d2"
proof -
  obtain f where f: "jobs d1 = map f (jobs d)"
    "\<And>r. r \<in> set (jobs d) \<Longrightarrow> row_id (f r) = row_id r \<and> (state (f r) = Running \<longrightarrow> f r = r)"
    "\<And>r. r \<in> set (jobs d) \<Longrightarrow> \<not> holds w xs r \<Longrightarrow> state r = Running \<Longrightarrow> f r = r"
    "\<And>r oc. r \<in> set (jobs d) \<Longrightarrow> \<not> holds w xs r \<Longrightarrow> recorded oc r \<Longrightarrow> recorded oc (f r)"
    using assms(1) unfolding reports_on_def by blast
  obtain g where g: "jobs d2 = map g (jobs d1)"
    "\<And>r. r \<in> set (jobs d1) \<Longrightarrow> row_id (g r) = row_id r \<and> (state (g r) = Running \<longrightarrow> g r = r)"
    "\<And>r. r \<in> set (jobs d1) \<Longrightarrow> \<not> holds w ys r \<Longrightarrow> state r = Running \<Longrightarrow> g r = r"
    "\<And>r oc. r \<in> set (jobs d1) \<Longrightarrow> \<not> holds w ys r \<Longrightarrow> recorded oc r \<Longrightarrow> recorded oc (g r)"
    using assms(2) unfolding reports_on_def by blast
  have in1: "r \<in> set (jobs d) \<Longrightarrow> f r \<in> set (jobs d1)" for r by (simp add: f(1))
  have split: "holds w (xs @ ys) r \<longleftrightarrow> holds w xs r \<or> holds w ys r" for r by (auto simp: holds_def)
  show ?thesis
  proof (rule reports_onI [of _ "g \<circ> f"])
    show "jobs d2 = map (g \<circ> f) (jobs d)" by (simp add: f(1) g(1))
    show "row_id ((g \<circ> f) r) = row_id r \<and> (state ((g \<circ> f) r) = Running \<longrightarrow> (g \<circ> f) r = r)" if "r \<in> set (jobs d)" for r
      using f(2) [OF that] g(2) [OF in1 [OF that]] by auto
    show "(g \<circ> f) r = r" if "r \<in> set (jobs d)" "\<not> holds w (xs @ ys) r" "state r = Running" for r
      using that f(3) g(3) in1 split by fastforce
    show "recorded oc ((g \<circ> f) r)" if "r \<in> set (jobs d)" "\<not> holds w (xs @ ys) r" "recorded oc r" for r oc
      using that f(4) [of r oc] g(4) [OF in1] recorded_not_running [of oc "f r"] split by (auto simp: holds_def)
  qed
qed

lemma reports_on_none: "reports_on w [] d d"
  by (rule reports_onI [of _ "\<lambda>r. r"]) auto

lemma reports_on_leased:
  assumes "reports_on w ids d d'" "leased_in w d j" "job_id j \<notin> set ids"
  shows "leased_in w d' j"
proof -
  obtain r where r: "r \<in> set (jobs d)" "job_from r = j" "state r = Running" "locked_by r = Some w"
    using assms(2) unfolding leased_in_def by blast
  then have "\<not> holds w ids r" using assms(3) by (auto simp: holds_def)
  then have "r \<in> set (jobs d')" using assms(1) r(1,3) unfolding reports_on_def by force
  then show ?thesis using r unfolding leased_in_def by blast
qed

lemma leased_held: "leased_in w d j \<Longrightarrow> held_in w d (job_id j)"
  by (auto simp: leased_in_def held_in_def)

lemma encode_all_append: "encode_all mp (ms @ ns) out = encode_all mp ns (encode_all mp ms out)"
  by (induction ms arbitrary: out) simp_all

text \<open>The messages of a job are its earlier steps, if any, and then the job.\<close>

lemma frame_job_quiet:
  assumes "leased_in w d j"
  obtains ms d1 where
    "frame_job mp coll (quiet now) w j (out, reserved, d) =
       (encode_all mp ms out, reserved @ (if sends mp j then [job_id j] else []), d1)"
    "carries [j] ms"
    "reports_on w (if sends mp j then [] else [job_id j]) d d1"
    "\<not> sends mp j \<Longrightarrow> \<exists>e. recorded_in d1 (job_id j, Failure e False)"
proof -
  obtain ss where ss: "prior_steps mp coll (quiet now) j out d = (encode_all mp ss out, d)"
    "list_all is_steps ss"
    by (rule prior_steps_quiet)
  let ?out = "encode_all mp ss out" and ?m = "dispatch_message j"
  have ms: "carries [j] (ss @ [?m])" by (rule carries_one [OF ss(2)])
  obtain r out2 where enc: "encode mp ?m ?out = (r, out2)" by fastforce
  then have out2: "encode_all mp (ss @ [?m]) out = out2" by (simp add: encode_all_append)
  show ?thesis
  proof (cases r)
    case (Inr u)
    then have "sends mp j" using enc encode_rejected
      by (auto simp: sends_def encodable_def encode_reference split: sum.splits if_splits)
    then show ?thesis
      by (intro that [of "ss @ [?m]" d]) (use Inr enc ss(1) ms out2 in \<open>simp_all add: frame_job_def reports_on_none\<close>)
  next
    case (Inl e)
    let ?d = "snd (discard_many now [job_id j] [show_protocol_error e] w d)"
    have err: "text_ok (show_protocol_error e)" "out2 = ?out" "\<not> sends mp j"
      using dispatch_error_text enc Inl by blast+
    have "recorded_in ?d (job_id j, Failure (show_protocol_error e) False)"
      by (rule discard_records [OF leased_held [OF assms]]) (use err(1) in simp_all)
    then show ?thesis
      by (intro that [of "ss @ [?m]" ?d])
        (use Inl enc ss(1) ms out2 err(3) discard_reports_on in \<open>auto simp: frame_job_def\<close>)
  qed
qed

lemma frame_jobs_quiet:
  assumes "distinct (map job_id js)" "\<forall>j \<in> set js. leased_in w d j"
  shows "\<exists>ms d1. frame_jobs mp coll (quiet now) w js (out, reserved, d) =
       (encode_all mp ms out, reserved @ map job_id (filter (sends mp) js), d1)
     \<and> carries js ms
     \<and> reports_on w (map job_id (filter (\<lambda>j. \<not> sends mp j) js)) d d1
     \<and> (\<forall>j \<in> set js. \<not> sends mp j \<longrightarrow> (\<exists>e. recorded_in d1 (job_id j, Failure e False)))"
  using assms
proof (induction js arbitrary: out reserved d)
  case Nil
  show ?case by (intro exI [of _ "[]"] exI [of _ d]) (simp add: reports_on_none carries_none)
next
  case (Cons j js)
  have j: "leased_in w d j" using Cons.prems(2) by simp
  obtain ms d1 where one:
    "frame_job mp coll (quiet now) w j (out, reserved, d) =
       (encode_all mp ms out, reserved @ (if sends mp j then [job_id j] else []), d1)"
    "carries [j] ms"
    "reports_on w (if sends mp j then [] else [job_id j]) d d1"
    "\<not> sends mp j \<Longrightarrow> \<exists>e. recorded_in d1 (job_id j, Failure e False)"
    by (rule frame_job_quiet [OF j, where mp = mp and coll = coll and now = now and out = out and reserved = reserved]) blast
  have "\<forall>x \<in> set js. leased_in w d1 x"
  proof
    fix x assume "x \<in> set js"
    then have "job_id x \<in> job_id ` set js" "leased_in w d x" using Cons.prems(2) by simp_all
    moreover from this have "job_id x \<noteq> job_id j" using Cons.prems(1) by auto
    ultimately show "leased_in w d1 x" using reports_on_leased [OF one(3)] by simp
  qed
  with Cons.IH [of d1 "encode_all mp ms out" "reserved @ (if sends mp j then [job_id j] else [])"] Cons.prems(1)
  obtain ns d2 where rest:
    "frame_jobs mp coll (quiet now) w js (encode_all mp ms out, reserved @ (if sends mp j then [job_id j] else []), d1) =
       (encode_all mp ns (encode_all mp ms out), (reserved @ (if sends mp j then [job_id j] else [])) @ map job_id (filter (sends mp) js), d2)"
    "carries js ns"
    "reports_on w (map job_id (filter (\<lambda>j. \<not> sends mp j) js)) d1 d2"
    "\<forall>j \<in> set js. \<not> sends mp j \<longrightarrow> (\<exists>e. recorded_in d2 (job_id j, Failure e False))"
    by auto
  have "reports_on w (map job_id (filter (\<lambda>j. \<not> sends mp j) (j # js))) d d2"
    using reports_on_trans [OF one(3) rest(3)] by (simp split: if_splits)
  moreover have "\<exists>e. recorded_in d2 (job_id j, Failure e False)" if "\<not> sends mp j"
    using one(4) [OF that] reports_on_keeps(2) [OF rest(3)] by blast
  ultimately show ?case
    using one(1) rest(1,4) carries_append [OF one(2) rest(2)]
    by (intro exI [of _ "ms @ ns"] exI [of _ d2]) (auto simp: encode_all_append)
qed

section \<open>A turn of dispatching\<close>

lemma recorded_not_running_ids:
  assumes "distinct (map row_id (jobs d))" "recorded_in d x"
  shows "fst x \<notin> running_ids d"
  using assms job_row_eqI [OF assms(1)] recorded_not_running
  by (fastforce simp: recorded_in_def running_ids_def)

lemma reports_on_wf: "reports_on w ids d d' \<Longrightarrow> map row_id (jobs d') = map row_id (jobs d) \<and> running_ids d' \<subseteq> running_ids d"
  by (fastforce simp: reports_on_def running_ids_def)

text \<open>A turn that did not fail to lease, as the jobs it leased.\<close>

lemma dispatch_turn_quiet:
  assumes "db_wf d" "dispatch_turn mp coll (quiet now) cfg w fl d = (t, fl', d')" "\<forall>e. t \<noteq> LeasingFailed e"
  obtains (full) "available fl = 0" "t = Full" "fl' = fl" "d' = d"
  | (leased) js ms d1 where "fetch (quiet now) (cfg_queues cfg) (min (sint (cfg_batch cfg)) (int (available fl))) (cfg_lease cfg) w d = (Inr js, d1)"
      "takes w js d d1" "fl' = reserve (map job_id (filter (sends mp) js)) fl"
      "t = Send (encode_all mp ms []) \<or> t \<in> {Idle, NothingToSend}" "carries js ms"
      "reports_on w (map job_id (filter (\<lambda>j. \<not> sends mp j) js)) d1 d'"
      "\<forall>j \<in> set js. \<not> sends mp j \<longrightarrow> (\<exists>e. recorded_in d' (job_id j, Failure e False))" "0 < available fl"
proof (cases "available fl = 0")
  case True
  then show ?thesis using full assms(2) by (simp add: dispatch_turn_def)
next
  case False
  let ?fetch = "fetch (quiet now) (cfg_queues cfg) (min (sint (cfg_batch cfg)) (int (available fl))) (cfg_lease cfg) w d"
  obtain r d1 where f0: "?fetch = (r, d1)" by fastforce
  then obtain js where "r = Inr js" using assms(2,3) False by (cases r) (auto simp: dispatch_turn_def)
  then have f: "?fetch = (Inr js, d1)" using f0 by simp
  have takes: "takes w js d d1" by (rule fetch_takes [OF assms(1) f])
  have pre: "distinct (map job_id js)" "\<forall>j \<in> set js. leased_in w d1 j" using takes by (simp_all add: takes_def)
  obtain ms d2 where framed: "frame_jobs mp coll (quiet now) w js ([], [], d1) = (encode_all mp ms [], [] @ map job_id (filter (sends mp) js), d2)"
    "carries js ms"
    "reports_on w (map job_id (filter (\<lambda>j. \<not> sends mp j) js)) d1 d2"
    "\<forall>j \<in> set js. \<not> sends mp j \<longrightarrow> (\<exists>e. recorded_in d2 (job_id j, Failure e False))"
    using frame_jobs_quiet [OF pre, of mp coll now "[]" "[]"] by (elim exE conjE) (rule that)
  have none: "reserve [] x = x" for x by (simp add: reserve_def)
  show ?thesis
  proof (cases "js = []")
    case True
    show ?thesis
      by (rule leased [OF f takes, of "[]"])
        (use True False assms(2) f in \<open>auto simp: dispatch_turn_def none reports_on_none carries_none\<close>)
  next
    case ne: False
    show ?thesis
      by (rule leased [OF f takes _ _ framed(2)])
        (use ne False assms(2) f framed(1,3,4) in \<open>auto simp: dispatch_turn_def none split: if_splits\<close>)
  qed
qed

lemma turn_running_ids:
  assumes "takes w js d d1" "reports_on w (map job_id (filter (\<lambda>j. \<not> sends mp j) js)) d1 d'"
    and "\<forall>j \<in> set js. \<not> sends mp j \<longrightarrow> (\<exists>e. recorded_in d' (job_id j, Failure e False))"
  shows "running_ids d' \<subseteq> running_ids d \<union> job_id ` set (filter (sends mp) js)"
proof
  have ids: "distinct (map row_id (jobs d'))"
    using reports_on_wf [OF assms(2)] assms(1) by (simp add: takes_def db_wf_def)
  fix i assume i: "i \<in> running_ids d'"
  then have "i \<in> running_ids d \<or> (\<exists>j \<in> set js. i = job_id j)"
    using reports_on_wf [OF assms(2)] assms(1) by (auto simp: takes_def)
  moreover have "sends mp j" if "j \<in> set js" "i = job_id j" for j
    using that assms(3) recorded_not_running_ids [OF ids] i by (metis fst_conv)
  ultimately show "i \<in> running_ids d \<union> job_id ` set (filter (sends mp) js)" by auto
qed

text \<open>
  C13: A turn of dispatching leaves no lease behind. Unless leasing itself fails, every job that is
  running after the turn was running before it or is in the worker's in-flight set, to be renewed
  and handed back; nothing leaves that set, and it never holds more than one job above its limit.
\<close>

theorem no_lease_is_left_behind:
  assumes "db_wf d" "dispatch_turn mp coll (quiet now) cfg w fl d = (t, fl', d')" "\<forall>e. t \<noteq> LeasingFailed e"
  shows "running_ids d' \<subseteq> running_ids d \<union> set (held_now fl') \<and> set (held_now fl) \<subseteq> set (held_now fl')
    \<and> held_count fl' \<le> max (held_count fl) (fl_limit fl + 1)"
  using assms
proof (cases rule: dispatch_turn_quiet)
  case (leased js ms d1)
  let ?ids = "map job_id (filter (sends mp) js)"
  have held: "set (held_now fl') = set (held_now fl) \<union> set ?ids" by (auto simp: leased(3) reserve_def)
  note running = turn_running_ids [OF leased(2,6,7)]
  have "held_count fl' \<le> held_count fl + length js"
  proof -
    have "length (filter P (remdups ?ids)) \<le> length js" for P
      by (rule order_trans [OF length_filter_le], rule order_trans [OF length_remdups_leq]) simp
    then show ?thesis by (simp add: leased(3) reserve_def held_count_def)
  qed
  moreover have "int (length js) \<le> int (available fl) + 1" using fetch_overshoots_by_one [OF leased(1)] by linarith
  ultimately have "held_count fl' \<le> max (held_count fl) (fl_limit fl + 1)" using leased(8) by (simp add: available_def)
  then show ?thesis using running held by auto
qed simp

text \<open>A turn that writes, as the jobs it set running and what it wrote for them.\<close>

lemma turn_sends:
  assumes "db_wf d" "msgpack_ok mp" "\<forall>r \<in> set (jobs d). wf_string (task r)"
    and "dispatch_turn mp coll (quiet now) cfg w fl d = (Send out, fl', d')"
  obtains js ms where "out = concat (map (frame_of mp) ms)" "carries js ms" "\<forall>m \<in> set ms. sendable mp m"
    "\<forall>j \<in> set js. leased_in w d' j" "distinct (map job_id js)" "job_id ` set js = running_ids d' - running_ids d"
    "fl' = reserve (map job_id js) fl"
proof (cases rule: dispatch_turn_quiet [OF assms(1,4)])
  case (3 js ms d1)
  note leased = 3
  let ?js = "filter (sends mp) js" and ?ms = "filter (encodable mp) ms"
  have out: "out = concat (map (frame_of mp) ?ms)" using leased(4) by (simp add: encode_all_frames)
  have "\<forall>r \<in> set (jobs d1). wf_string (task r)"
    using assms(3) leased(2) by (metis (no_types, lifting) image_iff takes_def)
  then have "\<forall>j \<in> set js. wf_string (job_task j)"
    using leased(2) by (auto simp: takes_def leased_in_def job_from_def)
  then have sendable: "\<forall>m \<in> set ?ms. sendable mp m"
    using carries_wf [OF leased(5)] assms(2) by (simp add: sendable_def)
  have kept: "leased_in w d' j" if "j \<in> set ?js" for j
  proof (rule reports_on_leased [OF leased(6)])
    show "leased_in w d1 j" using that leased(2) by (simp add: takes_def)
    show "job_id j \<notin> set (map job_id (filter (\<lambda>j. \<not> sends mp j) js))"
      using that leased(2) by (auto simp: takes_def distinct_map inj_on_def)
  qed
  have distinct: "distinct (map job_id ?js)" using leased(2) by (simp add: takes_def distinct_map_filter)
  have "job_id ` set ?js \<subseteq> running_ids d'" using kept by (force simp: leased_in_def running_ids_def)
  moreover have "job_id ` set ?js \<inter> running_ids d = {}"
    using leased(2) waiting_running_disjoint [OF assms(1)] by (auto simp: takes_def)
  ultimately have "job_id ` set ?js = running_ids d' - running_ids d" using turn_running_ids [OF leased(2,6,7)] by blast
  then show ?thesis using that [OF out carries_encodable [OF leased(5)] sendable _ distinct _ leased(3)] kept by blast
qed simp_all

text \<open>
  The child receives what was leased. When a turn writes bytes, the child, reading them in
  pieces of any size, decodes them to the end and finds in them, in the order they were leased, exactly
  the jobs that the turn set running: each with the task, the payload and the attempt of its row.
\<close>

theorem dispatched_jobs_arrive:
  assumes "db_wf d" "msgpack_ok mp" "\<forall>r \<in> set (jobs d). wf_string (task r)"
    and "dispatch_turn mp coll (quiet now) cfg w fl d = (Send out, fl', d')" "concat reads = out"
  shows "\<exists>js ms dec. feed mp new_decoder reads = (ms, dec) \<and> buffered dec = 0
    \<and> filter is_dispatch ms = map dispatch_message js \<and> (\<forall>j \<in> set js. leased_in w d' j)
    \<and> distinct (map job_id js) \<and> job_id ` set js = running_ids d' - running_ids d"
proof (rule turn_sends [OF assms(1-4)])
  fix js ms
  assume sent: "out = concat (map (frame_of mp) ms)" "carries js ms" "\<forall>m \<in> set ms. sendable mp m"
    and leased: "\<forall>j \<in> set js. leased_in w d' j" "distinct (map job_id js)" "job_id ` set js = running_ids d' - running_ids d"
  obtain dec where "feed mp new_decoder reads = (ms, dec)" "buffered dec = 0"
    using feed_stream [of new_decoder ms mp reads] sent(1,3) assms(5)
    by (auto simp: wire.peek_nothing simp flip: length_pending)
  then show ?thesis using sent(2) leased unfolding carries_def by blast
qed

text \<open>Two jobs wait, one of them under a key; a worker with nothing in flight takes both.\<close>

definition quick_config :: config where
  "quick_config = sample_config\<lparr>cfg_lease := 30, cfg_batch := 1\<rparr>"

lemma dispatch_turn_sends:
  assumes "db_wf d" "0 < available fl"
    and "fetch (quiet now) (cfg_queues cfg) (min (sint (cfg_batch cfg)) (int (available fl))) (cfg_lease cfg) w d = (Inr js, d1)"
    and "filter (sends mp) js \<noteq> []"
  obtains out fl' d' where "dispatch_turn mp coll (quiet now) cfg w fl d = (Send out, fl', d')"
proof -
  have "takes w js d d1" by (rule fetch_takes [OF assms(1,3)])
  then obtain ms d2 where "frame_jobs mp coll (quiet now) w js ([], [], d1) = (encode_all mp ms [], [] @ map job_id (filter (sends mp) js), d2)"
    using frame_jobs_quiet [of js w d1 mp coll now "[]" "[]"] by (auto simp: takes_def)
  moreover have "js \<noteq> []" using assms(4) by auto
  ultimately show ?thesis using assms that by (simp add: dispatch_turn_def)
qed

lemma sample_jobs:
  "map_sum id (map (\<lambda>j. (job_id j, job_task j, job_payload j))) (fst (fetch (quiet 10) [''default''] 1 30 7 sample_db))
   = Inr [(2, ''send'', []), (3, ''send'', [])]"
  by code_simp

lemma quick_turn:
  obtains out fl' d' where "dispatch_turn unary_pack length (quiet 10) quick_config 7 (new_in_flight 1) sample_db = (Send out, fl', d')"
proof -
  let ?fetch = "fetch (quiet 10) [''default''] 1 30 7 sample_db"
  obtain js where js: "?fetch = (Inr js, snd ?fetch)" "map (\<lambda>j. (job_id j, job_task j, job_payload j)) js = [(2, ''send'', []), (3, ''send'', [])]"
    by (rule ok_pair [OF sample_jobs])
  then obtain j where j: "j \<in> set js" "job_task j = ''send''" "job_payload j = []" by (cases js) auto
  then have "sends unary_pack j"
    by (simp add: sends_def encodable_def encode_reference dispatch_message_def MAX_FRAME_BYTES_def)
  then have sent: "filter (sends unary_pack) js \<noteq> []" using j(1) by (auto simp: filter_empty_conv)
  have cfg: "cfg_queues quick_config = [''default'']" "cfg_lease quick_config = 30"
    "min (sint (cfg_batch quick_config)) (int (available (new_in_flight 1))) = 1" "0 < available (new_in_flight 1)"
    by (simp_all add: quick_config_def sample_config_def default_config_def available_def new_in_flight_def held_count_def)
  have "fetch (quiet 10) (cfg_queues quick_config) (min (sint (cfg_batch quick_config)) (int (available (new_in_flight 1))))
      (cfg_lease quick_config) 7 sample_db = (Inr js, snd ?fetch)"
    unfolding cfg(1-3) by (rule js(1))
  then show ?thesis by (rule dispatch_turn_sends [OF sample_db_wf cfg(4) _ sent]) (rule that)
qed

theorem no_lease_is_left_behind_witness:
  "\<exists>t fl' d'. dispatch_turn unary_pack length (quiet 10) quick_config 7 (new_in_flight 1) sample_db = (t, fl', d')
     \<and> running_ids d' \<subseteq> running_ids sample_db \<union> set (held_now fl') \<and> held_count fl' \<le> 2"
proof -
  obtain out fl' d' where turn: "dispatch_turn unary_pack length (quiet 10) quick_config 7 (new_in_flight 1) sample_db = (Send out, fl', d')"
    by (rule quick_turn)
  from no_lease_is_left_behind [OF sample_db_wf turn] turn show ?thesis
    by (simp add: new_in_flight_def held_count_def)
qed

theorem dispatched_jobs_arrive_witness:
  "\<exists>out fl' d' js ms dec. dispatch_turn unary_pack length (quiet 10) quick_config 7 (new_in_flight 1) sample_db = (Send out, fl', d')
     \<and> feed unary_pack new_decoder [take 9 out, drop 9 out] = (ms, dec) \<and> buffered dec = 0
     \<and> filter is_dispatch ms = map dispatch_message js \<and> job_id ` set js = running_ids d' - running_ids sample_db"
proof -
  obtain out fl' d' where turn: "dispatch_turn unary_pack length (quiet 10) quick_config 7 (new_in_flight 1) sample_db = (Send out, fl', d')"
    by (rule quick_turn)
  have "wf_string ''send''" by (simp add: wf_string_def char_byte_def)
  then have "\<forall>r \<in> set (jobs sample_db). wf_string (task r)" by (simp add: sample_defs)
  from dispatched_jobs_arrive [OF sample_db_wf unary_pack_ok this turn, of "[take 9 out, drop 9 out]"] turn show ?thesis
    by simp blast
qed

section \<open>Reports and a database that does not answer\<close>

definition unreachable :: "int \<Rightarrow> env" where
  "unreachable now = (quiet now)\<lparr>faults := (\<lambda>_. Refused)\<rparr>"

text \<open>
  A batch the database never saw is forgotten. When none of the four statements of a flush
  reaches the database, the reports are dropped all the same and their jobs leave the in-flight
  set, so that no renewal keeps their leases: an executed job is run once more after its lease ends.
\<close>

theorem unrecorded_batch_is_released:
  assumes "rs \<noteq> []" "flush random (unreachable now) cfg w (pending_of rs) fl d = (p, fl', d')"
  shows "p = no_pending \<and> d' = d \<and> held_now fl' = filter (\<lambda>i. i \<notin> fst ` set rs) (held_now fl)
    \<and> (\<forall>r \<in> set (jobs d). row_id r \<in> fst ` set rs \<longrightarrow> r \<in> set (jobs (renew_turn (quiet t) cfg w fl' d')))"
proof -
  let ?p = "pending_of rs"
  have lost: "snd (run_stmt (unreachable now) k stmt d) = d" for k and stmt :: "int \<Rightarrow> i64 list \<Rightarrow> 'a op" and d
    by (simp add: run_stmt_def unreachable_def quiet_def prod.case_eq_if)
  have "flush_statements random (unreachable now) cfg w ?p d = d" by (simp add: flush_statements_def lost)
  then have eqs: "p = no_pending" "d' = d"
      "fl' = release (pe_completed ?p @ pe_with_result ?p @ pe_retry ?p @ pe_terminal ?p) fl"
    using assms by (auto simp: flush_def batch_empty)
  have held: "held_now (release ids fl) = filter (\<lambda>i. i \<notin> set ids) (held_now fl)" for ids
    by (simp add: release_def Let_def)
  have kept: "held_now fl' = filter (\<lambda>i. i \<notin> fst ` set rs) (held_now fl)"
    unfolding eqs(3) held batch_ids ..
  have "r \<in> set (jobs (renew_turn (quiet t) cfg w fl' d'))" if "r \<in> set (jobs d)" "row_id r \<in> fst ` set rs" for r
  proof -
    have "\<not> holds w (held_now fl') r" using that(2) by (auto simp: kept holds_def)
    then show ?thesis
      using that(1) unfolding renew_turn_quiet renew_leases_eq eqs(2) by (simp add: update_where_def image_iff)
  qed
  then show ?thesis using eqs(1,2) kept by blast
qed

theorem unrecorded_batch_is_released_witness:
  "\<exists>p fl' d'. flush (\<lambda>_. 0) (unreachable 20) sample_config 7 (pending_of [(1, Success [42])]) busy busy_db = (p, fl', d')
     \<and> d' = busy_db \<and> held_now fl' = [] \<and> busy_row \<in> set (jobs (renew_turn (quiet 30) sample_config 7 fl' d'))"
proof -
  obtain p fl' d' where run: "flush (\<lambda>_. 0) (unreachable 20) sample_config 7 (pending_of [(1, Success [42])]) busy busy_db = (p, fl', d')"
    using prod_cases3 by blast
  have "p = no_pending \<and> d' = busy_db \<and> held_now fl' = [] \<and> busy_row \<in> set (jobs (renew_turn (quiet 30) sample_config 7 fl' d'))"
    using unrecorded_batch_is_released [OF _ run, of 30] by (auto simp: busy_simps)
  then show ?thesis using run by blast
qed

end
