(* ===== verification/Text.thy ===== *)
theory Text
  imports Prelude "HOL-Library.Sublist"
begin

text \<open>
  Text as the command line prints and reads it: what the formatting and string functions of the
  standard library do with strings that are UTF-8 bytes. Widths count characters, so continuation
  bytes are free; white space is that of Unicode.
\<close>

section \<open>Printing\<close>

definition continuation :: "char \<Rightarrow> bool" where
  "continuation c \<longleftrightarrow> 128 \<le> (of_char c :: nat) \<and> (of_char c :: nat) < 192"

definition char_count :: "string \<Rightarrow> nat" where
  "char_count s = length (filter (\<lambda>c. \<not> continuation c) s)"

text \<open>The fills \<open>{:<n}\<close> and \<open>{:>n}\<close>.\<close>

definition pad_end :: "nat \<Rightarrow> string \<Rightarrow> string" where
  "pad_end n s = s @ replicate (n - char_count s) CHR '' ''"

definition pad_start :: "nat \<Rightarrow> string \<Rightarrow> string" where
  "pad_start n s = replicate (n - char_count s) CHR '' '' @ s"

definition show_int :: "int \<Rightarrow> string" where
  "show_int i = (if i < 0 then ''-'' @ decimal (nat (- i)) else decimal (nat i))"

section \<open>Lines\<close>

abbreviation (input) newline :: char where "newline \<equiv> CHR 0x0A"
abbreviation (input) carriage_return :: char where "carriage_return \<equiv> CHR 0x0D"

definition strip_cr :: "string \<Rightarrow> string" where
  "strip_cr s = (if s \<noteq> [] \<and> last s = carriage_return then butlast s else s)"

text \<open>A line ends at a line feed, which goes with a carriage return before it; what follows the last one is a line if it is not empty.\<close>

fun lines_from :: "string \<Rightarrow> string \<Rightarrow> string list" where
  "lines_from cur [] = (if cur = [] then [] else [cur])"
| "lines_from cur (c # cs) = (if c = newline then strip_cr cur # lines_from [] cs else lines_from (cur @ [c]) cs)"

definition str_lines :: "string \<Rightarrow> string list" where
  "str_lines s = lines_from [] s"

lemma lines_from_one_line: "newline \<notin> set cur \<Longrightarrow> l \<in> set (lines_from cur s) \<Longrightarrow> newline \<notin> set l"
proof (induction cur s rule: lines_from.induct)
  case (2 cur c cs)
  then show ?case by (auto simp: strip_cr_def split: if_splits dest: in_set_butlastD)
qed (auto split: if_splits)

lemma str_lines_one_line: "l \<in> set (str_lines s) \<Longrightarrow> newline \<notin> set l"
  by (auto simp: str_lines_def dest: lines_from_one_line [rotated])

section \<open>Trimming\<close>

text \<open>The characters of Unicode's \<open>White_Space\<close>, encoded.\<close>

definition white_spaces :: "string list" where
  "white_spaces = map (map char_of)
     ([[0x20], [0x09], [0x0A], [0x0B], [0x0C], [0x0D], [0xC2, 0x85], [0xC2, 0xA0], [0xE1, 0x9A, 0x80]]
      @ map (\<lambda>c. [0xE2, 0x80, c]) ([0x80..<0x8B] @ [0xA8, 0xA9, 0xAF])
      @ [[0xE2, 0x81, 0x9F], [0xE3, 0x80, 0x80 :: nat]])"

lemma white_spaces_nonempty: "w \<in> set white_spaces \<Longrightarrow> w \<noteq> []"
  by (auto simp: white_spaces_def)

function trim_by :: "(string \<Rightarrow> string) \<Rightarrow> string \<Rightarrow> string" where
  "trim_by f s =
     (case find (\<lambda>w. prefix (f w) s) white_spaces of
        None \<Rightarrow> s
      | Some w \<Rightarrow> if f w = [] then s else trim_by f (drop (length (f w)) s))"
  by pat_completeness auto

termination trim_by
  by (relation "measure (\<lambda>(f, s). length s)") (auto simp: find_Some_iff prefix_def)

declare trim_by.simps [simp del]

definition trim :: "string \<Rightarrow> string" where
  "trim s = rev (trim_by rev (rev (trim_by id s)))"

section \<open>Numbers\<close>

definition digit_value :: "char \<Rightarrow> nat option" where
  "digit_value c = (let n = of_char c in if 48 \<le> n \<and> n \<le> 57 then Some (n - 48) else None)"

fun digits_value :: "nat \<Rightarrow> string \<Rightarrow> nat option" where
  "digits_value acc [] = Some acc"
| "digits_value acc (c # cs) = (case digit_value c of None \<Rightarrow> None | Some n \<Rightarrow> digits_value (acc * 10 + n) cs)"

text \<open>\<open>str::parse::<i64>\<close>: a sign at most, then digits, and a value that fits.\<close>

definition parse_i64 :: "string \<Rightarrow> i64 option" where
  "parse_i64 s =
     (let (neg, ds) = (case s of [] \<Rightarrow> (False, [])
                       | c # cs \<Rightarrow> if c = CHR ''-'' then (True, cs) else if c = CHR ''+'' then (False, cs) else (False, s)) in
      if ds = [] then None
      else case digits_value 0 ds of
             None \<Rightarrow> None
           | Some n \<Rightarrow> let i = (if neg then - int n else int n) in
                       if - (2 ^ 63) \<le> i \<and> i < 2 ^ 63 then Some (of_int i) else None)"

lemma digits_value_append:
  "digits_value acc (xs @ ys) = (case digits_value acc xs of None \<Rightarrow> None | Some n \<Rightarrow> digits_value n ys)"
  by (induction acc xs rule: digits_value.induct) (auto split: option.split)

lemma digit_value_digit: "n < 10 \<Longrightarrow> digit_value (char_of (48 + n)) = Some n"
  by (simp add: digit_value_def Let_def)

lemma digits_value_decimal: "digits_value 0 (decimal n) = Some n"
proof (induction n rule: decimal.induct)
  case (1 n)
  show ?case
  proof (cases "n < 10")
    case True
    then show ?thesis by (subst decimal.simps) (simp add: digit_value_digit)
  next
    case False
    then show ?thesis using 1 digit_value_digit [of "n mod 10"]
      by (subst decimal.simps) (simp add: digits_value_append)
  qed
qed

lemma decimal_digits: "c \<in> set (decimal n) \<Longrightarrow> digit_value c \<noteq> None"
proof (induction n arbitrary: c rule: decimal.induct)
  case (1 n)
  have "digit_value (char_of (48 + n mod 10)) \<noteq> None" "n < 10 \<Longrightarrow> digit_value (char_of (48 + n)) \<noteq> None"
    using digit_value_digit [of "n mod 10"] digit_value_digit [of n] by auto
  then show ?case using 1 by (subst (asm) (2) decimal.simps) (auto split: if_splits)
qed

lemma decimal_nonempty: "decimal n \<noteq> []"
  by (subst decimal.simps) simp

lemma parse_decimal:
  assumes "n < 2 ^ 63"
  shows "parse_i64 (decimal n) = Some (of_nat n)"
proof -
  obtain c cs where d: "decimal n = c # cs" using decimal_nonempty [of n] by (cases "decimal n") auto
  then have "digit_value c \<noteq> None" using decimal_digits [of c n] by simp
  then have "c \<noteq> CHR ''-''" "c \<noteq> CHR ''+''" by (auto simp: digit_value_def)
  moreover have "int n < 2 ^ 63" using assms by (metis of_nat_less_iff of_nat_numeral of_nat_power)
  ultimately show ?thesis
    using digits_value_decimal [of n] d by (simp add: parse_i64_def Let_def)
qed

text \<open>White space neither begins nor ends in a digit, so trimming leaves numbers alone.\<close>

lemma white_spaces_no_digits: "list_all (\<lambda>w. digit_value (hd w) = None \<and> digit_value (last w) = None) white_spaces"
  by code_simp

lemma trim_by_digits:
  assumes "\<And>w. w \<in> set white_spaces \<Longrightarrow> f w \<noteq> [] \<and> digit_value (hd (f w)) = None" "\<And>c. c \<in> set s \<Longrightarrow> digit_value c \<noteq> None"
  shows "trim_by f s = s"
proof -
  have "\<not> prefix (f w) s" if "w \<in> set white_spaces" for w
    using assms(1) [OF that] assms(2) [of "hd (f w)"] by (cases "f w") (auto simp: prefix_def)
  then have "find (\<lambda>w. prefix (f w) s) white_spaces = None" by (simp add: find_None_iff)
  then show ?thesis by (subst trim_by.simps) simp
qed

lemma trim_decimal: "trim (decimal n) = decimal n"
proof -
  have w: "w \<noteq> [] \<and> digit_value (hd w) = None \<and> digit_value (last w) = None" if "w \<in> set white_spaces" for w
    using that white_spaces_no_digits white_spaces_nonempty [OF that] by (auto simp: list_all_iff)
  have "trim_by id (decimal n) = decimal n"
    by (rule trim_by_digits) (use w decimal_digits in auto)
  moreover have "trim_by rev (rev (decimal n)) = rev (decimal n)"
    by (rule trim_by_digits) (use w decimal_digits in \<open>auto simp: hd_rev\<close>)
  ultimately show ?thesis by (simp add: trim_def)
qed

lemma lines_from_line: "newline \<notin> set xs \<Longrightarrow> lines_from cur (xs @ newline # ys) = strip_cr (cur @ xs) # lines_from [] ys"
  by (induction xs arbitrary: cur) auto

lemma str_lines_decimals: "str_lines (concat (map (\<lambda>n. decimal n @ [newline]) ns)) = map decimal ns"
proof (induction ns)
  case (Cons n ns)
  have no: "digit_value newline = None" "digit_value carriage_return = None" by code_simp+
  then have "newline \<notin> set (decimal n)" "strip_cr (decimal n) = decimal n"
    using decimal_digits [of newline n] decimal_digits [of "last (decimal n)" n] decimal_nonempty [of n]
    by (auto simp: strip_cr_def)
  then show ?case using Cons lines_from_line [of "decimal n" "[]"] by (simp add: str_lines_def)
qed (simp add: str_lines_def)

end
