(* ===== verification/Commands.thy ===== *)
theory Commands
  imports Worker Text
begin

text \<open>
  The command line (\<open>crates/gylo-cli/src/main.rs\<close>): the one-shot commands over the backend, with
  the lines they print and the errors they end in, and the configuration the worker command
  builds from its arguments. Connecting, migrating, formatting a time and the location of the
  executable are the libraries' and the system's, and so arguments here.
\<close>

section \<open>Errors and output\<close>

text \<open>A message of its own, a context around what the backend raised, or what starting the worker raised.\<close>

datatype cli_error = Message string | Context string pg_error | WorkerFailed worker_error

text \<open>What a command ends in, what it printed until then, and the database it leaves.\<close>

type_synonym printed = "(cli_error, unit) result \<times> string list \<times> db"

record 'k surroundings =
  ex_connect :: "string \<Rightarrow> u32 \<Rightarrow> (pg_error, unit) result"
  ex_migrate :: "db \<Rightarrow> (pg_error, unit) result \<times> db"
  ex_collation :: "string \<Rightarrow> 'k"
  ex_format :: "int \<Rightarrow> string"

section \<open>Showing\<close>

definition queue_line :: "string \<Rightarrow> string \<Rightarrow> string \<Rightarrow> string \<Rightarrow> string \<Rightarrow> string" where
  "queue_line name ready scheduled blocked running =
     pad_end 20 name @ '' '' @ pad_start 9 ready @ '' '' @ pad_start 10 scheduled @ '' ''
       @ pad_start 9 blocked @ '' '' @ pad_start 9 running"

fun queue_lines :: "env \<Rightarrow> string list \<Rightarrow> db \<Rightarrow> printed" where
  "queue_lines v [] d = (Inr (), [], d)"
| "queue_lines v (name # names) d =
     (case run_stmt v 0 (\<lambda>now _. depth_of now name) d of
        (Inl e, d1) \<Rightarrow> (Inl (Context (''reading the depth of '' @ name) e), [], d1)
      | (Inr dp, d1) \<Rightarrow>
          let (r, out, d2) = queue_lines (shift 1 v) names d1 in
          (r, queue_line name (decimal (dp_ready dp)) (decimal (dp_scheduled dp)) (decimal (dp_blocked dp))
                (decimal (dp_running dp)) # out, d2))"

definition show_queues :: "(string \<Rightarrow> 'k::linorder) \<Rightarrow> env \<Rightarrow> string option \<Rightarrow> db \<Rightarrow> printed" where
  "show_queues coll v q d =
     (case (case q of Some one \<Rightarrow> (Inr [one], d) | None \<Rightarrow> run_stmt v 0 (\<lambda>_ _. queues coll) d) of
        (Inl e, d1) \<Rightarrow> (Inl (Context ''listing queues'' e), [], d1)
      | (Inr names, d1) \<Rightarrow>
          if names = [] then (Inr (), [''no queue is holding anything''], d1)
          else
            let (r, out, d2) = queue_lines (shift 1 v) names d1 in
            (r, queue_line ''queue'' ''ready'' ''scheduled'' ''blocked'' ''running'' # out, d2))"

text \<open>One line for a dead letter: of its error, the last line.\<close>

definition cause_of :: "string option \<Rightarrow> string" where
  "cause_of error =
     (let ls = str_lines (case error of None \<Rightarrow> ''-'' | Some e \<Rightarrow> e) in if ls = [] then ''-'' else last ls)"

definition failed_line :: "(int \<Rightarrow> string) \<Rightarrow> discarded \<Rightarrow> string" where
  "failed_line fmt j =
     pad_end 10 (show_int (sint (di_id j))) @ '' '' @ pad_end 16 (di_queue j) @ '' '' @ pad_end 24 (di_task j)
       @ '' attempt '' @ pad_end 4 (show_int (sint (di_attempt j))) @ '' ''
       @ (case di_finalized_at j of None \<Rightarrow> ''-'' | Some t \<Rightarrow> fmt t) @ ''  '' @ cause_of (di_error j)"

definition show_failed :: "(int \<Rightarrow> string) \<Rightarrow> env \<Rightarrow> string option \<Rightarrow> i64 \<Rightarrow> db \<Rightarrow> printed" where
  "show_failed fmt v q limit d =
     (case run_stmt v 0 (\<lambda>_ _. list_discarded q (sint limit)) d of
        (Inl e, d1) \<Rightarrow> (Inl (Context ''listing dead-lettered jobs'' e), [], d1)
      | (Inr failed, d1) \<Rightarrow>
          (Inr (), if failed = [] then [''nothing has been dead-lettered''] else map (failed_line fmt) failed, d1))"

section \<open>Acting\<close>

definition retry_failed :: "env \<Rightarrow> i64 list \<Rightarrow> string option \<Rightarrow> db \<Rightarrow> printed" where
  "retry_failed v ids q d =
     (let selected = (if ids \<noteq> [] then Some ids else None) in
      case run_stmt v 0 (\<lambda>now _. retry_discarded now selected q) d of
        (Inl e, d1) \<Rightarrow> (Inl (Context ''returning dead-lettered jobs to their queue'' e), [], d1)
      | (Inr retried, d1) \<Rightarrow> (Inr (), [decimal (length retried) @ '' job(s) queued again''], d1))"

definition purge_failed :: "env \<Rightarrow> string option \<Rightarrow> bool \<Rightarrow> db \<Rightarrow> printed" where
  "purge_failed v q confirmed d =
     (if \<not> confirmed
      then (Inl (Message ''pass --yes to delete dead-lettered jobs; this cannot be undone''), [], d)
      else
        case run_stmt v 0 (\<lambda>_ _. purge_discarded q) d of
          (Inl e, d1) \<Rightarrow> (Inl (Context ''deleting dead-lettered jobs'' e), [], d1)
        | (Inr removed, d1) \<Rightarrow> (Inr (), [decimal removed @ '' job(s) deleted''], d1))"

text \<open>
  The loops are those of the retention theory. Batch \<open>k\<close> of either runs at \<open>clock v k\<close>, passing over the
  rows of \<open>skips v k\<close>. The command is followed alone: no connection fails and no other session works between its
  batches, which the loops of the workers that prune allow.
\<close>

definition prune_command :: "env \<Rightarrow> duration \<Rightarrow> string option \<Rightarrow> bool \<Rightarrow> db \<Rightarrow> printed" where
  "prune_command v older_than q discarded d =
     (case prune_loop [Completed, Cancelled] older_than q (clock v) (skips v) 0 0 d of
        (Inl e, d1) \<Rightarrow> (Inl (Context ''pruning finished jobs'' e), [], d1)
      | (Inr removed, d1) \<Rightarrow>
          (case (if discarded then prune_loop [Discarded] older_than q (clock v) (skips v) 0 removed d1 else (Inr removed, d1)) of
             (Inl e, d2) \<Rightarrow> (Inl (Context ''pruning dead-lettered jobs'' e), [], d2)
           | (Inr n, d2) \<Rightarrow>
               (case prune_workflows d2 of
                  (Inl e, d3) \<Rightarrow> (Inl (Context ''pruning finished workflows'' e), [], d3)
                | (Inr _, d3) \<Rightarrow> (Inr (), [decimal n @ '' job(s) pruned''], d3))))"

section \<open>The one-shot commands\<close>

datatype jobs_command =
    FailedJobs "string option" i64
  | RetryJobs "i64 list" "string option"
  | PruneJobs duration "string option" bool
  | PurgeJobs "string option" bool

datatype command = Migrate | QueueCommand "string option" | JobsCommand jobs_command

definition connect :: "(string \<Rightarrow> u32 \<Rightarrow> (pg_error, unit) result) \<Rightarrow> string option \<Rightarrow> u32 \<Rightarrow> (cli_error, unit) result" where
  "connect dial url n =
     (case url of
        None \<Rightarrow> Inl (Message ''set DATABASE_URL or pass --database-url'')
      | Some u \<Rightarrow> (case dial u n of Inl e \<Rightarrow> Inl (Context ''connecting to postgres'' e) | Inr _ \<Rightarrow> Inr ()))"

fun run_connected :: "('k::linorder) surroundings \<Rightarrow> env \<Rightarrow> command \<Rightarrow> db \<Rightarrow> printed" where
  "run_connected ex v Migrate d =
     (case ex_migrate ex d of
        (Inl e, d1) \<Rightarrow> (Inl (Context ''applying migrations'' e), [], d1)
      | (Inr _, d1) \<Rightarrow> (Inr (), [''migrations applied''], d1))"
| "run_connected ex v (QueueCommand q) d = show_queues (ex_collation ex) v q d"
| "run_connected ex v (JobsCommand (FailedJobs q limit)) d = show_failed (ex_format ex) v q limit d"
| "run_connected ex v (JobsCommand (RetryJobs ids q)) d = retry_failed v ids q d"
| "run_connected ex v (JobsCommand (PruneJobs older_than q discarded)) d = prune_command v older_than q discarded d"
| "run_connected ex v (JobsCommand (PurgeJobs q yes)) d = purge_failed v q yes d"

definition run_command :: "('k::linorder) surroundings \<Rightarrow> env \<Rightarrow> string option \<Rightarrow> command \<Rightarrow> db \<Rightarrow> printed" where
  "run_command ex v url cmd d =
     (case connect (ex_connect ex) url 2 of
        Inl e \<Rightarrow> (Inl e, [], d)
      | Inr _ \<Rightarrow> run_connected ex v cmd d)"

section \<open>The worker command\<close>

record worker_args =
  wa_app :: string
  wa_queues :: "string list"
  wa_processes :: "nat option"
  wa_concurrency :: nat
  wa_batch :: i64
  wa_lease :: duration
  wa_poll_interval :: duration
  wa_maintenance_interval :: duration
  wa_retry_base :: duration
  wa_retry_cap :: duration
  wa_retain_completed :: duration
  wa_retain_discarded :: duration
  wa_python :: "string option"
  wa_python_path :: "string option"
  wa_pool_size :: "u32 option"

text \<open>What the parser fills in for options that are not given.\<close>

definition default_args :: "string \<Rightarrow> worker_args" where
  "default_args app =
     \<lparr>wa_app = app, wa_queues = [''default''], wa_processes = None, wa_concurrency = 256, wa_batch = 128,
      wa_lease = from_secs 30, wa_poll_interval = from_millis 200, wa_maintenance_interval = from_secs 10,
      wa_retry_base = from_secs 1, wa_retry_cap = from_secs 3600, wa_retain_completed = from_secs (24 * 3600),
      wa_retain_discarded = from_secs (7 * 24 * 3600), wa_python = None, wa_python_path = None,
      wa_pool_size = None\<rparr>"

text \<open>\<open>bin\<close> is the directory of the running executable, when the system knows it.\<close>

definition sibling_python :: "string option \<Rightarrow> (string \<Rightarrow> bool) \<Rightarrow> string" where
  "sibling_python bin is_file =
     (case bin of
        None \<Rightarrow> ''python3''
      | Some b \<Rightarrow>
          let python = (if b = [] \<or> last b = CHR ''/'' then b else b @ ''/'') @ ''python3'' in
          if is_file python then python else ''python3'')"

definition worker_config :: "nat option \<Rightarrow> string \<Rightarrow> worker_args \<Rightarrow> config" where
  "worker_config cores sibling a =
     (default_config cores)
       \<lparr>cfg_queues := wa_queues a,
        cfg_processes := (case wa_processes a of Some n \<Rightarrow> n | None \<Rightarrow> cfg_processes (default_config cores)),
        cfg_concurrency := wa_concurrency a, cfg_batch := wa_batch a, cfg_lease := wa_lease a,
        cfg_poll_interval := wa_poll_interval a, cfg_maintenance_interval := wa_maintenance_interval a,
        cfg_retry_base := wa_retry_base a, cfg_retry_cap := wa_retry_cap a,
        cfg_retain_completed := wa_retain_completed a, cfg_retain_discarded := wa_retain_discarded a,
        cfg_python := (case wa_python a of Some p \<Rightarrow> p | None \<Rightarrow> sibling), cfg_app := wa_app a,
        cfg_python_path := wa_python_path a\<rparr>"

text \<open>Three connections for each child and four more, in 32 bits.\<close>

definition pool_size :: "config \<Rightarrow> worker_args \<Rightarrow> u32" where
  "pool_size cfg a = (case wa_pool_size a of Some n \<Rightarrow> n | None \<Rightarrow> of_nat (cfg_processes cfg) * 3 + 4)"

text \<open>Up to the point where the worker runs: the pool it connects and the configuration it is given.\<close>

definition start_worker ::
  "(string \<Rightarrow> u32 \<Rightarrow> (pg_error, unit) result) \<Rightarrow> nat option \<Rightarrow> string \<Rightarrow> string option \<Rightarrow> worker_args \<Rightarrow>
   (cli_error, u32 \<times> config) result"
where
  "start_worker dial cores sibling url a =
     (let cfg = worker_config cores sibling a; n = pool_size cfg a in
      case connect dial url n of
        Inl e \<Rightarrow> Inl e
      | Inr _ \<Rightarrow> (case startup cfg of Inl e \<Rightarrow> Inl (WorkerFailed e) | Inr _ \<Rightarrow> Inr (n, cfg)))"

section \<open>The commands issue statements\<close>

lemma statement_retry_discarded: "statement (\<lambda>now _. retry_discarded now ids q)"
  by (rule statement_exec [of "\<lambda>_ _. RetryDiscarded ids q"]) simp

lemma statement_purge: "statement (\<lambda>_ _. purge_discarded q)"
  by (rule statement_exec [of "\<lambda>_ _. PurgeDiscarded q"]) simp

lemma reads:
  "snd (depth_of now name d) = d" "snd (queues coll d) = d" "snd (list_discarded q n d) = d"
  by (simp_all add: depth_of_def queues_def list_discarded_def bind_queue_def bind_text_def)

lemma statement_reads:
  "statement (\<lambda>now _. depth_of now name)" "statement (\<lambda>_ _. queues coll)" "statement (\<lambda>_ _. list_discarded q n)"
  by (intro statement_read reads)+

lemma queue_lines_steps: "orderly v \<Longrightarrow> db_steps d (snd (snd (queue_lines v names d)))"
proof (induction names arbitrary: v d)
  case (Cons name names)
  obtain r d1 where run: "run_stmt v 0 (\<lambda>now _. depth_of now name) d = (r, d1)" by fastforce
  have d1: "db_steps d d1" by (rule run_stmt_steps' [OF Cons.prems statement_reads(1) run])
  have "db_steps d1 (snd (snd (queue_lines (shift 1 v) names d1)))" using Cons by simp
  with d1 show ?case by (auto simp: run prod.case_eq_if Let_def split: sum.split intro: rtranclp_trans)
qed simp

lemma prune_loop_steps:
  assumes "states \<in> {[Completed, Cancelled], [Discarded]}"
  shows "db_steps d (snd (prune_loop states older_than q clk locked k removed d))"
  using assms
proof (induction states older_than q clk locked k removed d rule: prune_loop.induct)
  case (1 states older_than q clk locked k removed d)
  obtain r d1 where run: "prune_states states older_than q 5000 (clk k) (locked k) d = (r, d1)" by fastforce
  have "d1 = exec (clk k) (Prune (states = [Discarded]) older_than q 5000 (locked k)) d" using "1.prems" run by auto
  then have d1: "db_steps d d1" using db_stepI r_into_rtranclp by (metis call_ok.simps)
  show ?case
  proof (cases r)
    case (Inl e)
    then show ?thesis using d1 run by (subst prune_loop.simps) simp
  next
    case (Inr batch)
    show ?thesis
    proof (cases "batch < 5000")
      case True
      then show ?thesis using d1 run Inr by (subst prune_loop.simps) simp
    next
      case False
      then have "db_steps d1 (snd (prune_loop states older_than q clk locked (Suc k) (removed + batch) d1))"
        using "1.IH" [OF run [symmetric] Inr False "1.prems"] by simp
      then show ?thesis using d1 run Inr False by (subst prune_loop.simps) (simp add: rtranclp_trans [OF d1])
    qed
  qed
qed

lemma prune_command_steps: "db_steps d (snd (snd (prune_command v older_than q discarded d)))"
proof -
  define p1 where "p1 = prune_loop [Completed, Cancelled] older_than q (clock v) (skips v) 0 0 d"
  define p2 where "p2 = (\<lambda>n. if discarded then prune_loop [Discarded] older_than q (clock v) (skips v) 0 n (snd p1) else (Inr n, snd p1))"
  have flows: "db_steps x (snd (prune_workflows x))" for x
    using statement_prune_workflows by (auto simp: statement_def)
  have 1: "db_steps d (snd p1)" by (simp add: p1_def prune_loop_steps)
  have "db_steps (snd p1) (snd (p2 n))" for n by (simp add: p2_def prune_loop_steps)
  then have 2: "db_steps d (snd (p2 n))" for n using 1 rtranclp_trans by metis
  have 3: "db_steps d (snd (prune_workflows (snd (p2 n))))" for n using 2 flows rtranclp_trans by metis
  have eq: "prune_command v older_than q discarded d =
     (case p1 of (Inl e, d1) \<Rightarrow> (Inl (Context ''pruning finished jobs'' e), [], d1)
      | (Inr removed, _) \<Rightarrow>
          (case p2 removed of (Inl e, d2) \<Rightarrow> (Inl (Context ''pruning dead-lettered jobs'' e), [], d2)
           | (Inr n, d2) \<Rightarrow>
               (case prune_workflows d2 of (Inl e, d3) \<Rightarrow> (Inl (Context ''pruning finished workflows'' e), [], d3)
                | (Inr _, d3) \<Rightarrow> (Inr (), [decimal n @ '' job(s) pruned''], d3))))"
    unfolding prune_command_def p1_def p2_def by (simp add: prod.case_eq_if)
  show ?thesis unfolding eq prod.case_eq_if using 1 2 3 by (simp split: sum.split)
qed

lemma run_connected_steps:
  assumes "orderly v" "\<forall>x. snd (ex_migrate ex x) = x"
  shows "db_steps d (snd (snd (run_connected ex v cmd d)))"
proof -
  note run = run_stmt_steps [OF assms(1)]
  have listed: "db_steps d (snd (case q of Some one \<Rightarrow> (Inr [one], d) | None \<Rightarrow> run_stmt v 0 (\<lambda>_ _. queues (ex_collation ex)) d))" for q
    by (simp add: run statement_reads split: option.split)
  show ?thesis
  proof (cases "(ex, v, cmd, d)" rule: run_connected.cases)
    case (2 ex v q d)
    then show ?thesis
      using listed assms(1) by (auto simp: show_queues_def prod.case_eq_if Let_def split: sum.split
          intro: rtranclp_trans [OF _ queue_lines_steps])
  qed (use assms(2) in \<open>simp_all add: show_failed_def retry_failed_def purge_failed_def prod.case_eq_if Let_def
      prune_command_steps run [OF statement_reads(3)] run [OF statement_retry_discarded] run [OF statement_purge] split: sum.split\<close>)
qed

fun read_only :: "command \<Rightarrow> bool" where
  "read_only (QueueCommand q) \<longleftrightarrow> True"
| "read_only (JobsCommand (FailedJobs q limit)) \<longleftrightarrow> True"
| "read_only (JobsCommand (PurgeJobs q yes)) \<longleftrightarrow> \<not> yes"
| "read_only _ \<longleftrightarrow> False"

lemma queue_lines_quiet: "snd (snd (queue_lines (quiet now) names d)) = d"
proof (induction names)
  case (Cons name names)
  show ?case using Cons reads(1) [of now name d] by (auto simp: prod.case_eq_if Let_def split: sum.split)
qed simp

text \<open>
  C36: The command line only issues statements. Provided that migrating a database that is up to
  date leaves it alone, every one-shot command turns a reachable database into a reachable one,
  whatever it prints or fails with; showing, and purging without confirmation, change nothing, and
  without a connection nothing is done.
\<close>

theorem commands_only_issue_statements:
  assumes "reachable_db d" "orderly v" "\<forall>x. snd (ex_migrate ex x) = x"
  shows "reachable_db (snd (snd (run_command ex v url cmd d)))
    \<and> (read_only cmd \<longrightarrow> snd (snd (run_command ex (quiet now) url cmd d)) = d)
    \<and> (url = None \<longrightarrow> run_command ex v url cmd d = (Inl (Message ''set DATABASE_URL or pass --database-url''), [], d))"
proof (intro conjI impI)
  show "reachable_db (snd (snd (run_command ex v url cmd d)))"
    using assms(1) reachable_steps [OF run_connected_steps [OF assms(2,3)] assms(1)]
    by (simp add: run_command_def split: sum.split)
  have "snd (snd (run_connected ex (quiet now) cmd d)) = d" if "read_only cmd"
    using that reads queue_lines_quiet
    by (cases "(ex, quiet now, cmd, d)" rule: run_connected.cases)
      (auto simp: show_queues_def show_failed_def purge_failed_def prod.case_eq_if Let_def split: sum.split option.split)
  then show "snd (snd (run_command ex (quiet now) url cmd d)) = d" if "read_only cmd"
    using that by (simp add: run_command_def split: sum.split)
qed (simp add: run_command_def connect_def)

definition sample_surroundings :: "nat surroundings" where
  "sample_surroundings =
     \<lparr>ex_connect = (\<lambda>_ _. Inr ()), ex_migrate = (\<lambda>d. (Inr (), d)), ex_collation = length, ex_format = (\<lambda>_. ''then'')\<rparr>"

theorem commands_only_issue_statements_witness:
  "reachable_db (snd (snd (run_command sample_surroundings (quiet 20) (Some ''postgres://'') (JobsCommand (RetryJobs [1] None)) worked_db)))
   \<and> snd (snd (run_command sample_surroundings (quiet 20) (Some ''postgres://'') (QueueCommand None) worked_db)) = worked_db
   \<and> run_command sample_surroundings (quiet 20) None Migrate worked_db
       = (Inl (Message ''set DATABASE_URL or pass --database-url''), [], worked_db)"
proof -
  have "\<forall>x. snd (ex_migrate sample_surroundings x) = x" by (simp add: sample_surroundings_def)
  note ok = commands_only_issue_statements [OF worked_db_reachable orderly_quiet this]
  show ?thesis
  proof (intro conjI)
    show "reachable_db (snd (snd (run_command sample_surroundings (quiet 20) (Some ''postgres://'') (JobsCommand (RetryJobs [1] None)) worked_db)))"
      using ok by blast
    show "snd (snd (run_command sample_surroundings (quiet 20) (Some ''postgres://'') (QueueCommand None) worked_db)) = worked_db"
      using ok [where cmd = "QueueCommand None"] by simp
    show "run_command sample_surroundings (quiet 20) None Migrate worked_db
        = (Inl (Message ''set DATABASE_URL or pass --database-url''), [], worked_db)"
      using ok [where url = None] by blast
  qed
qed

section \<open>The configuration of a started worker\<close>

text \<open>
  The command line and the library agree on the defaults. On a machine with p cores,
  gylo worker with nothing but an application starts with the library's default configuration for that
  application, run by the interpreter beside the executable, on a pool of three connections for each
  child and four more; up to 1431655763 children that number does not wrap around.
\<close>

theorem worker_command_defaults:
  assumes "app \<noteq> []" "0 < p" "p \<le> 1431655763" "dial u (of_nat (3 * p + 4)) = Inr ()"
  shows "start_worker dial (Some p) sibling (Some u) (default_args app) =
      Inr (of_nat (3 * p + 4), (default_config (Some p))\<lparr>cfg_app := app, cfg_python := sibling\<rparr>)
    \<and> unat (of_nat (3 * p + 4) :: u32) = 3 * p + 4"
proof
  show "unat (of_nat (3 * p + 4) :: u32) = 3 * p + 4"
    unfolding unat_of_nat using assms(3) by (intro mod_less) simp
  have cfg: "worker_config (Some p) sibling (default_args app) = (default_config (Some p))\<lparr>cfg_app := app, cfg_python := sibling\<rparr>"
    by (simp add: worker_config_def default_args_def default_config_def)
  have "startup ((default_config (Some p))\<lparr>cfg_app := app, cfg_python := sibling\<rparr>) = Inr ()"
    using assms(1,2) by (simp add: startup_def validate_def default_config_def)
  moreover have "pool_size ((default_config (Some p))\<lparr>cfg_app := app, cfg_python := sibling\<rparr>) (default_args app) = of_nat (3 * p + 4)"
    by (simp add: pool_size_def default_args_def default_config_def algebra_simps)
  ultimately show "start_worker dial (Some p) sibling (Some u) (default_args app) =
      Inr (of_nat (3 * p + 4), (default_config (Some p))\<lparr>cfg_app := app, cfg_python := sibling\<rparr>)"
    using assms(4) by (simp add: start_worker_def cfg connect_def del: of_nat_add of_nat_mult)
qed

theorem worker_command_defaults_witness:
  "start_worker (\<lambda>_ n. if n = 28 then Inr () else Inl (Database ConnectionLost)) (Some 8) ''python3'' (Some ''postgres://'')
     (default_args ''app:app'') = Inr (28, (default_config (Some 8))\<lparr>cfg_app := ''app:app'', cfg_python := ''python3''\<rparr>)"
  using worker_command_defaults [of "''app:app''" 8 "\<lambda>_ n. if n = 28 then Inr () else Inl (Database ConnectionLost)" "''postgres://''" "''python3''"]
  by simp

end
