(* ===== verification/Chaos.thy ===== *)
theory Chaos
  imports Leasing Text "HOL-Library.AList"
begin

text \<open>
  The chaos harness (\<open>crates/gylo-chaos/src/main.rs\<close>, \<open>crates/gylo-chaos/app.py\<close>): what a scenario
  makes of the samples it takes, how the ledger of executions is read, and the verdict. Processes,
  containers and the clock are the system's: a polling loop is given the readings it takes
  before its deadline, a kill whether it succeeded.
\<close>

section \<open>The ledger\<close>

text \<open>Each execution of the task \<open>record\<close> appends a line.\<close>

definition record_line :: "nat \<Rightarrow> string" where
  "record_line marker = decimal marker @ [newline]"

definition ledger_of :: "nat list \<Rightarrow> string" where
  "ledger_of runs = concat (map record_line runs)"

definition bump :: "i64 \<Rightarrow> (i64 \<times> nat) list \<Rightarrow> (i64 \<times> nat) list" where
  "bump m counts = AList.update m ((case map_of counts m of None \<Rightarrow> 0 | Some n \<Rightarrow> n) + 1) counts"

fun count_line :: "string \<Rightarrow> (i64 \<times> nat) list \<Rightarrow> (i64 \<times> nat) list" where
  "count_line line counts = (case parse_i64 (trim line) of None \<Rightarrow> counts | Some m \<Rightarrow> bump m counts)"

text \<open>\<open>contents\<close> is None when the file cannot be read.\<close>

definition ledger_counts :: "string option \<Rightarrow> (i64 \<times> nat) list" where
  "ledger_counts contents = fold count_line (str_lines (case contents of None \<Rightarrow> [] | Some s \<Rightarrow> s)) []"

section \<open>Starting over\<close>

text \<open>
  Truncating the table of jobs empties those that refer to it and leaves the sequence alone; then
  one job for each marker, \<open>pack m\<close> being its payload. None is a panic.
\<close>

fun enqueue_markers :: "(nat \<Rightarrow> bytes) \<Rightarrow> (nat \<Rightarrow> int) \<Rightarrow> nat list \<Rightarrow> db \<Rightarrow> db option" where
  "enqueue_markers pack clk [] d = Some d"
| "enqueue_markers pack clk (m # ms) d =
     (case enqueue (clk m) (new_job_for ''record'' (pack m)) d of
        (Inl e, _) \<Rightarrow> None
      | (Inr _, d1) \<Rightarrow> enqueue_markers pack clk ms d1)"

definition reset :: "(nat \<Rightarrow> bytes) \<Rightarrow> (nat \<Rightarrow> int) \<Rightarrow> nat \<Rightarrow> db \<Rightarrow> db option" where
  "reset pack clk njobs d = enqueue_markers pack clk [0..<njobs] (d\<lparr>jobs := [], steps := [], edges := []\<rparr>)"

section \<open>Sampling\<close>

text \<open>\<open>reachable\<close> is whether the database answers.\<close>

definition unfinished :: "bool \<Rightarrow> db \<Rightarrow> int" where
  "unfinished reachable d =
     (if reachable then int (count_where (\<lambda>r. state r \<in> {Available, Running} \<and> queue r = ''default'') d) else -1)"

fun wait_until_busy :: "int \<Rightarrow> int list \<Rightarrow> int option" where
  "wait_until_busy njobs [] = None"
| "wait_until_busy njobs (left # samples) =
     (if 0 < left \<and> left < njobs then Some left
      else if left = 0 then None
      else wait_until_busy njobs samples)"

fun settle :: "int list \<Rightarrow> bool" where
  "settle [] = False"
| "settle (n # samples) = (if n = 0 then True else settle samples)"

definition kill_all :: "bool list \<Rightarrow> bool" where
  "kill_all killed = fold (\<lambda>k acc. acc \<or> k) killed False"

fun awaits_respawn :: "nat list list \<Rightarrow> bool" where
  "awaits_respawn [] = False"
| "awaits_respawn (children # samples) = (if children \<noteq> [] then True else awaits_respawn samples)"

section \<open>Scenarios\<close>

record chaos_outcome =
  oc_scenario :: string
  oc_faults :: nat
  oc_outstanding :: "int list"
  oc_settled :: bool
  oc_note :: "string option"

text \<open>A round of killing the children: the samples until the worker is busy, the kills, the children seen after.\<close>

fun child_rounds :: "int \<Rightarrow> (int list \<times> bool list) list \<Rightarrow> nat \<times> int list" where
  "child_rounds njobs [] = (0, [])"
| "child_rounds njobs ((samples, kills) # rounds) =
     (case wait_until_busy njobs samples of
        None \<Rightarrow> (0, [])
      | Some left \<Rightarrow>
          let (faults, outstanding) = child_rounds njobs rounds in
          if kill_all kills then (faults + 1, left # outstanding) else (faults, outstanding))"

definition scenario_child_kill :: "int \<Rightarrow> (int list \<times> bool list) list \<Rightarrow> nat list list \<Rightarrow> int list \<Rightarrow> chaos_outcome" where
  "scenario_child_kill njobs rounds respawn settling =
     (let (faults, outstanding) = child_rounds njobs (take 4 rounds);
          respawned = (case rounds of [] \<Rightarrow> None
                       | (samples, _) # _ \<Rightarrow> map_option (\<lambda>_. awaits_respawn respawn) (wait_until_busy njobs samples))
      in \<lparr>oc_scenario = ''python child kill -9'', oc_faults = faults, oc_outstanding = outstanding,
          oc_settled = settle settling,
          oc_note = (if respawned = Some False
                     then Some ''supervisor did not replace the killed child; recovery came only from lease expiry''
                     else None)\<rparr>)"

fun worker_rounds :: "int \<Rightarrow> int list list \<Rightarrow> nat \<times> int list" where
  "worker_rounds njobs [] = (0, [])"
| "worker_rounds njobs (samples # rounds) =
     (case wait_until_busy njobs samples of
        None \<Rightarrow> (0, [])
      | Some left \<Rightarrow> let (faults, outstanding) = worker_rounds njobs rounds in (faults + 1, left # outstanding))"

definition scenario_worker_kill :: "int \<Rightarrow> int list list \<Rightarrow> int list \<Rightarrow> chaos_outcome" where
  "scenario_worker_kill njobs rounds settling =
     (let (faults, outstanding) = worker_rounds njobs (take 3 rounds)
      in \<lparr>oc_scenario = ''supervisor kill -9'', oc_faults = faults, oc_outstanding = outstanding,
          oc_settled = settle settling, oc_note = None\<rparr>)"

definition scenario_peer_reclaim :: "int \<Rightarrow> int list \<Rightarrow> int list \<Rightarrow> chaos_outcome" where
  "scenario_peer_reclaim njobs samples settling =
     (let (faults, outstanding) = (case wait_until_busy njobs samples of None \<Rightarrow> (0, []) | Some left \<Rightarrow> (1, [left]))
      in \<lparr>oc_scenario = ''peer reclaim'', oc_faults = faults, oc_outstanding = outstanding,
          oc_settled = settle settling, oc_note = None\<rparr>)"

definition scenario_postgres_restart :: "int \<Rightarrow> int list \<Rightarrow> bool \<Rightarrow> int list \<Rightarrow> chaos_outcome" where
  "scenario_postgres_restart njobs samples restarted settling =
     (let (faults, outstanding) =
            (case wait_until_busy njobs samples of None \<Rightarrow> (0, []) | Some left \<Rightarrow> if restarted then (1, [left]) else (0, []))
      in \<lparr>oc_scenario = ''postgres restart'', oc_faults = faults, oc_outstanding = outstanding,
          oc_settled = settle settling, oc_note = None\<rparr>)"

section \<open>The verdict\<close>

datatype verdict = Pass | Fail | Inconclusive

text \<open>\<open>lost\<close> is computed in the machine's words: a ledger with more markers than jobs wraps around.\<close>

definition report :: "nat \<Rightarrow> string option \<Rightarrow> chaos_outcome \<Rightarrow> verdict" where
  "report njobs contents oc =
     (let counts = ledger_counts contents;
          executed = length counts;
          lost = (of_nat njobs - of_nat executed :: 64 word);
          interrupted = (if oc_outstanding oc = [] then 0 else Max (set (oc_outstanding oc)))
      in if \<not> oc_settled oc \<or> 0 < lost then Fail
         else if oc_faults oc = 0 \<or> interrupted = 0 then Inconclusive
         else Pass)"

definition wanted :: "string option \<Rightarrow> string \<Rightarrow> bool" where
  "wanted only name = (case only of None \<Rightarrow> True | Some f \<Rightarrow> f = name)"

text \<open>The exit code, from what each scenario would report if it ran.\<close>

definition harness_exit :: "string option \<Rightarrow> verdict \<Rightarrow> verdict \<Rightarrow> verdict \<Rightarrow> verdict \<Rightarrow> nat" where
  "harness_exit only child worker peer postgres =
     (let verdicts = map snd (filter (\<lambda>(name, _). wanted only name)
            [(''child'', child), (''worker'', worker), (''peer'', peer), (''postgres'', postgres)])
      in if list_ex (\<lambda>v. v \<noteq> Pass) verdicts then 1 else 0)"

section \<open>What a verdict means\<close>

lemma bump_keys: "fst ` set (bump m counts) = insert m (fst ` set counts)" "distinct (map fst counts) \<Longrightarrow> distinct (map fst (bump m counts))"
  by (simp_all add: bump_def dom_update [symmetric] dom_map_of_conv_image_fst [symmetric] update_conv' distinct_update)

lemma fold_bump:
  "distinct (map fst counts) \<Longrightarrow> distinct (map fst (fold bump ms counts)) \<and> fst ` set (fold bump ms counts) = fst ` set counts \<union> set ms"
  by (induction ms arbitrary: counts) (simp_all add: bump_keys)

lemma ledger_counts_runs:
  assumes "\<forall>m \<in> set runs. m < 2 ^ 63"
  shows "ledger_counts (Some (ledger_of runs)) = fold bump (map of_nat runs) []"
proof -
  have "fold count_line (map decimal ms) counts = fold bump (map of_nat ms) counts" if "\<forall>m \<in> set ms. m < 2 ^ 63" for ms counts
    using that by (induction ms arbitrary: counts) (simp_all add: trim_decimal parse_decimal)
  with assms show ?thesis
    by (simp add: ledger_counts_def ledger_of_def record_line_def [abs_def] str_lines_decimals)
qed

text \<open>As many markers are counted as different ones were run.\<close>

lemma small_word: "n < 2 ^ 63 \<Longrightarrow> take_bit 64 n = (n :: nat)"
  by (rule take_bit_nat_eq_self) simp

lemma executed_count:
  assumes "\<forall>m \<in> set runs. m < 2 ^ 63"
  shows "length (ledger_counts (Some (ledger_of runs))) = card (set runs)"
proof -
  let ?counts = "fold bump (map of_nat runs) []"
  have "distinct (map fst ?counts)" "fst ` set ?counts = of_nat ` set runs" using fold_bump [of "[]" "map of_nat runs"] by auto
  then have "length ?counts = card (of_nat ` set runs :: i64 set)" by (metis distinct_card length_map set_map)
  also have "\<dots> = card (set runs)"
  proof (rule card_image, rule inj_onI)
    fix x y assume "x \<in> set runs" "y \<in> set runs" "(of_nat x :: i64) = of_nat y"
    then show "x = y" using small_word [of x] small_word [of y] assms by (simp add: word_of_nat_eq_iff)
  qed
  finally show ?thesis using ledger_counts_runs [OF assms] by simp
qed

lemma wait_until_busy_between: "wait_until_busy n samples = Some left \<Longrightarrow> 0 < left \<and> left < n"
  by (induction n samples rule: wait_until_busy.induct) (auto split: if_splits)

lemma child_rounds_faults: "child_rounds n rounds = (f, ls) \<Longrightarrow> f = length ls \<and> (\<forall>l \<in> set ls. 0 < l \<and> l < n)"
  by (induction n rounds arbitrary: f ls rule: child_rounds.induct)
    (auto split: option.splits prod.splits if_splits dest: wait_until_busy_between)

lemma worker_rounds_faults: "worker_rounds n rounds = (f, ls) \<Longrightarrow> f = length ls \<and> (\<forall>l \<in> set ls. 0 < l \<and> l < n)"
  by (induction n rounds arbitrary: f ls rule: worker_rounds.induct)
    (auto split: option.splits prod.splits if_splits dest: wait_until_busy_between)

text \<open>A scenario starts with every one of its jobs outstanding.\<close>

lemma enqueue_marker:
  assumes "job_seq d < 2 ^ 63"
  obtains d1 r where "enqueue now (new_job_for ''record'' p) d = (Inr (word_of_int (job_seq d)), d1)"
    "jobs d1 = jobs d @ [r]" "job_seq d1 = job_seq d + 1" "state r = Available" "queue r = ''default''"
proof -
  let ?r = "enqueue_row now (new_job_for ''record'' p)"
  have "row_ok ?r" "unique_key ?r = None" "state ?r = Available" "queue ?r = ''default''"
    by (simp_all add: enqueue_row_def default_row_def new_job_for_def row_wf_defs)
  with insert_job_plain [OF assms, of ?r now] show ?thesis
    by (intro that [of "snd (enqueue now (new_job_for ''record'' p) d)" "?r\<lparr>row_id := word_of_int (job_seq d)\<rparr>"])
      (simp_all add: enqueue_def bind_text_def text_ok_def new_job_for_def)
qed

lemma enqueue_markers_outstanding:
  assumes "job_seq d + int (length ms) \<le> 2 ^ 63"
  shows "\<exists>d'. enqueue_markers pack clk ms d = Some d' \<and> unfinished True d' = unfinished True d + int (length ms)"
  using assms
proof (induction ms arbitrary: d)
  case (Cons m ms)
  have "job_seq d < 2 ^ 63" using Cons.prems by simp
  then obtain d1 r where d1: "enqueue (clk m) (new_job_for ''record'' (pack m)) d = (Inr (word_of_int (job_seq d)), d1)"
    "jobs d1 = jobs d @ [r]" "job_seq d1 = job_seq d + 1" "state r = Available" "queue r = ''default''"
    by (rule enqueue_marker)
  have "\<exists>d'. enqueue_markers pack clk ms d1 = Some d' \<and> unfinished True d' = unfinished True d1 + int (length ms)"
    using Cons.prems by (intro Cons.IH) (simp add: d1)
  moreover have "unfinished True d1 = unfinished True d + 1"
    by (simp add: unfinished_def count_where_def d1)
  ultimately show ?case by (auto simp: d1)
qed simp

lemma reset_outstanding:
  assumes "job_seq d + int njobs \<le> 2 ^ 63"
  shows "\<exists>d'. reset pack clk njobs d = Some d' \<and> unfinished True d' = int njobs"
  using enqueue_markers_outstanding [of "d\<lparr>jobs := [], steps := [], edges := []\<rparr>" "[0..<njobs]" pack clk] assms
  by (simp add: reset_def unfinished_def count_where_def)

inductive scenario_run :: "int \<Rightarrow> chaos_outcome \<Rightarrow> bool" for n where
  run_child: "scenario_run n (scenario_child_kill n rounds respawn settling)"
| run_worker: "scenario_run n (scenario_worker_kill n wrounds settling)"
| run_peer: "scenario_run n (scenario_peer_reclaim n samples settling)"
| run_postgres: "scenario_run n (scenario_postgres_restart n samples restarted settling)"

lemma scenario_faults:
  "scenario_run n oc \<Longrightarrow> oc_faults oc = length (oc_outstanding oc) \<and> (\<forall>l \<in> set (oc_outstanding oc). 0 < l \<and> l < n)"
proof (induction rule: scenario_run.induct)
  case (run_child rounds respawn settling)
  obtain f ls where "child_rounds n (take 4 rounds) = (f, ls)" by fastforce
  with child_rounds_faults [OF this] show ?case by (simp add: scenario_child_kill_def Let_def)
next
  case (run_worker wrounds settling)
  obtain f ls where "worker_rounds n (take 3 wrounds) = (f, ls)" by fastforce
  with worker_rounds_faults [OF this] show ?case by (simp add: scenario_worker_kill_def)
next
  case (run_peer samples settling)
  show ?case
    by (auto simp: scenario_peer_reclaim_def dest: wait_until_busy_between split: option.splits prod.splits)
next
  case (run_postgres samples restarted settling)
  show ?case
    by (auto simp: scenario_postgres_restart_def dest: wait_until_busy_between split: option.splits prod.splits if_splits)
qed

text \<open>
  C37: A verdict of the harness says what it claims. When only jobs of the scenario wrote to the
  ledger, one line for each execution, then whichever scenario ran: it fails exactly when the jobs
  did not settle or some job never ran, and it passes exactly when they settled, every job ran at
  least once, and a fault struck while some but not all of them were outstanding.
\<close>

theorem verdict_is_sound:
  assumes "scenario_run (int njobs) oc" "\<forall>m \<in> set runs. m < njobs" "njobs < 2 ^ 63"
  shows "(report njobs (Some (ledger_of runs)) oc = Fail \<longleftrightarrow> \<not> oc_settled oc \<or> (\<exists>m < njobs. m \<notin> set runs))
    \<and> (report njobs (Some (ledger_of runs)) oc = Pass \<longleftrightarrow> oc_settled oc \<and> set runs = {..<njobs}
        \<and> (\<exists>left \<in> set (oc_outstanding oc). 0 < left \<and> left < int njobs))"
proof -
  have sub: "set runs \<subseteq> {..<njobs}" using assms(2) by auto
  have len: "length (ledger_counts (Some (ledger_of runs))) = card (set runs)"
    by (rule executed_count) (use assms(2,3) in auto)
  have "card (set runs) \<le> njobs" using card_mono [OF _ sub] by simp
  then have lost: "0 < (of_nat njobs - of_nat (card (set runs)) :: 64 word) \<longleftrightarrow> card (set runs) \<noteq> njobs"
    using assms(3) small_word [of njobs] small_word [of "card (set runs)"]
    by (auto simp: word_neq_0_conv [symmetric] word_of_nat_eq_iff)
  have all: "card (set runs) = njobs \<longleftrightarrow> set runs = {..<njobs}"
  proof
    show "card (set runs) = njobs \<Longrightarrow> set runs = {..<njobs}" by (rule card_subset_eq [OF _ sub]) simp_all
  qed simp
  have missing: "set runs \<noteq> {..<njobs} \<longleftrightarrow> (\<exists>m < njobs. m \<notin> set runs)" using sub by auto
  note faults = scenario_faults [OF assms(1)]
  have struck: "oc_faults oc = 0 \<or> (if oc_outstanding oc = [] then 0 else Max (set (oc_outstanding oc))) = 0 \<longleftrightarrow> oc_outstanding oc = []"
  proof (cases "oc_outstanding oc = []")
    case False
    then have "Max (set (oc_outstanding oc)) \<in> set (oc_outstanding oc)" by (intro Max_in) auto
    then have "Max (set (oc_outstanding oc)) \<noteq> 0" using faults by (metis less_irrefl)
    then show ?thesis using faults False by simp
  qed simp
  have "(\<exists>left \<in> set (oc_outstanding oc). 0 < left \<and> left < int njobs) \<longleftrightarrow> oc_outstanding oc \<noteq> []"
    using faults by (cases "oc_outstanding oc") auto
  then show ?thesis
    unfolding report_def Let_def len lost all struck using missing by auto
qed

text \<open>Three jobs, the second run twice because a child was killed with two of them outstanding.\<close>

theorem verdict_is_sound_witness:
  "report 3 (Some (ledger_of [1, 0, 1, 2])) (scenario_child_kill 3 [([3, 2], [True])] [[], [41]] [2, -1, 0]) = Pass"
proof -
  let ?oc = "scenario_child_kill 3 [([3, 2], [True])] [[], [41]] [2, -1, 0]"
  have "scenario_run (int 3) ?oc" using run_child [of 3] by simp
  moreover have "\<forall>m \<in> set [1, 0, 1, 2 :: nat]. m < 3" "(3 :: nat) < 2 ^ 63" by simp_all
  ultimately have "report 3 (Some (ledger_of [1, 0, 1, 2])) ?oc = Pass \<longleftrightarrow> oc_settled ?oc \<and> set [1, 0, 1, 2] = {..<3 :: nat}
      \<and> (\<exists>left \<in> set (oc_outstanding ?oc). 0 < left \<and> left < int 3)"
    using verdict_is_sound by blast
  moreover have "oc_settled ?oc" "oc_outstanding ?oc = [2]" by code_simp+
  moreover have "set [1, 0, 1, 2] = {..<3 :: nat}" by auto
  ultimately show ?thesis by simp
qed

text \<open>
  With no filter the exit code is that of the four verdicts; a filter that names no scenario runs
  none and exits as if all had passed.
\<close>

theorem unknown_scenario_exits_cleanly:
  "harness_exit None c w p g = 0 \<longleftrightarrow> (c = Pass \<and> w = Pass \<and> p = Pass \<and> g = Pass)"
  "f \<notin> {''child'', ''worker'', ''peer'', ''postgres''} \<Longrightarrow> harness_exit (Some f) c w p g = 0"
  by (auto simp: harness_exit_def wanted_def)

end
