(* ===== verification/Child.thy ===== *)
theory Child
  imports Protocol
begin

text \<open>
  The child's side of the wire (\<open>python/gylo/_protocol.py\<close>): what it encodes and how it decodes the
  reads of its connection. The supervisor's codec and the child's are two programs; the theorems
  are that each reads what the other writes, and what becomes of an error too long for a frame.
  msgspec is an argument.
\<close>

section \<open>Encoding\<close>

text \<open>What the child uses of msgspec: packing, and unpacking, where None is an exception.\<close>

record msgspec =
  ms_entries :: "cron_registration list \<Rightarrow> bytes"
  ms_record :: "i64 \<times> string \<times> bytes \<Rightarrow> bytes"
  ms_steps :: "bytes \<Rightarrow> (i64 \<times> (string \<times> bytes) list) option"
  ms_stored :: "bytes \<Rightarrow> (i64 \<times> string) option"

text \<open>\<open>struct\<close> refuses a length that does not fit its 32 bits.\<close>

definition pack_length :: "nat \<Rightarrow> bytes option" where
  "pack_length n = (if n < 2 ^ 32 then Some (le_bytes HEADER_BYTES n) else None)"

definition encode_register :: "msgspec \<Rightarrow> cron_registration list \<Rightarrow> bytes option" where
  "encode_register ps entries =
     (let body = KIND_REGISTER # ms_entries ps entries in map_option (\<lambda>l. l @ body) (pack_length (length body)))"

definition encode_record :: "msgspec \<Rightarrow> i64 \<Rightarrow> string \<Rightarrow> bytes \<Rightarrow> bytes option" where
  "encode_record ps i name v =
     (let body = KIND_RECORD # ms_record ps (i, name, v) in map_option (\<lambda>l. l @ body) (pack_length (length body)))"

definition encode_success :: "i64 \<Rightarrow> bytes \<Rightarrow> bytes option" where
  "encode_success i v =
     map_option (\<lambda>l. l @ [KIND_COMPLETE] @ i64_to_le i @ [OUTCOME_SUCCESS] @ v) (pack_length (10 + length v))"

definition MAX_ERROR_BYTES :: nat where
  "MAX_ERROR_BYTES = 64 * 1024"

definition trim_error :: "bytes \<Rightarrow> bytes" where
  "trim_error rendered =
     (if MAX_ERROR_BYTES < length rendered
      then take MAX_ERROR_BYTES rendered @ as_bytes (CHR 0x0A # ''... truncated'') else rendered)"

definition encode_failure :: "i64 \<Rightarrow> string \<Rightarrow> bool \<Rightarrow> bytes option" where
  "encode_failure i error retry =
     (let rendered = trim_error (as_bytes error) in
      map_option (\<lambda>l. l @ [KIND_COMPLETE] @ i64_to_le i @ [if retry then OUTCOME_RETRY else OUTCOME_TERMINAL] @ rendered)
        (pack_length (10 + length rendered)))"

definition payload_limit :: "string \<Rightarrow> int" where
  "payload_limit name = int MAX_FRAME_BYTES - 15 - int (length name)"

section \<open>Decoding\<close>

datatype py_error = PyTooLarge nat | PyKind byte | PyTruncated | PyIndex | PyUnpack | PyUtf8

text \<open>A dispatch whose body is at \<open>body\<close> and ends at \<open>fin\<close>.\<close>

definition py_dispatch :: "bytes \<Rightarrow> nat \<Rightarrow> nat \<Rightarrow> (py_error, message) result" where
  "py_dispatch b body fin =
     (if fin - body < 15 then Inl PyTruncated
      else
        let i = i64_from_le (take 8 (drop (body + 1) b));
            attempt = i16_from_le (take 2 (drop (body + 9) b));
            max_attempts = i16_from_le (take 2 (drop (body + 11) b));
            name_len = le_value (take 2 (drop (body + 13) b));
            name_at = body + 15;
            payload_at = name_at + name_len
        in if fin < payload_at then Inl PyTruncated
           else case from_utf8 (take (payload_at - name_at) (drop name_at b)) of
                  None \<Rightarrow> Inl PyUtf8
                | Some name \<Rightarrow> Inr (Dispatch i attempt max_attempts name (take (fin - payload_at) (drop payload_at b))))"

text \<open>One turn of the loop of \<open>drain\<close> at position \<open>p\<close>: more bytes are needed, or a message and where it ends.\<close>

definition py_take :: "msgspec \<Rightarrow> bytes \<Rightarrow> nat \<Rightarrow> (py_error, (message \<times> nat) option) result" where
  "py_take ps b p =
     (if length b - p < HEADER_BYTES then Inr None
      else
        let body_len = le_value (take HEADER_BYTES (drop p b)) in
        if MAX_FRAME_BYTES < body_len then Inl (PyTooLarge body_len)
        else if length b - p - HEADER_BYTES < body_len then Inr None
        else
          let body = p + HEADER_BYTES; fin = body + body_len in
          if length b \<le> body then Inl PyIndex
          else
            let kind = b ! body; packed = take (fin - (body + 1)) (drop (body + 1) b) in
            if kind = KIND_STEPS then
              (case ms_steps ps packed of None \<Rightarrow> Inl PyUnpack | Some (i, found) \<Rightarrow> Inr (Some (Steps i found, fin)))
            else if kind = KIND_STORED then
              (case ms_stored ps packed of None \<Rightarrow> Inl PyUnpack | Some (i, name) \<Rightarrow> Inr (Some (Stored i name, fin)))
            else if kind \<noteq> KIND_DISPATCH then Inl (PyKind kind)
            else map_sum id (\<lambda>m. Some (m, fin)) (py_dispatch b body fin))"

lemma py_take_end: "py_take ps b p = Inr (Some (m, q)) \<Longrightarrow> p < q \<and> q \<le> length b"
  by (auto simp: py_take_def Let_def map_sum_def split: if_splits option.splits prod.splits sum.splits)

function py_drain_from :: "msgspec \<Rightarrow> bytes \<Rightarrow> nat \<Rightarrow> (py_error, message list \<times> nat) result" where
  "py_drain_from ps b p =
     (case py_take ps b p of
        Inl e \<Rightarrow> Inl e
      | Inr None \<Rightarrow> Inr ([], p)
      | Inr (Some (m, q)) \<Rightarrow> map_sum id (\<lambda>(ms, q'). (m # ms, q')) (py_drain_from ps b q))"
  by pat_completeness auto

termination py_drain_from
  by (relation "measure (\<lambda>(ps, b, p). length b - p)") (auto dest: py_take_end)

declare py_drain_from.simps [simp del]

text \<open>What was read is cut off only when the loop ends without an exception.\<close>

definition py_drain :: "msgspec \<Rightarrow> bytes \<Rightarrow> (py_error, message list) result \<times> bytes" where
  "py_drain ps b =
     (case py_drain_from ps b 0 of
        Inl e \<Rightarrow> (Inl e, b)
      | Inr (ms, p) \<Rightarrow> (Inr ms, drop p b))"

text \<open>The reads of a connection, drained one after another; an exception ends the child.\<close>

fun py_feed :: "msgspec \<Rightarrow> bytes \<Rightarrow> bytes list \<Rightarrow> (py_error, message list) result \<times> bytes" where
  "py_feed ps b [] = (Inr [], b)"
| "py_feed ps b (chunk # chunks) =
     (case py_drain ps (b @ chunk) of
        (Inl e, b1) \<Rightarrow> (Inl e, b1)
      | (Inr ms, b1) \<Rightarrow> (let (r, b2) = py_feed ps b1 chunks in (map_sum id (\<lambda>ms'. ms @ ms') r, b2)))"

section \<open>The child reads what the supervisor writes\<close>

definition py_peek :: "msgspec \<Rightarrow> bytes \<Rightarrow> (py_error, (message \<times> bytes) option) result" where
  "py_peek ps b = map_sum id (map_option (\<lambda>(m, q). (m, drop q b))) (py_take ps b 0)"

lemma py_dispatch_shift: "py_dispatch b (p + body) (p + fin) = py_dispatch (drop p b) body fin"
proof -
  have "drop (p + n) b = drop n (drop p b)" "drop (Suc (p + n)) b = drop (Suc n) (drop p b)" for n
    by (simp_all add: add.commute)
  then show ?thesis by (simp add: py_dispatch_def Let_def add.assoc del: drop_drop split: option.split)
qed

lemma py_take_shift:
  assumes "p \<le> length b"
  shows "py_take ps b p = map_sum id (map_option (\<lambda>(m, q). (m, p + q))) (py_take ps (drop p b) 0)"
proof -
  have "length b \<le> p + HEADER_BYTES \<longleftrightarrow> length b - p \<le> HEADER_BYTES" using assms by linarith
  moreover have "drop p b ! HEADER_BYTES = b ! (p + HEADER_BYTES)" if "\<not> length b \<le> p + HEADER_BYTES"
    using that by (simp add: nth_drop)
  moreover have "py_dispatch b (p + HEADER_BYTES) (p + (HEADER_BYTES + n)) = py_dispatch (drop p b) HEADER_BYTES (HEADER_BYTES + n)" for n
    by (rule py_dispatch_shift)
  ultimately show ?thesis
    by (auto simp: py_take_def Let_def add.assoc map_sum_def split: option.splits sum.splits)
qed

lemma py_drain_pulls:
  assumes "pulls (py_peek ps) bs ms rest" "drop p b = bs" "p \<le> length b"
  shows "\<exists>q. py_drain_from ps b p = Inr (ms, q) \<and> drop q b = rest"
  using assms
proof (induction arbitrary: p rule: pulls.induct)
  case (pulls_wait bs)
  then have "py_take ps (drop p b) 0 = Inr None" by (auto simp: py_peek_def map_sum_def split: sum.splits)
  then have "py_take ps b p = Inr None" by (simp add: py_take_shift [OF pulls_wait.prems(2)])
  then show ?case using pulls_wait.prems by (simp add: py_drain_from.simps [of ps b p])
next
  case (pulls_take bs m r ms rest)
  then obtain q where q: "py_take ps (drop p b) 0 = Inr (Some (m, q))" "r = drop q bs"
    by (auto simp: py_peek_def map_sum_def split: sum.splits)
  then have "q \<le> length b - p" "py_take ps b p = Inr (Some (m, p + q))"
    using py_take_end [of ps "drop p b" 0 m q] by (simp_all add: py_take_shift [OF pulls_take.prems(2)])
  moreover from this have "\<exists>q'. py_drain_from ps b (p + q) = Inr (ms, q') \<and> drop q' b = rest"
    using q(2) pulls_take.prems by (intro pulls_take.IH) (auto simp: add.commute)
  ultimately show ?case by (auto simp: py_drain_from.simps [of ps b p])
qed

text \<open>
  The two MessagePack libraries agree on the bodies that cross the socket: each unpacks what the other
  packs. The child is only ever sent dispatches, steps and confirmations.
\<close>

definition packs_agree :: "msgpack \<Rightarrow> msgspec \<Rightarrow> bool" where
  "packs_agree mp ps \<longleftrightarrow>
     (\<forall>i ss b. to_vec_steps mp (i, ss) = Inr b \<longrightarrow> ms_steps ps b = Some (i, map (\<lambda>s. (ws_name s, ws_result s)) ss))
   \<and> (\<forall>i n b. to_vec_stored mp (i, n) = Inr b \<longrightarrow> ms_stored ps b = Some (i, n))
   \<and> (\<forall>es. from_slice_entries mp (ms_entries ps es) = Inr es)
   \<and> (\<forall>i n v. from_slice_record mp (ms_record ps (i, n, v)) = Inr \<lparr>wr_id = i, wr_name = n, wr_result = v\<rparr>)"

fun for_child :: "message \<Rightarrow> bool" where
  "for_child (Dispatch _ _ _ _ _) = True"
| "for_child (Steps _ _) = True"
| "for_child (Stored _ _) = True"
| "for_child _ = False"

definition to_child :: "msgpack \<Rightarrow> msgspec \<Rightarrow> message \<Rightarrow> bool" where
  "to_child mp ps m \<longleftrightarrow> sendable mp m \<and> packs_agree mp ps \<and> for_child m"

text \<open>On the body of a frame the child's reading of a dispatch is the supervisor's.\<close>

lemma py_dispatch_body:
  assumes "drop body b = k # r @ rest" "fin = body + length (k # r)"
  shows "py_dispatch b body fin =
    (case decode_dispatch r of Inr m \<Rightarrow> Inr m | Inl Truncated \<Rightarrow> Inl PyTruncated | Inl _ \<Rightarrow> Inl PyUtf8)"
proof (cases "length r < 14")
  case False
  have at: "drop (body + Suc n) b = drop n (r @ rest)" for n
    using assms(1) by (metis add.commute drop_Suc_Cons drop_drop)
  have fields: "take 8 (drop (Suc body) b) = take 8 r" "take 2 (drop (body + 9) b) = take 2 (drop 8 r)"
    "take 2 (drop (body + 11) b) = take 2 (drop 10 r)" "take 2 (drop (body + 13) b) = take 2 (drop 12 r)"
    using at [of 0] at [of 8] at [of 10] at [of 12] False by simp_all
  let ?n = "le_value (take 2 (drop 12 r))"
  have name: "fin < body + 15 + ?n \<longleftrightarrow> length r - 14 < ?n" using False assms(2) by auto
  have "take ?n (drop (body + 15) b) = take ?n (drop 14 r)" "take (fin - (body + 15 + ?n)) (drop (body + 15 + ?n) b) = drop ?n (drop 14 r)"
    if "\<not> length r - 14 < ?n"
    using that at [of 14] at [of "14 + ?n"] False assms(2) by (simp_all add: add.assoc add.commute [of _ 14])
  then show ?thesis
    using False assms(2) by (auto simp: py_dispatch_def decode_dispatch_def Let_def fields name split: option.splits)
qed (use assms in \<open>simp add: py_dispatch_def decode_dispatch_def\<close>)

lemma py_take_framed:
  assumes "length (k # r) \<le> MAX_FRAME_BYTES"
  shows "py_take ps (framed (k # r) @ rest) 0 =
     (if k = KIND_STEPS then
        (case ms_steps ps r of None \<Rightarrow> Inl PyUnpack | Some (i, found) \<Rightarrow> Inr (Some (Steps i found, HEADER_BYTES + length (k # r))))
      else if k = KIND_STORED then
        (case ms_stored ps r of None \<Rightarrow> Inl PyUnpack | Some (i, name) \<Rightarrow> Inr (Some (Stored i name, HEADER_BYTES + length (k # r))))
      else if k \<noteq> KIND_DISPATCH then Inl (PyKind k)
      else map_sum id (\<lambda>m. Some (m, HEADER_BYTES + length (k # r)))
        (case decode_dispatch r of Inr m \<Rightarrow> Inr m | Inl Truncated \<Rightarrow> Inl PyTruncated | Inl _ \<Rightarrow> Inl PyUtf8))"
proof -
  let ?b = "framed (k # r) @ rest"
  have len: "le_value (take HEADER_BYTES ?b) = length (k # r)"
    using assms by (simp add: framed_def le_value_le_bytes MAX_FRAME_BYTES_def)
  have body: "drop HEADER_BYTES ?b = k # r @ rest" by (simp add: framed_def)
  have kind: "?b ! HEADER_BYTES = k" by (simp add: framed_def nth_append)
  have packed: "take (length r) (drop (HEADER_BYTES + 1) ?b) = r" by (simp add: framed_def)
  note dispatch = py_dispatch_body [OF body refl]
  show ?thesis
    using assms len kind packed dispatch by (auto simp: py_take_def Let_def split: option.split)
qed

interpretation child_wire: framing "py_peek ps" "frame_of mp" "to_child mp ps" for mp ps
proof unfold_locales
  fix m rest p
  show "py_peek ps (frame_of mp m @ rest) = Inr (Some (m, rest))" if h: "to_child mp ps m"
  proof -
    obtain b where b: "body_bytes mp m = Inr b" "length b \<le> MAX_FRAME_BYTES" "frame_of mp m = framed b"
      using h encodable_body [of mp m] by (auto simp: to_child_def sendable_def)
    then obtain k r where kr: "b = k # r" using body_bytes_nonempty by (cases b) auto
    have "py_take ps (framed b @ rest) 0 = Inr (Some (m, HEADER_BYTES + length b))"
      using h b(1,2) unfolding kr py_take_framed [OF b(2) [unfolded kr]]
      by (cases m) (auto simp: to_child_def sendable_def packs_agree_def pack_def map_sum_def comp_def prod.case_eq_if kr
          decode_dispatch_body split: sum.splits if_splits)
    then show ?thesis by (simp add: py_peek_def b(3))
  qed
  show "py_peek ps p = Inr None" if h: "to_child mp ps m" "strict_prefix p (frame_of mp m)"
  proof -
    obtain b where b: "length b \<le> MAX_FRAME_BYTES" "frame_of mp m = framed b"
      using h(1) encodable_body [of mp m] by (auto simp: to_child_def sendable_def)
    have "peek mp p = Inr None" by (rule peek_framed_partial [OF b(1)]) (use h(2) b(2) in simp)
    then show ?thesis
      by (auto simp: peek_def py_peek_def py_take_def Let_def split: if_splits sum.splits)
  qed
qed (simp add: py_peek_def py_take_def)

lemma py_feed_stream:
  assumes "\<forall>m \<in> set ms. to_child mp ps m" "b @ concat chunks = concat (map (frame_of mp) ms)" "py_peek ps b = Inr None"
  shows "py_feed ps b chunks = (Inr ms, [])"
  using assms
proof (induction chunks arbitrary: b ms)
  case Nil
  then show ?case by (cases ms) (auto simp: child_wire.peek_frame)
next
  case (Cons chunk chunks)
  have "(b @ chunk) @ concat chunks = concat (map (frame_of mp) ms)" using Cons.prems(2) by simp
  from child_wire.pulls_prefix [OF Cons.prems(1) this] obtain got todo rest where
    ms: "ms = got @ todo" and pulls: "pulls (py_peek ps) (b @ chunk) got rest"
    and rest: "rest @ concat chunks = concat (map (frame_of mp) todo)" by blast
  from py_drain_pulls [OF pulls, of 0 "b @ chunk"] have drained: "py_drain ps (b @ chunk) = (Inr got, rest)"
    by (auto simp: py_drain_def)
  have "py_peek ps rest = Inr None" using pulls by (induction rule: pulls.induct) auto
  with Cons.IH [of todo rest] rest Cons.prems(1) have "py_feed ps rest chunks = (Inr todo, [])" by (simp add: ms)
  then show ?case by (simp add: drained ms)
qed

section \<open>The supervisor reads what the child writes\<close>

lemma encode_success_frame:
  assumes "10 + length v \<le> MAX_FRAME_BYTES"
  shows "encode_success i v = Some (frame_of mp (Complete i (Success v)))"
  using assms by (simp add: encode_success_def pack_length_def frame_of_def encode_reference framed_def MAX_FRAME_BYTES_def)

text \<open>A failure is always written, and is the supervisor's frame of the trimmed error when that is text.\<close>

lemma trim_error_length: "length (trim_error bs) \<le> MAX_ERROR_BYTES + 14"
  by (simp add: trim_error_def)

lemma encode_failure_framed:
  "encode_failure i e retry = Some (framed ([KIND_COMPLETE] @ i64_to_le i @ [if retry then OUTCOME_RETRY else OUTCOME_TERMINAL] @ trim_error (as_bytes e)))"
  using trim_error_length [of "as_bytes e"]
  by (simp add: encode_failure_def pack_length_def framed_def MAX_ERROR_BYTES_def Let_def)

lemma encode_failure_frame:
  assumes "from_utf8 (trim_error (as_bytes e)) = Some e'"
  shows "encode_failure i e retry = Some (frame_of mp (Complete i (Failure e' retry)))"
proof -
  have "as_bytes e' = trim_error (as_bytes e)" using from_utf8_wf [OF assms] by simp
  then show ?thesis
    unfolding encode_failure_framed using trim_error_length [of "as_bytes e"]
    by (simp add: frame_of_def encode_reference MAX_FRAME_BYTES_def MAX_ERROR_BYTES_def)
qed

text \<open>Text is text up to every character that stands for itself.\<close>

definition utf8_unit :: "nat list \<Rightarrow> bool" where
  "utf8_unit u \<longleftrightarrow> u \<noteq> [] \<and> (\<forall>c \<in> set (tl u). 0x80 \<le> c) \<and> (\<forall>r. utf8_valid (u @ r) = utf8_valid r)"

lemma utf8_units:
  assumes "utf8_valid (b # bs)"
  obtains u r where "b # bs = u @ r" "utf8_unit u" "utf8_valid r"
proof -
  note v = assms [unfolded utf8_valid.simps(2) [of b bs]]
  consider (one) "b \<le> 0x7F" | (two) "\<not> b \<le> 0x7F" "0xC2 \<le> b \<and> b \<le> 0xDF"
    | (three) "\<not> b \<le> 0x7F" "\<not> (0xC2 \<le> b \<and> b \<le> 0xDF)" "0xE0 \<le> b \<and> b \<le> 0xEF"
    | (four) "\<not> b \<le> 0x7F" "\<not> (0xC2 \<le> b \<and> b \<le> 0xDF)" "\<not> (0xE0 \<le> b \<and> b \<le> 0xEF)" "0xF0 \<le> b \<and> b \<le> 0xF4"
    using v by (simp split: if_splits)
  then show ?thesis
  proof cases
    case one
    with v show ?thesis by (intro that [of "[b]" bs]) (simp_all add: utf8_unit_def)
  next
    case two
    with v obtain c r where "bs = c # r" "cont c \<and> utf8_valid r" by (cases bs) (simp_all del: utf8_valid.simps)
    with two show ?thesis by (intro that [of "[b, c]" r]) (simp_all add: utf8_unit_def cont_def)
  next
    case three
    with v obtain c d r where "bs = c # d # r"
      "cont c \<and> (b = 0xE0 \<longrightarrow> 0xA0 \<le> c) \<and> (b = 0xED \<longrightarrow> c \<le> 0x9F) \<and> cont d \<and> utf8_valid r"
      by (cases bs; cases "tl bs") (simp_all del: utf8_valid.simps)
    with three show ?thesis by (intro that [of "[b, c, d]" r]) (simp_all add: utf8_unit_def cont_def)
  next
    case four
    with v obtain c d e r where "bs = c # d # e # r"
      "cont c \<and> (b = 0xF0 \<longrightarrow> 0x90 \<le> c) \<and> (b = 0xF4 \<longrightarrow> c \<le> 0x8F) \<and> cont d \<and> cont e \<and> utf8_valid r"
      by (cases bs; cases "tl bs"; cases "tl (tl bs)") (simp_all del: utf8_valid.simps)
    with four show ?thesis by (intro that [of "[b, c, d, e]" r]) (simp_all add: utf8_unit_def cont_def)
  qed
qed

lemma utf8_valid_ascii_split:
  assumes "utf8_valid (xs @ a # ys)" "a \<le> 0x7F"
  shows "utf8_valid xs"
  using assms(1)
proof (induction xs rule: length_induct)
  case (1 xs)
  show ?case
  proof (cases xs)
    case (Cons b bs)
    obtain u r where u: "b # (bs @ a # ys) = u @ r" "utf8_unit u" "utf8_valid r"
      using "1.prems" utf8_units [of b "bs @ a # ys"] by (auto simp: Cons)
    then obtain v where v: "u = b # v" by (cases u) (auto simp: utf8_unit_def)
    with u(1) have "bs @ a # ys = v @ r" by simp
    then consider zs where "bs = v @ zs" "r = zs @ a # ys" | zs where "v = bs @ a # zs"
      by (auto simp: append_eq_append_conv2 Cons_eq_append_conv)
    then show ?thesis
    proof cases
      case (1 zs)
      then have "utf8_valid zs" using "1.IH" u(3) Cons by simp
      then show ?thesis using u(2) unfolding Cons 1(1) utf8_unit_def v by (metis append_Cons)
    next
      case (2 zs)
      then show ?thesis using u(2) assms(2) by (simp add: utf8_unit_def v)
    qed
  qed simp
qed

lemma peek_framed_error:
  assumes "length b \<le> MAX_FRAME_BYTES" "decode_body mp b = Inl e"
  shows "peek mp (framed b @ rest) = Inl e"
proof -
  have "le_value (le_bytes HEADER_BYTES (length b)) = length b"
    using assms(1) by (simp add: le_value_le_bytes MAX_FRAME_BYTES_def)
  with assms show ?thesis by (simp add: peek_def framed_def Let_def)
qed

text \<open>An error cut inside a character is not text any more, and the supervisor cannot read the frame.\<close>

lemma truncated_error_unreadable:
  assumes "MAX_ERROR_BYTES < length e" "\<not> utf8_valid (map unat (take MAX_ERROR_BYTES (as_bytes e)))"
    and "encode_failure i e retry = Some frame"
  shows "peek mp (frame @ rest) = Inl (NotUtf8 ''error message'')"
proof -
  let ?body = "[KIND_COMPLETE] @ i64_to_le i @ [if retry then OUTCOME_RETRY else OUTCOME_TERMINAL] @ trim_error (as_bytes e)"
  have frame: "frame = framed ?body" using assms(3) by (simp add: encode_failure_framed)
  have "\<not> utf8_valid (map unat (trim_error (as_bytes e)))"
    using assms(1,2) utf8_valid_ascii_split [of "map unat (take MAX_ERROR_BYTES (as_bytes e))" 10]
    by (auto simp: trim_error_def char_byte_def)
  then have "from_utf8 (trim_error (as_bytes e)) = None" by (simp add: from_utf8_def)
  then have "decode_body mp ?body = Inl (NotUtf8 ''error message'')"
    by (simp add: decode_complete_def nth_append)
  moreover have "length ?body \<le> MAX_FRAME_BYTES"
    using trim_error_length [of "as_bytes e"] by (simp add: MAX_FRAME_BYTES_def MAX_ERROR_BYTES_def)
  ultimately show ?thesis unfolding frame by (intro peek_framed_error)
qed

section \<open>Two codecs, one protocol\<close>

lemma encode_register_read:
  assumes "packs_agree mp ps" "encode_register ps es = Some frame" "1 + length (ms_entries ps es) \<le> MAX_FRAME_BYTES"
  shows "peek mp (frame @ rest) = Inr (Some (Register es, rest))"
proof -
  have "frame = framed (KIND_REGISTER # ms_entries ps es)"
    using assms(2) by (auto simp: encode_register_def pack_length_def Let_def framed_def split: if_splits)
  moreover have "decode_body mp (KIND_REGISTER # ms_entries ps es) = Inr (Register es)"
    using assms(1) by (simp add: packs_agree_def unpack_def)
  ultimately show ?thesis using assms(3) by (auto intro: peek_framed)
qed

lemma encode_record_read:
  assumes "packs_agree mp ps" "encode_record ps i name v = Some frame" "1 + length (ms_record ps (i, name, v)) \<le> MAX_FRAME_BYTES"
  shows "peek mp (frame @ rest) = Inr (Some (Record i name v, rest))"
proof -
  have "frame = framed (KIND_RECORD # ms_record ps (i, name, v))"
    using assms(2) by (auto simp: encode_record_def pack_length_def Let_def framed_def split: if_splits)
  moreover have "decode_body mp (KIND_RECORD # ms_record ps (i, name, v)) = Inr (Record i name v)"
    using assms(1) by (simp add: packs_agree_def unpack_def)
  ultimately show ?thesis using assms(3) by (auto intro: peek_framed)
qed

text \<open>
  C8: The supervisor and the child speak the same protocol. Provided that their MessagePack
  libraries agree, the child decodes what the supervisor encodes, in reads of any size, to exactly
  the accepted messages in order and nothing left over; a success that fits a frame and a failure
  whose error fits its limit are byte for byte the supervisor's own frames; and what it declares
  and records is decoded to that.
\<close>

theorem codecs_agree:
  assumes "msgpack_ok mp" "packs_agree mp ps" "\<forall>m \<in> set ms. wf_message m \<and> for_child m" "concat reads = encode_all mp ms []"
  shows "py_feed ps [] reads = (Inr (filter (encodable mp) ms), [])
    \<and> (10 + length v \<le> MAX_FRAME_BYTES \<longrightarrow> encode_success i v = Some (snd (encode mp (Complete i (Success v)) [])))
    \<and> (wf_string e \<and> length e \<le> MAX_ERROR_BYTES \<longrightarrow> encode_failure i e retry = Some (snd (encode mp (Complete i (Failure e retry)) [])))
    \<and> (encode_register ps es = Some f \<and> length f \<le> MAX_FRAME_BYTES \<longrightarrow>
         fst (next_message mp (Protocol.extend new_decoder f)) = Inr (Some (Register es)))
    \<and> (encode_record ps i name v = Some f \<and> length f \<le> MAX_FRAME_BYTES \<longrightarrow>
         fst (next_message mp (Protocol.extend new_decoder f)) = Inr (Some (Record i name v)))"
proof (intro conjI impI)
  have read: "fst (next_message mp (Protocol.extend new_decoder f)) = Inr (Some m)" if "peek mp (f @ []) = Inr (Some (m, []))" for f m
    using that next_message_peek [of "Protocol.extend new_decoder f" mp] by auto
  have "\<forall>m \<in> set (filter (encodable mp) ms). to_child mp ps m"
    using assms(1-3) by (auto simp: to_child_def sendable_def)
  then show "py_feed ps [] reads = (Inr (filter (encodable mp) ms), [])"
    by (rule py_feed_stream) (use assms(4) in \<open>simp_all add: encode_all_frames child_wire.peek_nothing\<close>)
  show "encode_success i v = Some (snd (encode mp (Complete i (Success v)) []))" if "10 + length v \<le> MAX_FRAME_BYTES"
    using encode_success_frame [OF that] by (simp add: frame_of_def)
  show "encode_failure i e retry = Some (snd (encode mp (Complete i (Failure e retry)) []))" if "wf_string e \<and> length e \<le> MAX_ERROR_BYTES"
    using that encode_failure_frame [of e e] by (simp add: trim_error_def frame_of_def)
  show "fst (next_message mp (Protocol.extend new_decoder f)) = Inr (Some (Register es))"
    if "encode_register ps es = Some f \<and> length f \<le> MAX_FRAME_BYTES"
    using that by (intro read encode_register_read [OF assms(2)])
      (auto simp: encode_register_def pack_length_def Let_def split: if_splits)
  show "fst (next_message mp (Protocol.extend new_decoder f)) = Inr (Some (Record i name v))"
    if "encode_record ps i name v = Some f \<and> length f \<le> MAX_FRAME_BYTES"
    using that by (intro read encode_record_read [OF assms(2)])
      (auto simp: encode_record_def pack_length_def Let_def split: if_splits)
qed

text \<open>The sample format, from the child's side.\<close>

definition unary_spec :: msgspec where
  "unary_spec =
     \<lparr>ms_entries = (\<lambda>es. case to_vec_entries unary_pack es of Inr b \<Rightarrow> b | Inl _ \<Rightarrow> []),
      ms_record = (\<lambda>(i, n, v). case to_vec_record unary_pack \<lparr>wr_id = i, wr_name = n, wr_result = v\<rparr> of Inr b \<Rightarrow> b | Inl _ \<Rightarrow> []),
      ms_steps = (\<lambda>b. case from_slice_steps unary_pack b of
         Inr (i, ss) \<Rightarrow> Some (i, map (\<lambda>s. (ws_name s, ws_result s)) ss) | Inl _ \<Rightarrow> None),
      ms_stored = (\<lambda>b. case from_slice_stored unary_pack b of Inr x \<Rightarrow> Some x | Inl _ \<Rightarrow> None)\<rparr>"

lemma unary_packs_agree: "packs_agree unary_pack unary_spec"
  unfolding packs_agree_def
proof (intro conjI allI impI)
  note ok = unary_pack_ok [unfolded msgpack_ok_def]
  show "ms_steps unary_spec b = Some (i, map (\<lambda>s. (ws_name s, ws_result s)) ss)"
    if "to_vec_steps unary_pack (i, ss) = Inr b" for i ss b
    using ok that by (simp add: unary_spec_def)
  show "ms_stored unary_spec b = Some (i, n)" if "to_vec_stored unary_pack (i, n) = Inr b" for i n b
    using ok that by (simp add: unary_spec_def)
  show "from_slice_entries unary_pack (ms_entries unary_spec es) = Inr es" for es
  proof -
    obtain b where "to_vec_entries unary_pack es = Inr b" by (simp add: unary_pack_def)
    then show ?thesis using ok by (simp add: unary_spec_def)
  qed
  show "from_slice_record unary_pack (ms_record unary_spec (i, n, v)) = Inr \<lparr>wr_id = i, wr_name = n, wr_result = v\<rparr>" for i n v
  proof -
    obtain b where "to_vec_record unary_pack \<lparr>wr_id = i, wr_name = n, wr_result = v\<rparr> = Inr b" by (simp add: unary_pack_def)
    then show ?thesis using ok by (simp add: unary_spec_def)
  qed
qed

theorem codecs_agree_witness:
  "py_feed unary_spec [] [[17, 0], [0, 0, 0, 7, 0, 0, 0, 0, 0, 0, 0, 1, 0, 20, 0, 1, 0], [], [97, 255]]
     = (Inr [Dispatch 7 1 20 ''a'' [255]], [])
   \<and> encode_failure 7 ''a'' True = Some (snd (encode unary_pack (Complete 7 (Failure ''a'' True)) []))"
proof -
  have "encodable unary_pack (Dispatch 7 1 20 ''a'' [255])" by (simp add: encodable_def example_dispatch_frame)
  then show ?thesis
    using codecs_agree [OF unary_pack_ok unary_packs_agree, of "[Dispatch 7 1 20 ''a'' [255]]"
        "[[17, 0], [0, 0, 0, 7, 0, 0, 0, 0, 0, 0, 0, 1, 0, 20, 0, 1, 0], [], [97, 255]]" "[]" 7 "''a''" True "[]" "[]" "[]"]
    by (simp add: wf_string_a example_dispatch_frame MAX_ERROR_BYTES_def)
qed

end
