(* ===== verification/Serving.thy ===== *)
theory Serving
  imports Child "HOL-Library.AList"
begin

text \<open>
  The child process at work (\<open>python/gylo/_worker.py\<close>, \<open>python/gylo/_steps.py\<close> and the retry policy of
  \<open>python/gylo/__init__.py\<close>): running a job and reporting on it, the steps of a durable task and their
  confirmations, and the loop that serves the connection. The application - its tasks, their bodies,
  the codecs of arguments and results, the classes of exceptions - is a parameter.
\<close>

section \<open>Running a job\<close>

text \<open>
  How a body ends: it returns, raises, runs past its deadline, or is cancelled, which no handler of
  the child catches. How the encoder of results ends: with bytes, with one of the two exceptions
  that \<open>_execute\<close> expects, or with another.
\<close>

datatype ('v, 'e) ran = Returned 'v | Raised 'e | TimedOut | CancelledBody

datatype encoding = Encoded bytes | TypeOrValueError | OtherError

text \<open>What a body is told about its job; a durable task also what its earlier attempts completed.\<close>

datatype job_context = NoContext | JobContext i64 i16 i16 | StepContext i64 "string \<rightharpoonup> bytes" i16 i16

fun final :: "job_context \<Rightarrow> bool" where
  "final (JobContext i a n) = (n \<le>s a)"
| "final (StepContext i completed a n) = (n \<le>s a)"
| "final NoContext = False"

record ('a, 'v, 'e) py_task =
  tk_run :: "job_context \<Rightarrow> 'a \<Rightarrow> ('v, 'e) ran"
  tk_retry_on :: "string list"
  tk_no_retry_on :: "string list"
  tk_store_result :: bool
  tk_durable :: bool
  tk_wants_context :: bool

text \<open>\<open>isa e c\<close>: the exception is an instance of the class.\<close>

definition should_retry :: "('e \<Rightarrow> string \<Rightarrow> bool) \<Rightarrow> ('a, 'v, 'e) py_task \<Rightarrow> 'e \<Rightarrow> bool" where
  "should_retry isa t e =
     (if isa e ''NoRetryError'' then False
      else if tk_no_retry_on t \<noteq> [] \<and> list_ex (isa e) (tk_no_retry_on t) then False
      else list_ex (isa e) (tk_retry_on t))"

datatype 'e cause = UnknownTask string | BadPayload bytes | BodyRaised 'e | BadResult

text \<open>
  What the child is given: the registry of the application, the decoder of arguments, the encoder of
  results, the exception of a deadline and the rendering of an exception.
\<close>

record ('a, 'v, 'e) python =
  py_tasks :: "string \<Rightarrow> ('a, 'v, 'e) py_task option"
  py_no_args :: 'a
  py_args :: "bytes \<Rightarrow> 'a option"
  py_result :: "'v \<Rightarrow> encoding"
  py_timeout :: 'e
  py_isa :: "'e \<Rightarrow> string \<Rightarrow> bool"
  py_format_exc :: "'e cause \<Rightarrow> string"

fun execute :: "('a, 'v, 'e) python \<Rightarrow> job_context \<Rightarrow> message \<Rightarrow> (i64 \<times> outcome) option" where
  "execute py ctx (Dispatch i a n name payload) =
     (case py_tasks py name of
        None \<Rightarrow> Some (i, Failure (py_format_exc py (UnknownTask name)) False)
      | Some t \<Rightarrow>
          (case (if payload = [] then Some (py_no_args py) else py_args py payload) of
             None \<Rightarrow> Some (i, Failure (py_format_exc py (BadPayload payload)) False)
           | Some args \<Rightarrow>
               (case tk_run t ctx args of
                  Raised e \<Rightarrow> Some (i, Failure (py_format_exc py (BodyRaised e)) (should_retry (py_isa py) t e))
                | TimedOut \<Rightarrow>
                    Some (i, Failure (py_format_exc py (BodyRaised (py_timeout py))) (should_retry (py_isa py) t (py_timeout py)))
                | CancelledBody \<Rightarrow> None
                | Returned v \<Rightarrow>
                    if tk_store_result t
                    then (case py_result py v of
                            TypeOrValueError \<Rightarrow> Some (i, Failure (py_format_exc py BadResult) False)
                          | OtherError \<Rightarrow> None
                          | Encoded b \<Rightarrow> Some (i, Success b))
                    else Some (i, Success []))))"
| "execute py ctx _ = None"

fun write_report :: "i64 \<times> outcome \<Rightarrow> bytes option" where
  "write_report (i, Success v) = encode_success i v"
| "write_report (i, Failure e retry) = encode_failure i e retry"

section \<open>Confirmations\<close>

text \<open>
  The futures of the child, by number, and the ones that wait for a confirmation, by job and step.
  A future whose waiting task was cancelled is done as well.
\<close>

datatype future = Waiting | Resolved | Lost | CancelledWait

record step_acks =
  ak_futures :: "future list"
  ak_waiting :: "((i64 \<times> string) \<times> nat) list"

definition new_acks :: step_acks where
  "new_acks = \<lparr>ak_futures = [], ak_waiting = []\<rparr>"

definition settle_future :: "future \<Rightarrow> nat \<Rightarrow> future list \<Rightarrow> future list" where
  "settle_future f n fs = (if fs ! n = Waiting then fs[n := f] else fs)"

definition expect :: "i64 \<Rightarrow> string \<Rightarrow> step_acks \<Rightarrow> nat \<times> step_acks" where
  "expect i name a =
     (length (ak_futures a),
      \<lparr>ak_futures = ak_futures a @ [Waiting],
       ak_waiting = AList.update (i, name) (length (ak_futures a)) (ak_waiting a)\<rparr>)"

definition resolve :: "i64 \<Rightarrow> string \<Rightarrow> step_acks \<Rightarrow> step_acks" where
  "resolve i name a =
     (case map_of (ak_waiting a) (i, name) of
        None \<Rightarrow> a
      | Some n \<Rightarrow> \<lparr>ak_futures = settle_future Resolved n (ak_futures a), ak_waiting = AList.delete (i, name) (ak_waiting a)\<rparr>)"

definition abandon_acks :: "step_acks \<Rightarrow> step_acks" where
  "abandon_acks a = \<lparr>ak_futures = fold (settle_future Lost) (map snd (ak_waiting a)) (ak_futures a), ak_waiting = []\<rparr>"

section \<open>Steps of a durable task\<close>

text \<open>
  A step already completed is not run again. One that is run - \<open>None\<close> when the work or the encoding
  of what it returned raises - is recorded and then waits; it counts as completed, and
  returns, only when its future is resolved.
\<close>

datatype step_start = Replayed bytes | StepRaised | Confirming bytes bytes nat

definition step :: "msgspec \<Rightarrow> i64 \<Rightarrow> (string \<rightharpoonup> bytes) \<Rightarrow> string \<Rightarrow> (unit \<Rightarrow> bytes option) \<Rightarrow> step_acks \<Rightarrow> step_start \<times> step_acks" where
  "step ps i completed name work a =
     (case completed name of
        Some b \<Rightarrow> (Replayed b, a)
      | None \<Rightarrow>
          (case work () of
             None \<Rightarrow> (StepRaised, a)
           | Some encoded \<Rightarrow>
               (case encode_record ps i name encoded of
                  None \<Rightarrow> (StepRaised, a)
                | Some frame \<Rightarrow> let (n, a1) = expect i name a in (Confirming frame encoded n, a1))))"

definition step_done :: "string \<Rightarrow> bytes \<Rightarrow> nat \<Rightarrow> step_acks \<Rightarrow> (string \<rightharpoonup> bytes) \<Rightarrow> (string \<rightharpoonup> bytes) option" where
  "step_done name encoded n a completed =
     (if ak_futures a ! n = Resolved then Some (completed(name \<mapsto> encoded)) else None)"

section \<open>Serving\<close>

text \<open>
  What \<open>serve\<close> remembers between messages: the steps to replay, the confirmations waited for, and the
  jobs it started, each with the context it was given.
\<close>

record child =
  ch_replays :: "i64 \<rightharpoonup> (string \<rightharpoonup> bytes)"
  ch_acks :: step_acks
  ch_started :: "(message \<times> job_context) list"

definition new_child :: child where
  "new_child = \<lparr>ch_replays = Map.empty, ch_acks = new_acks, ch_started = []\<rparr>"

fun serve_message :: "('a, 'v, 'e) python \<Rightarrow> message \<Rightarrow> child \<Rightarrow> child" where
  "serve_message py (Steps i found) c = c\<lparr>ch_replays := (ch_replays c)(i \<mapsto> map_of (rev found))\<rparr>"
| "serve_message py (Stored i name) c = c\<lparr>ch_acks := resolve i name (ch_acks c)\<rparr>"
| "serve_message py (Dispatch i a n name payload) c =
     (let m = Dispatch i a n name payload in
      case py_tasks py name of
        Some t \<Rightarrow>
          if tk_durable t
          then c\<lparr>ch_started := ch_started c @ [(m, StepContext i (case ch_replays c i of None \<Rightarrow> Map.empty | Some s \<Rightarrow> s) a n)],
                 ch_replays := (ch_replays c)(i := None)\<rparr>
          else if tk_wants_context t then c\<lparr>ch_started := ch_started c @ [(m, JobContext i a n)]\<rparr>
          else c\<lparr>ch_started := ch_started c @ [(m, NoContext)]\<rparr>
      | None \<Rightarrow> c\<lparr>ch_started := ch_started c @ [(m, NoContext)]\<rparr>)"
| "serve_message py _ c = c"

text \<open>
  A session of the child: it reads until the connection ends or a frame cannot be decoded. Between
  two reads its jobs run: a step starts to wait for its confirmation, or a deadline cancels
  such a wait. What an undecodable read held is lost; when the connection ends, every
  confirmation still waited for fails.
\<close>

datatype child_event = Read bytes | Expect i64 string | CancelWait nat

datatype served = Serving bytes child | Ended child | Died py_error

definition cancel_wait :: "nat \<Rightarrow> step_acks \<Rightarrow> step_acks" where
  "cancel_wait n a = a\<lparr>ak_futures := settle_future CancelledWait n (ak_futures a)\<rparr>"

fun serve :: "('a, 'v, 'e) python \<Rightarrow> msgspec \<Rightarrow> bytes \<Rightarrow> child_event list \<Rightarrow> child \<Rightarrow> served" where
  "serve py ps b [] c = Serving b c"
| "serve py ps b (Read chunk # evs) c =
     (if chunk = [] then Ended (c\<lparr>ch_acks := abandon_acks (ch_acks c)\<rparr>)
      else case py_drain ps (b @ chunk) of
             (Inl e, b1) \<Rightarrow> Died e
           | (Inr ms, b1) \<Rightarrow> serve py ps b1 evs (fold (serve_message py) ms c))"
| "serve py ps b (Expect i name # evs) c = serve py ps b evs (c\<lparr>ch_acks := snd (expect i name (ch_acks c))\<rparr>)"
| "serve py ps b (CancelWait n # evs) c = serve py ps b evs (c\<lparr>ch_acks := cancel_wait n (ch_acks c)\<rparr>)"

text \<open>However the reads cut the stream, and whatever runs between them, the child handles its messages in order.\<close>

fun read_of :: "child_event \<Rightarrow> bytes" where
  "read_of (Read chunk) = chunk"
| "read_of _ = []"

definition same_jobs :: "child \<Rightarrow> child \<Rightarrow> bool" where
  "same_jobs c c' \<longleftrightarrow> ch_started c = ch_started c' \<and> ch_replays c = ch_replays c'"

lemma serve_message_same_jobs: "same_jobs c c' \<Longrightarrow> same_jobs (serve_message py m c) (serve_message py m c')"
  by (cases m) (auto simp: same_jobs_def Let_def split: option.split)

lemma serve_messages_same_jobs:
  "same_jobs c c' \<Longrightarrow> same_jobs (fold (serve_message py) ms c) (fold (serve_message py) ms c')"
  by (induction ms arbitrary: c c') (simp_all add: serve_message_same_jobs)

lemma serve_stream:
  assumes "\<forall>m \<in> set ms. to_child mp ps m" "b @ concat (map read_of evs) = concat (map (frame_of mp) ms)"
    and "py_peek ps b = Inr None" "Read [] \<notin> set evs" "same_jobs c c0"
  shows "\<exists>c'. serve py ps b evs c = Serving [] c' \<and> same_jobs c' (fold (serve_message py) ms c0)"
  using assms
proof (induction evs arbitrary: b ms c c0)
  case Nil
  then show ?case by (cases ms) (auto simp: child_wire.peek_frame)
next
  case (Cons ev evs)
  show ?case
  proof (cases ev)
    case (Read chunk)
    have "(b @ chunk) @ concat (map read_of evs) = concat (map (frame_of mp) ms)" using Cons.prems(2) by (simp add: Read)
    from child_wire.pulls_prefix [OF Cons.prems(1) this] obtain got todo rest where
      ms: "ms = got @ todo" and pulls: "pulls (py_peek ps) (b @ chunk) got rest"
      and rest: "rest @ concat (map read_of evs) = concat (map (frame_of mp) todo)" by blast
    from py_drain_pulls [OF pulls, of 0 "b @ chunk"] have drained: "py_drain ps (b @ chunk) = (Inr got, rest)"
      by (auto simp: py_drain_def)
    have "py_peek ps rest = Inr None" using pulls by (induction rule: pulls.induct) auto
    then have "\<exists>c'. serve py ps rest evs (fold (serve_message py) got c) = Serving [] c'
        \<and> same_jobs c' (fold (serve_message py) todo (fold (serve_message py) got c0))"
      using Cons.prems(1,4) rest serve_messages_same_jobs [OF Cons.prems(5)] by (intro Cons.IH) (simp_all add: ms)
    then show ?thesis using Cons.prems(4) by (auto simp: ms Read drained)
  qed (use Cons in \<open>auto simp: same_jobs_def\<close>)
qed

section \<open>No step waits for ever\<close>

text \<open>A future that waits can be found under its step, as long as no step is waited for twice.\<close>

definition acks_ok :: "(i64 \<times> string) set \<Rightarrow> step_acks \<Rightarrow> bool" where
  "acks_ok used a \<longleftrightarrow> distinct (map fst (ak_waiting a)) \<and> fst ` set (ak_waiting a) \<subseteq> used
     \<and> (\<forall>n < length (ak_futures a). ak_futures a ! n = Waiting \<longrightarrow> n \<in> snd ` set (ak_waiting a))"

lemma acks_ok_new: "acks_ok used new_acks"
  by (simp add: acks_ok_def new_acks_def)

lemma acks_ok_expect:
  assumes "acks_ok used a" "(i, name) \<notin> used"
  shows "acks_ok (insert (i, name) used) (snd (expect i name a))"
proof -
  have new: "(i, name) \<notin> fst ` set (ak_waiting a)" using assms by (auto simp: acks_ok_def)
  have "k \<notin> fst ` set xs \<Longrightarrow> AList.update k n xs = xs @ [(k, n)]" for k :: "i64 \<times> string" and n :: nat and xs
    by (induction xs) auto
  from this [OF new] have "AList.update (i, name) n (ak_waiting a) = ak_waiting a @ [((i, name), n)]" for n .
  then show ?thesis using assms(1) new by (auto simp: acks_ok_def expect_def nth_append less_Suc_eq)
qed

lemma settle_future_nth:
  "n < length fs \<Longrightarrow> settle_future f k fs ! n = (if k = n \<and> fs ! n = Waiting then f else fs ! n)"
  by (cases "k = n") (simp_all add: settle_future_def)

lemma settle_future_length [simp]: "length (settle_future f k fs) = length fs"
  by (simp add: settle_future_def)

lemma acks_ok_resolve:
  assumes "acks_ok used a"
  shows "acks_ok used (resolve i name a)"
proof (cases "map_of (ak_waiting a) (i, name)")
  case (Some k)
  have "n \<in> snd ` set (AList.delete (i, name) (ak_waiting a))"
    if "n < length (ak_futures a)" "settle_future Resolved k (ak_futures a) ! n = Waiting" for n
  proof -
    have n: "ak_futures a ! n = Waiting" "n \<noteq> k" using that by (auto simp: settle_future_nth split: if_splits)
    then have "n \<in> snd ` set (ak_waiting a)" using assms that(1) by (simp add: acks_ok_def)
    then obtain key where key: "(key, n) \<in> set (ak_waiting a)" by force
    then have "key \<noteq> (i, name)" using Some n(2) assms by (auto simp del: map_of_eq_Some_iff simp: acks_ok_def dest: map_of_is_SomeI)
    then show ?thesis using key by (force simp: AList.delete_eq)
  qed
  moreover have "distinct (map fst (AList.delete (i, name) (ak_waiting a)))" using assms by (simp add: acks_ok_def distinct_delete)
  ultimately show ?thesis using assms Some by (auto simp: acks_ok_def resolve_def AList.delete_eq)
qed (use assms in \<open>simp add: resolve_def\<close>)

lemma acks_ok_cancel_wait: "acks_ok used a \<Longrightarrow> acks_ok used (cancel_wait n a)"
  by (auto simp: acks_ok_def cancel_wait_def settle_future_nth split: if_splits)

lemma abandon_settles:
  assumes "acks_ok used a" "n < length (ak_futures (abandon_acks a))"
  shows "ak_futures (abandon_acks a) ! n \<noteq> Waiting"
proof -
  have "length (fold (settle_future Lost) ks fs) = length fs" for ks fs by (induction ks arbitrary: fs) simp_all
  moreover have "fold (settle_future Lost) ks fs ! n = Waiting \<longleftrightarrow> fs ! n = Waiting \<and> n \<notin> set ks" if "n < length fs" for ks fs
    using that by (induction ks arbitrary: fs) (auto simp: settle_future_nth)
  ultimately show ?thesis using assms by (auto simp: acks_ok_def abandon_acks_def)
qed

lemma serve_message_acks_ok: "acks_ok used (ch_acks c) \<Longrightarrow> acks_ok used (ch_acks (serve_message py m c))"
  by (cases m) (auto simp: Let_def acks_ok_resolve split: option.split)

lemma serve_messages_acks_ok: "acks_ok used (ch_acks c) \<Longrightarrow> acks_ok used (ch_acks (fold (serve_message py) ms c))"
  by (induction ms arbitrary: c) (simp_all add: serve_message_acks_ok)

fun expected :: "child_event list \<Rightarrow> (i64 \<times> string) list" where
  "expected (Expect i name # evs) = (i, name) # expected evs"
| "expected (_ # evs) = expected evs"
| "expected [] = []"

lemma serve_read_cases:
  assumes "serve py ps b (Read chunk # evs) c = Ended c'"
  obtains (closed) "ch_acks c' = abandon_acks (ch_acks c)"
  | (messages) ms b1 where "serve py ps b1 evs (fold (serve_message py) ms c) = Ended c'"
proof (cases "chunk = []")
  case True
  then have "c' = c\<lparr>ch_acks := abandon_acks (ch_acks c)\<rparr>" using assms by simp
  then show thesis using closed by simp
next
  case False
  obtain r b1 where run: "py_drain ps (b @ chunk) = (r, b1)" by fastforce
  show thesis using assms messages [of b1] False by (cases r) (simp_all add: run)
qed

lemma serve_settles:
  assumes "acks_ok used (ch_acks c)" "distinct (expected evs)" "set (expected evs) \<inter> used = {}" "serve py ps b evs c = Ended c'"
  shows "\<forall>n < length (ak_futures (ch_acks c')). ak_futures (ch_acks c') ! n \<noteq> Waiting"
  using assms
proof (induction evs arbitrary: used b c)
  case (Cons ev evs)
  show ?case
  proof (cases ev)
    case (Read chunk)
    have "serve py ps b (Read chunk # evs) c = Ended c'" using Cons.prems(4) by (simp add: Read)
    then show ?thesis
    proof (cases rule: serve_read_cases)
      case closed
      then show ?thesis using abandon_settles [OF Cons.prems(1)] by simp
    next
      case (messages ms b1)
      then show ?thesis using Cons.IH [OF serve_messages_acks_ok [OF Cons.prems(1)] _ _ messages] Cons.prems(2,3) by (simp add: Read)
    qed
  next
    case (Expect i name)
    then show ?thesis
      using Cons.IH [of "insert (i, name) used" "c\<lparr>ch_acks := snd (expect i name (ch_acks c))\<rparr>" b] acks_ok_expect [OF Cons.prems(1), of i name] Cons.prems
      by auto
  next
    case (CancelWait n)
    then show ?thesis
      using Cons.IH [of used "c\<lparr>ch_acks := cancel_wait n (ch_acks c)\<rparr>" b] acks_ok_cancel_wait [OF Cons.prems(1)] Cons.prems by auto
  qed
qed simp

text \<open>
  No step waits for ever. When the connection to the supervisor ends, every confirmation that
  a step of the child waits for has arrived, was cancelled by its deadline, or fails: none is left
  pending, whatever was read and however the jobs and the reads interleaved, provided that no step
  of a job is waited for twice.
\<close>

theorem no_step_waits_for_ever:
  assumes "serve py ps [] evs new_child = Ended c" "distinct (expected evs)" "n < length (ak_futures (ch_acks c))"
  shows "ak_futures (ch_acks c) ! n \<noteq> Waiting"
  using serve_settles [OF _ assms(2) _ assms(1), of "{}"] assms(3) by (simp add: new_child_def acks_ok_new)

definition idle_python :: "(unit, unit, unit) python" where
  "idle_python = \<lparr>py_tasks = (\<lambda>_. None), py_no_args = (), py_args = (\<lambda>_. None), py_result = (\<lambda>_. TypeOrValueError),
     py_timeout = (), py_isa = (\<lambda>_ _. True), py_format_exc = (\<lambda>_. ''failed'')\<rparr>"

text \<open>One step of two is cancelled by its deadline, the other loses the supervisor.\<close>

theorem no_step_waits_for_ever_witness:
  "\<exists>c. serve idle_python unary_spec [] [Expect 1 ''charge'', Expect 1 ''label'', CancelWait 0, Read []] new_child = Ended c
     \<and> ak_futures (ch_acks c) = [CancelledWait, Lost] \<and> ak_futures (ch_acks c) ! 1 \<noteq> Waiting"
proof -
  let ?evs = "[Expect 1 ''charge'', Expect 1 ''label'', CancelWait 0, Read []]"
  obtain c where c: "serve idle_python unary_spec [] ?evs new_child = Ended c" "ak_futures (ch_acks c) = [CancelledWait, Lost]"
    by (simp add: new_child_def new_acks_def expect_def cancel_wait_def abandon_acks_def settle_future_def)
  have "ak_futures (ch_acks c) ! 1 \<noteq> Waiting"
    by (rule no_step_waits_for_ever [OF c(1)]) (simp_all add: c(2))
  then show ?thesis using c by blast
qed

text \<open>
  A step waited for twice is the exception: the second wait takes the place of the first in the
  table, so that neither a confirmation nor the end of the connection reaches the first.
\<close>

definition orphan :: "nat \<Rightarrow> step_acks \<Rightarrow> bool" where
  "orphan n a \<longleftrightarrow> n < length (ak_futures a) \<and> ak_futures a ! n = Waiting \<and> n \<notin> snd ` set (ak_waiting a)"

lemma orphan_expect:
  assumes "orphan n a"
  shows "orphan n (snd (expect i name a))"
proof -
  have "snd ` set (AList.update k x xs) \<subseteq> insert x (snd ` set xs)" for k :: "i64 \<times> string" and x :: nat and xs
    by (induction xs) auto
  moreover have "n \<notin> insert (length (ak_futures a)) (snd ` set (ak_waiting a))" using assms by (simp add: orphan_def)
  ultimately have "n \<notin> snd ` set (AList.update (i, name) (length (ak_futures a)) (ak_waiting a))" by (meson subsetD)
  then show ?thesis using assms by (simp add: orphan_def expect_def nth_append)
qed

lemma orphan_resolve:
  assumes "orphan n a"
  shows "orphan n (resolve i name a)"
proof (cases "map_of (ak_waiting a) (i, name)")
  case (Some k)
  then have "k \<in> snd ` set (ak_waiting a)" using map_of_SomeD by force
  then have "k \<noteq> n" using assms by (auto simp: orphan_def)
  then show ?thesis using assms by (auto simp: orphan_def resolve_def Some settle_future_nth AList.delete_eq)
qed (use assms in \<open>simp add: resolve_def\<close>)

lemma orphan_abandon:
  assumes "orphan n a"
  shows "orphan n (abandon_acks a)"
proof -
  have "length (fold (settle_future Lost) ks fs) = length fs" for ks fs by (induction ks arbitrary: fs) simp_all
  moreover have "fold (settle_future Lost) ks fs ! n = fs ! n" if "n < length fs" "n \<notin> set ks" for ks fs
    using that by (induction ks arbitrary: fs) (auto simp: settle_future_nth)
  ultimately show ?thesis using assms by (auto simp: orphan_def abandon_acks_def)
qed

lemma orphan_messages: "orphan n (ch_acks c) \<Longrightarrow> orphan n (ch_acks (fold (serve_message py) ms c))"
proof (induction ms arbitrary: c)
  case (Cons m ms)
  have "orphan n (ch_acks (serve_message py m c))"
    using Cons.prems by (cases m) (auto simp: Let_def orphan_resolve split: option.split)
  then show ?case using Cons.IH by simp
qed simp

lemma orphan_serve:
  assumes "orphan n (ch_acks c)" "CancelWait n \<notin> set evs" "serve py ps b evs c = Ended c'"
  shows "orphan n (ch_acks c')"
  using assms
proof (induction evs arbitrary: b c)
  case (Cons ev evs)
  show ?case
  proof (cases ev)
    case (Read chunk)
    have "serve py ps b (Read chunk # evs) c = Ended c'" using Cons.prems(3) by (simp add: Read)
    then show ?thesis
    proof (cases rule: serve_read_cases)
      case closed
      then show ?thesis using orphan_abandon [OF Cons.prems(1)] by simp
    next
      case (messages ms b1)
      then show ?thesis using Cons.IH [OF orphan_messages [OF Cons.prems(1)] _ messages] Cons.prems(2) by simp
    qed
  next
    case (Expect i name)
    then show ?thesis
      using Cons.IH [of "c\<lparr>ch_acks := snd (expect i name (ch_acks c))\<rparr>" b] orphan_expect [OF Cons.prems(1)] Cons.prems(2,3) by simp
  next
    case (CancelWait k)
    then have "orphan n (cancel_wait k (ch_acks c))"
      using Cons.prems(1,2) by (auto simp: orphan_def cancel_wait_def settle_future_nth)
    then show ?thesis
      using Cons.IH [of "c\<lparr>ch_acks := cancel_wait k (ch_acks c)\<rparr>" b] Cons.prems(2,3) CancelWait by simp
  qed
qed simp

theorem step_waited_for_twice_hangs:
  assumes "serve py ps [] (Expect i name # Expect i name # evs) new_child = Ended c" "CancelWait 0 \<notin> set evs"
  shows "ak_futures (ch_acks c) ! 0 = Waiting"
proof -
  have "orphan 0 (snd (expect i name (snd (expect i name new_acks))))"
    by (simp add: orphan_def expect_def new_acks_def)
  then have "orphan 0 (ch_acks (new_child\<lparr>ch_acks := snd (expect i name (snd (expect i name new_acks)))\<rparr>))" by simp
  from orphan_serve [OF this assms(2), of py ps "[]" c] show ?thesis using assms(1) by (simp add: new_child_def orphan_def)
qed

end
