(* ===== verification/Durable.thy ===== *)
theory Durable
  imports Delivery Serving
begin

text \<open>
  Durable steps across the supervisor, the database and the child. A step that the supervisor
  confirmed is a row that no statement but the deletion of its job removes; when the job
  is leased again the row is written ahead of it, and the child replays the step instead of
  running it.
\<close>

section \<open>The rows of steps\<close>

text \<open>Identifiers are never used again, and steps go only with their job.\<close>

definition grows :: "db \<Rightarrow> db \<Rightarrow> bool" where
  "grows d d' \<longleftrightarrow> job_seq d \<le> job_seq d' \<and> (\<forall>i \<in> job_ids d'. i \<in> job_ids d \<or> job_seq d \<le> sint i)
     \<and> (\<forall>s \<in> set (steps d). s \<in> set (steps d') \<or> s_job s \<notin> job_ids d')"

lemma grows_refl [simp]: "grows d d"
  by (simp add: grows_def)

lemma grows_same: "lawful now d d' \<Longrightarrow> same_rest d d' \<Longrightarrow> grows d d'"
  by (simp add: grows_def same_rest_def lawful_job_ids)

definition adds :: "db \<Rightarrow> db \<Rightarrow> bool" where
  "adds d d' \<longleftrightarrow> job_seq d \<le> job_seq d' \<and> (\<forall>i \<in> job_ids d'. i \<in> job_ids d \<or> job_seq d \<le> sint i) \<and> steps d' = steps d"

lemma adds_refl [simp]: "adds d d"
  by (simp add: adds_def)

lemma adds_trans: "adds d d1 \<Longrightarrow> adds d1 d2 \<Longrightarrow> adds d d2"
  unfolding adds_def by (metis order_trans)

lemma adds_grows: "adds d d' \<Longrightarrow> grows d d'"
  by (simp add: adds_def grows_def)

lemma adds_insert:
  assumes "1 \<le> job_seq d"
  shows "adds d (snd (insert_job now r d))"
proof (cases rule: insert_job_cases [of now r d])
  case inserted
  have "sint (word_of_int (job_seq d) :: i64) = job_seq d"
    by (rule sint_word_of_int_i64) (use inserted(1) assms in simp_all)
  then show ?thesis by (auto simp: inserted(4) adds_def job_ids_def)
qed (simp_all add: adds_def job_ids_def)

lemma adds_nodes: "1 \<le> job_seq d \<Longrightarrow> adds d (snd (insert_nodes numbered now w ns d))"
proof (induction ns arbitrary: d)
  case (Cons x ns)
  obtain s pending where x: "x = (s, pending)" by fastforce
  let ?ins = "\<lambda>d. bind_text ([sg_queue s, sg_task s] @ (case sg_concurrency_key s of None \<Rightarrow> [] | Some k \<Rightarrow> [k]))
               (insert_job now (node_row now w s pending)) d"
  obtain r d1 where run: "?ins d = (r, d1)" by fastforce
  have "adds d (snd (?ins d))" using adds_insert [OF Cons.prems] by (simp add: bind_text_def)
  then have one: "adds d d1" by (simp only: run snd_conv)
  then have "1 \<le> job_seq d1" using Cons.prems by (simp add: adds_def)
  then have "adds d (snd (insert_nodes numbered now w ns d1))" using adds_trans [OF one] Cons.IH by blast
  then show ?case using one run by (simp add: x prod.case_eq_if split: sum.split prod.split) 
qed simp

lemma grows_delete:
  assumes "distinct (map row_id (jobs d))"
  shows "grows d (delete_jobs p d)"
  using assms by (auto simp: grows_def job_ids_def delete_jobs_def Let_def list_ex_iff dest: job_row_eqI)

lemma grows_update: "(\<And>r. row_id (f r) = row_id r) \<Longrightarrow> grows d (update_where p f d)"
  by (auto simp: grows_def update_where_def job_ids_def)

lemma grows_workflow:
  assumes "1 \<le> job_seq d"
  shows "grows d (snd (enqueue_workflow numbered now w d))"
proof -
  have "adds d (snd (insert_workflow numbered now ns es d))" for ns es
  proof -
    let ?w = "word_of_int (workflow_seq d) :: i64"
    let ?d0 = "d\<lparr>workflow_seq := workflow_seq d + 1, workflow_ids := workflow_ids d @ [?w]\<rparr>"
    obtain r d1 where run: "insert_nodes numbered now ?w ns ?d0 = (r, d1)" by fastforce
    have "adds ?d0 d1" using adds_nodes [of ?d0 numbered now ?w ns] assms by (simp add: run)
    then have "adds d d1" by (simp add: adds_def job_ids_def)
    then show ?thesis
      by (auto simp: insert_workflow_def Let_def run rolled_back_def adds_def job_ids_def split: sum.split)
  qed
  then show ?thesis by (simp add: enqueue_workflow_def adds_grows split: option.split)
qed

lemma grows_exec:
  assumes "db_inv d" "call_ok c"
  shows "grows d (exec now c d)"
proof -
  have wf: "db_wf d" and seq: "1 \<le> job_seq d" and dist: "distinct (map row_id (jobs d))"
    using assms(1) by (simp_all add: db_inv_def db_wf_def)
  note add = adds_grows [OF adds_insert [OF seq]]
  have same: "jobs d' = jobs d \<Longrightarrow> steps d' = steps d \<Longrightarrow> job_seq d \<le> job_seq d' \<Longrightarrow> grows d d'" for d'
    by (simp add: grows_def job_ids_def)
  show ?thesis
  proof (cases c)
    case (Enqueue j)
    then show ?thesis by (simp add: enqueue_def bind_text_def add)
  next
    case (InsertUnique j key)
    then show ?thesis by (auto simp: insert_unique_def insert_unless_live_def bind_text_def add intro: same split: option.split)
  next
    case (EnqueueWorkflow numbered w)
    then show ?thesis using grows_workflow [OF seq] by simp
  next
    case (FetchUnkeyed qs limit w l skip)
    have "same_rest d (snd (fetch_unkeyed qs limit w l now skip d))"
      by (cases rule: fetch_unkeyed_cases [of qs limit w l now skip d]) (simp_all add: lease_selected_same_rest)
    then show ?thesis using grows_same [OF fetch_unkeyed_lawful [OF wf]] FetchUnkeyed by simp
  next
    case (FetchKeyed qs limit w l skip)
    have "same_rest d (snd (fetch_keyed qs limit w l now skip d))"
      by (cases rule: fetch_keyed_cases [of qs limit w l now skip d]) (simp_all add: lease_selected_same_rest)
    then show ?thesis using grows_same [OF fetch_keyed_lawful [OF wf]] FetchKeyed by simp
  next
    case (RecordStep i name v)
    then show ?thesis by (auto simp: record_step_def bind_text_def grows_def job_ids_def)
  next
    case (UpsertCron e next_run)
    then show ?thesis by (auto simp: upsert_cron_def bind_text_def intro: same)
  next
    case (FireCron name next_run)
    have "grows d (snd (fire_cron name next_run now d))"
    proof (cases "find (\<lambda>c. c_name c = name \<and> is_due now c) (crons d)")
      case (Some x)
      obtain r d' where run: "insert_job now (default_row now (c_queue x) (c_task x) (c_payload x)) d = (r, d')" by fastforce
      have "grows d d'" using add [of now "default_row now (c_queue x) (c_task x) (c_payload x)"] by (simp add: run)
      then show ?thesis by (cases r) (simp_all add: fire_cron_def bind_text_def Some run grows_def job_ids_def)
    qed (simp add: fire_cron_def bind_text_def)
    then show ?thesis by (simp add: FireCron)
  next
    case (Prune dead older_than q limit skip)
    then show ?thesis
      by (cases rule: prune_states_cases [of "if dead then [Discarded] else [Completed, Cancelled]" older_than q limit now skip d])
        (simp_all add: grows_delete [OF dist])
  next
    case (Reclaim limit)
    then show ?thesis by (simp, intro grows_same [OF reclaim_expired_lawful [OF wf]])
      (auto simp: reclaim_expired_def Let_def same_rest_def update_where_def)
  next
    case (Retry random ids errs w base cap)
    then show ?thesis
      by (cases rule: retry_many_cases [of random now ids errs w base cap d])
        (use grows_same [OF retry_many_lawful [of now d random ids errs w base cap]] in simp_all)
  next
    case (RetryDiscarded ids q)
    then show ?thesis
      by (cases rule: retry_discarded_cases [of now ids q d])
        (use grows_same [OF retry_discarded_lawful [of now d ids q]] in simp_all)
  qed (use wf in \<open>simp_all add: purge_discarded_def bind_queue_def bind_text_def grows_delete [OF dist] prune_workflows_def Let_def same
      grows_same [OF complete_lawful [OF assms(1)] complete_ok(3) [OF assms(1)]] grows_same [OF discard_many_lawful discard_many_jobs(1)]
      renew_leases_eq abandon_leases_eq cancel_eq cancel_row_def grows_update\<close>)
qed

section \<open>A confirmed step stays\<close>

text \<open>The row is there, or the job is gone and its identifier with it.\<close>

definition survives :: "step_row \<Rightarrow> db \<Rightarrow> bool" where
  "survives s d \<longleftrightarrow> s \<in> set (steps d) \<or> s_job s \<notin> job_ids d \<and> sint (s_job s) < job_seq d"

lemma survives_steps:
  assumes "db_steps d d'" "db_inv d" "survives s d"
  shows "db_inv d' \<and> survives s d'"
  using assms
proof (induction rule: rtranclp_induct)
  case (step y z)
  then have y: "db_inv y" "survives s y" by simp_all
  obtain now c where z: "call_ok c" "z = exec now c y" using step.hyps(2) by (auto simp: db_step_def)
  have "s \<in> set (steps y) \<Longrightarrow> sint (s_job s) < job_seq y" using y(1) by (auto simp: db_inv_def db_wf_def job_ids_def)
  then have "survives s z" using y(2) grows_exec [OF y(1) z(1), of now] by (force simp: survives_def grows_def z(2))
  then show ?case using exec_inv [OF y(1) z(1)] z(2) by simp
qed simp

definition confirmed :: "i64 \<Rightarrow> string \<Rightarrow> db \<Rightarrow> bool" where
  "confirmed i name d \<longleftrightarrow> (\<exists>s. s_job s = i \<and> s_name s = name \<and> survives s d)"

lemma confirmed_steps: "db_steps d d' \<Longrightarrow> db_inv d \<Longrightarrow> confirmed i name d \<Longrightarrow> db_inv d' \<and> confirmed i name d'"
  unfolding confirmed_def using survives_steps by blast

lemma record_step_confirms: "record_step now i name v d = (Inr u, d') \<Longrightarrow> confirmed i name d'"
proof -
  assume "record_step now i name v d = (Inr u, d')"
  then have "\<exists>s \<in> set (steps d'). s_job s = i \<and> s_name s = name"
    by (auto simp: record_step_def bind_text_def list_ex_iff split: if_splits)
  then show "confirmed i name d'" by (auto simp: confirmed_def survives_def)
qed

definition acks_kept :: "collector \<Rightarrow> bool" where
  "acks_kept c \<longleftrightarrow> db_inv (co_db c) \<and> (\<forall>i name. Stored i name \<in> set (co_acks c) \<longrightarrow> confirmed i name (co_db c))"

lemma acks_kept_steps:
  assumes "acks_kept c" "db_steps (co_db c) (co_db c')" "set (co_acks c') \<subseteq> set (co_acks c)"
  shows "acks_kept c'"
proof -
  have "db_inv (co_db c')" using pg.steps_inv assms(1,2) by (simp add: acks_kept_def)
  then show ?thesis using assms confirmed_steps [OF assms(2)] by (auto simp: acks_kept_def)
qed

lemma flush_now_acks [simp]: "co_acks (flush_now g v c) = co_acks c"
  by (simp add: flush_now_def prod.case_eq_if)

lemma handle_acks_kept:
  assumes "orderly v" "acks_kept c"
  shows "acks_kept (handle g v t inst m c)"
proof (cases "\<exists>i name result. m = Record i name result")
  case True
  then obtain i name result where m: "m = Record i name result" by blast
  obtain r d where run: "run_stmt v 0 (\<lambda>now _. record_step now i name result) (co_db c) = (r, d)" by fastforce
  have steps: "db_steps (co_db c) d" by (rule run_stmt_steps' [OF assms(1) statement_record_step run])
  then have kept: "acks_kept (c\<lparr>co_db := d\<rparr>)" using acks_kept_steps [OF assms(2)] by simp
  show ?thesis
  proof (cases r)
    case (Inr u)
    then have "confirmed i name d"
      using run record_step_confirms by (auto simp: run_stmt_def Let_def split: fault.splits prod.splits)
    then show ?thesis using kept Inr by (auto simp: m run acks_kept_def)
  qed (use kept in \<open>simp add: m run\<close>)
next
  case False
  then have "co_acks (handle g v t inst m c) = co_acks c" by (cases m) simp_all
  then show ?thesis by (intro acks_kept_steps [OF assms(2) handle_steps [OF assms(1)]]) simp
qed

lemma flush_now_acks_kept: "orderly v \<Longrightarrow> acks_kept c \<Longrightarrow> acks_kept (flush_now g v c)"
  by (erule acks_kept_steps) (simp_all add: flush_now_steps)

lemma acks_kept_fields [simp]:
  "acks_kept (c\<lparr>co_decoder := dec\<rparr>) = acks_kept c" "acks_kept (c\<lparr>co_deadline := x\<rparr>) = acks_kept c"
  by (simp_all add: acks_kept_def)

lemma drain_acks_kept:
  "(\<And>k. orderly (vs k)) \<Longrightarrow> acks_kept c \<Longrightarrow> acks_kept (snd (drain g vs t inst k c))"
proof (induction g vs t inst k c rule: drain.induct)
  case (1 g vs t inst k c)
  obtain r dec where m: "next_message (cg_pack g) (co_decoder c) = (r, dec)" by fastforce
  have "acks_kept (snd (drain g vs t inst (Suc k) (handle g (vs k) t inst x (c\<lparr>co_decoder := dec\<rparr>))))" if "r = Inr (Some x)" for x
    by (rule "1.IH" [OF m [symmetric] that refl "1.prems"(1)]) (simp add: handle_acks_kept "1.prems")
  then show ?case
    using "1.prems" by (simp add: drain.simps [of g vs t inst k c] m flush_now_acks_kept split: sum.split option.split)
qed

lemma collect_event_acks_kept:
  assumes "orderly v" "\<And>k. orderly (vs k)" "acks_kept c"
  shows "acks_kept (snd (collect_event g vs v t inst ev c))"
  using drain_acks_kept [where vs = vs and k = 0 and g = g] assms
  by (cases ev) (auto simp: collect_event_def flush_now_acks_kept prod.case_eq_if Let_def)

lemma collect_acks_kept:
  "\<forall>(m, ev) \<in> set evs. orderly_moment m \<Longrightarrow> acks_kept c \<Longrightarrow> acks_kept (collect g evs c)"
proof (induction evs arbitrary: c)
  case (Cons x evs)
  obtain m ev where x: "x = (m, ev)" by fastforce
  obtain going c1 where run: "collect_event g (mo_messages m) (mo_flush m) (mo_wall m) (mo_at m) ev c = (going, c1)" by fastforce
  have "acks_kept (snd (collect_event g (mo_messages m) (mo_flush m) (mo_wall m) (mo_at m) ev c))"
    using Cons.prems by (intro collect_event_acks_kept) (simp_all add: x orderly_moment_def)
  then show ?case using Cons by (simp add: x run)
qed simp

section \<open>Replay\<close>

lemma map_of_rev_distinct:
  assumes "distinct (map fst xs)" "(k, v) \<in> set xs"
  shows "map_of (rev xs) k = Some v"
proof -
  have "distinct (map fst (rev xs))" using assms(1) by (simp add: rev_map [symmetric])
  then show ?thesis using assms(2) by simp
qed

lemma steps_for_distinct:
  assumes "db_wf d" "steps_for coll i d = (Inr found, d')"
  shows "distinct (map fst found)"
proof -
  let ?mine = "filter (\<lambda>s. s_job s = i) (steps d)"
  have "distinct (map s_name ?mine)"
    using assms(1) by (auto simp: db_wf_def distinct_map inj_on_def dest: distinct_filter)
  then have "distinct (map s_name (sort_key (\<lambda>s. (s_created_at s, coll (s_name s))) ?mine))"
    by (simp add: distinct_map)
  then show ?thesis using assms(2) by (auto simp: steps_for_def o_def)
qed

lemma framed_with_steps:
  assumes "job_durable j" "1 < sint (job_attempt j)" "steps_for coll (job_id j) d = (Inr found, d)" "found \<noteq> []"
    and "frame_job mp coll (quiet now) w j ([], [], d) = (out, [job_id j], d')"
  shows "out = encode_all mp [Steps (job_id j) found, dispatch_message j] [] \<and> sends mp j"
proof -
  let ?out = "encode_all mp [Steps (job_id j) found] []"
  obtain r out2 where enc: "encode mp (dispatch_message j) ?out = (r, out2)" by fastforce
  then obtain u where "r = Inr u" using assms by (cases r) (auto simp: frame_job_def prior_steps_def)
  then have "out = out2" "sends mp j" using assms enc encode_rejected
    by (auto simp: frame_job_def prior_steps_def sends_def encodable_def encode_reference split: sum.splits if_splits)
  then show ?thesis using enc by simp
qed

text \<open>What the child of the next attempt is told and then does.\<close>

lemma replay_served:
  assumes "py_tasks py name = Some t" "tk_durable t"
  shows "(Dispatch i a n name p, StepContext i (map_of (rev found)) a n)
    \<in> set (ch_started (fold (serve_message py) [Steps i found, Dispatch i a n name p] c))"
  using assms by simp

text \<open>
  C6: A confirmed step is never run again. Once the collector of a worker has confirmed a step to
  the child, then, whatever statements any worker, client or operator issues after that, an attempt
  after the first of that job is written with the step ahead of it, and the child that
  reads it, in reads of any size between which its other jobs run, starts the task with a context
  in which that step returns the stored result instead of running.
\<close>

theorem confirmed_step_is_replayed:
  assumes "db_inv d" "\<forall>(m, ev) \<in> set evs. orderly_moment m"
    and "c = collect g evs (new_collector fl d)" "Stored (job_id j) name \<in> set (co_acks c)"
    and "db_steps (co_db c) d1" "leased_in w d1 j" "job_durable j" "1 < sint (job_attempt j)"
    and "steps_for coll (job_id j) d1 = (Inr found, d1)" "encodable mp (Steps (job_id j) found)"
    and "frame_job mp coll (quiet now) w j ([], [], d1) = (out, [job_id j], d2)"
    and "msgpack_ok mp" "packs_agree mp ps" "wf_string (job_task j)"
    and "concat (map read_of reads) = out" "Read [] \<notin> set reads"
    and "py_tasks py (job_task j) = Some t" "tk_durable t"
  shows "\<exists>ch completed v. serve py ps [] reads ch0 = Serving [] ch
    \<and> (dispatch_message j, StepContext (job_id j) completed (job_attempt j) (job_max_attempts j)) \<in> set (ch_started ch)
    \<and> (\<forall>work a. step ps (job_id j) completed name work a = (Replayed v, a))"
proof -
  let ?i = "job_id j" and ?ms = "[Steps (job_id j) found, dispatch_message j]"
  have "acks_kept (new_collector fl d)" using assms(1) by (simp add: acks_kept_def new_collector_def)
  then have "acks_kept c" using collect_acks_kept [OF assms(2)] by (simp add: assms(3))
  then have d1: "db_inv d1" "confirmed ?i name d1"
    using confirmed_steps [OF assms(5)] assms(4) by (auto simp: acks_kept_def)
  then have "\<exists>s \<in> set (steps d1). s_job s = ?i \<and> s_name s = name"
    using assms(6) by (auto simp: confirmed_def survives_def leased_in_def job_ids_def)
  then obtain v where v: "(name, v) \<in> set found" using assms(9) by (force simp: steps_for_def)
  then have ne: "found \<noteq> []" by auto
  have "map_of (rev found) name = Some v"
    by (rule map_of_rev_distinct [OF steps_for_distinct [OF _ assms(9)] v]) (use d1(1) in \<open>simp add: db_inv_def\<close>)
  then have replay: "step ps ?i (map_of (rev found)) name work a = (Replayed v, a)" for work a by (simp add: step_def)
  have out: "out = encode_all mp ?ms []" and sent: "sends mp j"
    using framed_with_steps [OF assms(7,8,9) ne assms(11)] by simp_all
  have ms: "\<forall>m \<in> set ?ms. to_child mp ps m \<and> encodable mp m"
    using assms(10,12,13,14) sent by (auto simp: to_child_def sendable_def sends_def dispatch_message_def)
  then have "[] @ concat (map read_of reads) = concat (map (frame_of mp) ?ms)"
    using assms(15) by (simp add: out encode_all_frames del: encode_all.simps)
  then obtain ch where ch: "serve py ps [] reads ch0 = Serving [] ch" "same_jobs ch (fold (serve_message py) ?ms ch0)"
    using serve_stream [of ?ms mp ps "[]" reads ch0 ch0 py] ms assms(16) by (auto simp: same_jobs_def child_wire.peek_nothing)
  have "(dispatch_message j, StepContext ?i (map_of (rev found)) (job_attempt j) (job_max_attempts j)) \<in> set (ch_started ch)"
    using replay_served [OF assms(17,18)] ch(2) by (simp add: same_jobs_def dispatch_message_def)
  then show ?thesis using ch(1) replay by blast
qed

text \<open>
  A durable job is leased to worker 7, whose child records a step; the worker dies, a sweep
  releases the job and worker 8 leases it again.
\<close>

lemma drain_one:
  assumes "sendable (cg_pack g) m"
  shows "\<exists>dec. drain g vs t inst k (c\<lparr>co_decoder := Protocol.extend new_decoder (frame_of (cg_pack g) m)\<rparr>)
    = (True, handle g (vs k) t inst m (c\<lparr>co_decoder := dec\<rparr>))"
proof -
  let ?d = "Protocol.extend new_decoder (frame_of (cg_pack g) m)"
  have wf: "wf_decoder ?d" "pending_bytes ?d = frame_of (cg_pack g) m"
    by (simp_all add: wf_decoder_def pending_bytes_def Protocol.extend_def new_decoder_def COMPACT_THRESHOLD_def)
  have "peek (cg_pack g) (pending_bytes ?d) = Inr (Some (m, []))"
    using wire.peek_frame [OF assms, of "[]"] by (simp add: wf(2))
  with next_message_peek [OF wf(1), of "cg_pack g"] obtain dec where
    dec: "next_message (cg_pack g) ?d = (Inr (Some m), dec)" "wf_decoder dec" "pending_bytes dec = []" by auto
  have "next_message (cg_pack g) dec = (Inr None, dec)"
    using next_message_peek [OF dec(2), of "cg_pack g"] by (simp add: dec(3) wire.peek_nothing)
  then have "drain g vs t inst k (c\<lparr>co_decoder := ?d\<rparr>) = (True, (handle g (vs k) t inst m (c\<lparr>co_decoder := dec\<rparr>))\<lparr>co_decoder := dec\<rparr>)"
    using dec(1) by (simp add: drain.simps [of g vs t inst])
  moreover have "x\<lparr>co_decoder := co_decoder x\<rparr> = x" for x :: collector by simp
  ultimately show ?thesis by (metis handle_decoder collector.select_convs(1) collector.surjective collector.update_convs(1))
qed

definition durable_db :: db where
  "durable_db = exec 10 (FetchUnkeyed [''default''] 1 7 30 [])
     (exec 0 (Enqueue ((new_job_for ''send'' [])\<lparr>nj_durable := True\<rparr>)) empty_db)"

definition charged_db :: db where
  "charged_db = exec 20 (RecordStep 1 ''charge'' [9]) durable_db"

definition retried_db :: db where
  "retried_db = exec 60 (FetchUnkeyed [''default''] 1 8 30 []) (exec 50 (Reclaim 10) charged_db)"

definition second_attempt :: job where
  "second_attempt = \<lparr>job_id = 1, job_task = ''send'', job_payload = [], job_attempt = 2, job_max_attempts = 20, job_durable = True\<rparr>"

definition step_task :: "(unit, unit, unit) py_task" where
  "step_task = \<lparr>tk_run = (\<lambda>_ _. Returned ()), tk_retry_on = [], tk_no_retry_on = [], tk_store_result = False,
     tk_durable = True, tk_wants_context = False\<rparr>"

definition step_python :: "(unit, unit, unit) python" where
  "step_python = idle_python\<lparr>py_tasks := (\<lambda>_. Some step_task)\<rparr>"

lemma durable_db_inv: "db_inv durable_db"
proof -
  have "reachable_db durable_db" unfolding durable_db_def by (intro reachable_exec reachable_empty) simp_all
  then show ?thesis using pg.reach_inv by (simp add: reachable_db_def)
qed

lemma charge_recorded: "record_step 20 1 ''charge'' [9] durable_db = (Inr (), charged_db)"
  unfolding charged_db_def by code_simp

lemma retried_leased: "leased_in 8 retried_db second_attempt"
proof -
  have "list_ex (\<lambda>r. job_from r = second_attempt \<and> state r = Running \<and> locked_by r = Some 8) (jobs retried_db)"
    by code_simp
  then show ?thesis by (auto simp: leased_in_def list_ex_iff)
qed

lemma retried_steps: "steps_for length 1 retried_db = (Inr [(''charge'', [9])], retried_db)"
proof -
  have "map_sum id id (fst (steps_for length 1 retried_db)) = Inr [(''charge'', [9])]" by code_simp
  then show ?thesis by (simp add: steps_for_def)
qed

lemma step_frames_encodable:
  "encodable unary_pack (Record 1 ''charge'' [9])" "encodable unary_pack (Steps 1 [(''charge'', [9])])" "sends unary_pack second_attempt"
  by (simp_all add: sends_def encodable_def encode_reference MAX_FRAME_BYTES_def second_attempt_def dispatch_message_def
      unary_pack_def pack_def put_step_def put_bytes_def)

lemma charge_collected:
  assumes "sendable unary_pack (Record 1 ''charge'' [9])"
    and "c = collect sample_collecting [(quiet_moment 20, Chunk (frame_of unary_pack (Record 1 ''charge'' [9])))] (new_collector busy durable_db)"
  shows "co_acks c = [Stored 1 ''charge''] \<and> co_db c = charged_db \<and> co_flight c = busy"
proof -
  let ?m = "Record 1 ''charge'' [9]" and ?g = sample_collecting and ?c0 = "new_collector busy durable_db"
  have g: "cg_pack ?g = unary_pack" "1 \<le> cfg_completion_batch (cg_config ?g)"
    by (simp_all add: sample_collecting_def sample_config_def default_config_def)
  have "frame_of unary_pack ?m \<noteq> []"
    using wire.peek_frame [OF assms(1), of "[]"] by (auto simp: wire.peek_nothing)
  moreover obtain dec where "drain ?g (\<lambda>_. quiet 20) 20 20 0 (?c0\<lparr>co_decoder := Protocol.extend new_decoder (frame_of unary_pack ?m)\<rparr>)
      = (True, handle ?g (quiet 20) 20 20 ?m (?c0\<lparr>co_decoder := dec\<rparr>))"
    using drain_one [of ?g ?m "\<lambda>_. quiet 20" 20 20 0 ?c0] assms(1) by (auto simp: g(1))
  ultimately show ?thesis using g(2)
    by (simp add: assms(2) collect_event_def quiet_moment_def new_collector_def charge_recorded pending_len_def no_pending_def)
qed

theorem confirmed_step_is_replayed_witness:
  "\<exists>out ch completed v. serve step_python unary_spec [] (map (\<lambda>b. Read [b]) out) new_child = Serving [] ch
     \<and> (dispatch_message second_attempt, StepContext 1 completed 2 20) \<in> set (ch_started ch)
     \<and> step unary_spec 1 completed ''charge'' (\<lambda>_. Some [7]) new_acks = (Replayed v, new_acks)"
proof -
  let ?m = "Record 1 ''charge'' [9]" and ?j = second_attempt
  let ?evs = "[(quiet_moment 20, Chunk (frame_of unary_pack (Record 1 ''charge'' [9])))]"
  let ?c = "collect sample_collecting ?evs (new_collector busy durable_db)"
  have names: "wf_string ''charge''" "wf_string ''send''" by (simp_all add: wf_string_def char_byte_def)
  have m: "sendable unary_pack ?m" "encodable unary_pack (Steps 1 [(''charge'', [9])])" "sends unary_pack ?j"
    using names step_frames_encodable by (simp_all add: sendable_def unary_pack_ok)
  have evs: "\<forall>(m, ev) \<in> set ?evs. orderly_moment m" by (simp add: orderly_moment_def quiet_moment_def)
  have c: "co_acks ?c = [Stored 1 ''charge'']" "co_db ?c = charged_db" using charge_collected [OF m(1)] by simp_all
  have "db_step charged_db (exec 50 (Reclaim 10) charged_db)" "db_step (exec 50 (Reclaim 10) charged_db) retried_db"
    unfolding retried_db_def by (rule db_stepI, simp)+
  then have later: "db_steps (co_db ?c) retried_db" unfolding c(2) by (rule converse_rtranclp_into_rtranclp [OF _ r_into_rtranclp])
  obtain out d2 where out: "frame_job unary_pack length (quiet 70) 8 ?j ([], [], retried_db) = (out, [job_id ?j], d2)"
    by (rule frame_job_quiet [OF retried_leased, where mp = unary_pack and coll = length and now = 70 and out = "[]" and reserved = "[]"])
      (use m(3) in simp)
  have reads: "concat (map read_of (map (\<lambda>b. Read [b]) out)) = out" "Read [] \<notin> set (map (\<lambda>b. Read [b]) out)"
    by (simp_all add: o_def) auto
  have "\<exists>ch completed v. serve step_python unary_spec [] (map (\<lambda>b. Read [b]) out) new_child = Serving [] ch
    \<and> (dispatch_message ?j, StepContext (job_id ?j) completed (job_attempt ?j) (job_max_attempts ?j)) \<in> set (ch_started ch)
    \<and> (\<forall>work a. step unary_spec (job_id ?j) completed ''charge'' work a = (Replayed v, a))"
    by (rule confirmed_step_is_replayed [OF durable_db_inv evs refl _ later retried_leased _ _ _ _ out unary_pack_ok unary_packs_agree _ reads, where t = step_task])
      (use c(1) m(2) names retried_steps in \<open>simp_all add: second_attempt_def step_python_def step_task_def\<close>)
  moreover have "job_id ?j = 1" "job_attempt ?j = 2" "job_max_attempts ?j = 20" by (simp_all add: second_attempt_def)
  ultimately show ?thesis by metis
qed

section \<open>A requeued job repeats its steps\<close>

text \<open>
  C40: Requeueing forgets that a job was run. A dead-lettered job that an operator returns to the
  queue keeps the rows of its steps, but its attempts start over, and a first attempt is written
  without them: the child starts the task with an empty context, and every step runs again,
  although its result is stored.
\<close>

theorem requeued_job_repeats_its_steps:
  assumes "retry_discarded now ids q d = (Inr requeued, d1)" "r \<in> set (jobs d)" "to_requeue ids q r"
    and "s \<in> set (steps d)" "s_job s = row_id r"
    and "j = job_from (lease_row later w l (requeue_row now r))"
    and "py_tasks py (task r) = Some t" "tk_durable t" "ch_replays c (row_id r) = None"
    and "work () = Some b" "encode_record ps (row_id r) (s_name s) b = Some frame"
  shows "row_id r \<in> set requeued \<and> requeue_row now r \<in> set (jobs d1) \<and> s \<in> set (steps d1)
    \<and> prior_steps mp coll v j out d1 = (out, d1)
    \<and> ch_started (serve_message py (dispatch_message j) c)
        = ch_started c @ [(dispatch_message j, StepContext (row_id r) Map.empty 1 (max_attempts r))]
    \<and> (\<exists>n. fst (step ps (row_id r) Map.empty (s_name s) work a) = Confirming frame b n)"
proof -
  have j: "job_id j = row_id r" "job_attempt j = 1" "job_task j = task r" "job_max_attempts j = max_attempts r"
    by (simp_all add: assms(6) job_from_def lease_row_def requeue_row_def)
  have "row_id r \<in> set requeued \<and> requeue_row now r \<in> set (jobs d1) \<and> s \<in> set (steps d1)"
    using assms(1-4) by (cases rule: retry_discarded_cases [of now ids q d]) (auto simp: update_where_def)
  then show ?thesis
    using assms(7-11) j by (simp add: prior_steps_def dispatch_message_def step_def Let_def prod.case_eq_if)
qed

text \<open>The job of the step above is dead-lettered with the step stored, and requeued: the card is charged twice.\<close>

definition dead_db :: db where
  "dead_db = exec 30 (Discard [1] [''boom''] 7) charged_db"

theorem requeued_job_repeats_its_steps_witness:
  "\<exists>r s d1 j frame n. retry_discarded 40 None None dead_db = (Inr [1], d1) \<and> s \<in> set (steps d1) \<and> s_result s = [9]
     \<and> prior_steps unary_pack length (quiet 50) j [] d1 = ([], d1) \<and> j = job_from (lease_row 50 8 30 (requeue_row 40 r))
     \<and> fst (step unary_spec 1 Map.empty (s_name s) (\<lambda>_. Some [7]) new_acks) = Confirming frame [7] n"
proof -
  let ?r = "hd (jobs dead_db)" and ?s = "hd (steps dead_db)"
  let ?f = "retry_discarded 40 None None dead_db"
  have "map_sum id id (fst ?f) = Inr [1]" by code_simp
  then obtain ids where f: "?f = (Inr ids, snd ?f)" "id ids = [1]" by (rule ok_pair)
  have r: "jobs dead_db \<noteq> []" "steps dead_db \<noteq> []" "to_requeue None None ?r" "row_id ?r = 1" "s_job ?s = row_id ?r" "s_result ?s = [9]" "s_name ?s = ''charge''"
    by code_simp+
  then have rs: "?r \<in> set (jobs dead_db)" "?s \<in> set (steps dead_db)" by simp_all
  obtain frame where frame: "encode_record unary_spec (row_id ?r) (s_name ?s) [7] = Some frame"
    unfolding r(4,7) by (simp add: encode_record_def pack_length_def Let_def unary_spec_def unary_pack_def put_bytes_def)
  have py: "py_tasks step_python (task ?r) = Some step_task" "tk_durable step_task" "ch_replays new_child (row_id ?r) = None"
    by (simp_all add: step_python_def step_task_def new_child_def)
  note all = requeued_job_repeats_its_steps [OF f(1) rs(1) r(3) rs(2) r(5) refl py refl frame]
  have "\<exists>n. fst (step unary_spec 1 Map.empty (s_name ?s) (\<lambda>_. Some [7]) new_acks) = Confirming frame [7] n"
    using all [where a = new_acks and mp = unary_pack and coll = length] by (simp only: r(4) simp_thms)
  then obtain n where n: "fst (step unary_spec 1 Map.empty (s_name ?s) (\<lambda>_. Some [7]) new_acks) = Confirming frame [7] n" by blast
  have f': "?f = (Inr [1], snd ?f)" using f by simp
  show ?thesis
    by (rule exI [of _ ?r], rule exI [of _ ?s], rule exI [of _ "snd ?f"])
      (use all [where later = 50 and w = 8 and l = 30 and mp = unary_pack and coll = length and v = "quiet 50" and out = "[]"] f' r(6) n in blast)
qed

end
