(* ===== verification/Journey.thy ===== *)
theory Journey
  imports Delivery Serving
begin

text \<open>
  The whole way of a job through supervisor and child: a turn of dispatching leases jobs and writes
  them, the child reads and runs them, and the collector records what it reports. The last section
  follows an error that is too long for a frame.
\<close>

section \<open>What the child starts and reports\<close>

definition reports_of :: "('a, 'v, 'e) python \<Rightarrow> child \<Rightarrow> (i64 \<times> outcome) list" where
  "reports_of py ch = List.map_filter (\<lambda>(m, ctx). execute py ctx m) (ch_started ch)"

text \<open>A report that fits: a result within a frame, or an error of text within its limit.\<close>

fun reportable :: "i64 \<times> outcome \<Rightarrow> bool" where
  "reportable (i, Success v) \<longleftrightarrow> 10 + length v \<le> MAX_FRAME_BYTES"
| "reportable (i, Failure e retry) \<longleftrightarrow> wf_string e \<and> text_ok e \<and> length e \<le> MAX_ERROR_BYTES"

lemma started_messages:
  "map fst (ch_started (fold (serve_message py) ms c)) = map fst (ch_started c) @ filter is_dispatch ms"
proof (induction ms arbitrary: c)
  case (Cons m ms)
  have "map fst (ch_started (serve_message py m c)) = map fst (ch_started c) @ filter is_dispatch [m]"
    by (cases m) (auto simp: Let_def split: option.split)
  then show ?case using Cons by simp
qed simp

lemma execute_id: "execute py ctx (dispatch_message j) = Some (i, oc) \<Longrightarrow> i = job_id j"
  by (auto simp: dispatch_message_def split: option.splits ran.splits encoding.splits if_splits)

lemma reports_of_ids:
  assumes "map fst (ch_started ch) = map dispatch_message js" "\<forall>(m, ctx) \<in> set (ch_started ch). execute py ctx m \<noteq> None"
  shows "map fst (reports_of py ch) = map job_id js"
proof -
  have "map fst (List.map_filter (\<lambda>(m, ctx). execute py ctx m) xs) = map job_id js"
    if "map fst xs = map dispatch_message js" "\<forall>(m, ctx) \<in> set xs. execute py ctx m \<noteq> None" for xs js
    using that
  proof (induction xs arbitrary: js)
    case (Cons x xs)
    then obtain j js' where js: "js = j # js'" "fst x = dispatch_message j" by auto
    obtain i oc where run: "execute py (snd x) (fst x) = Some (i, oc)" using Cons.prems(2) by (cases x) auto
    then have "i = job_id j" using execute_id js(2) by metis
    then show ?case using Cons run js by (simp add: List.map_filter_simps prod.case_eq_if)
  qed (simp add: List.map_filter_simps)
  then show ?thesis using assms by (simp add: reports_of_def)
qed

lemma reports_of_started:
  assumes "x \<in> set (reports_of py ch)"
  obtains m ctx where "(m, ctx) \<in> set (ch_started ch)" "execute py ctx m = Some x"
proof -
  from assms obtain y where "y \<in> set (ch_started ch)" "(case y of (m, ctx) \<Rightarrow> execute py ctx m) = Some x"
    by (auto simp: reports_of_def List.map_filter_def)
  then show thesis using that [of "fst y" "snd y"] by (simp add: prod.case_eq_if)
qed

lemma written_report:
  assumes "reportable x"
  shows "write_report x = Some (frame_of mp (report_of x)) \<and> encodable mp (report_of x) \<and> wf_message (report_of x)"
proof -
  obtain i oc where x: "x = (i, oc)" by fastforce
  show ?thesis
  proof (cases oc)
    case (Success v)
    then show ?thesis
      using assms encode_success_frame [of v i mp] by (simp add: x encodable_def encode_reference)
  next
    case (Failure e retry)
    then have e: "wf_string e" "length e \<le> MAX_ERROR_BYTES" using assms by (simp_all add: x)
    then have "from_utf8 (trim_error (as_bytes e)) = Some e" by (simp add: trim_error_def from_utf8_as_bytes)
    from encode_failure_frame [OF this, of i retry mp] e show ?thesis
      by (simp add: x Failure encodable_def encode_reference MAX_ERROR_BYTES_def MAX_FRAME_BYTES_def)
  qed
qed

section \<open>From the lease to the row\<close>

lemma turn_served:
  assumes "db_wf d" "msgpack_ok mp" "packs_agree mp ps" "\<forall>r \<in> set (jobs d). wf_string (task r)"
    and "dispatch_turn mp coll (quiet now) cfg w fl d = (Send out, fl', d')"
    and "concat (map read_of reads) = out" "Read [] \<notin> set reads"
  obtains js ch where "serve py ps [] reads new_child = Serving [] ch" "map fst (ch_started ch) = map dispatch_message js"
    "\<forall>j \<in> set js. leased_in w d' j" "distinct (map job_id js)" "job_id ` set js = running_ids d' - running_ids d"
proof (rule turn_sends [OF assms(1,2,4,5)])
  fix js ms
  assume sent: "out = concat (map (frame_of mp) ms)" "carries js ms" "\<forall>m \<in> set ms. sendable mp m"
    and leased: "\<forall>j \<in> set js. leased_in w d' j" "distinct (map job_id js)" "job_id ` set js = running_ids d' - running_ids d"
  have "for_child m" if "m \<in> set ms" for m using sent(2) that by (cases m) (auto simp: carries_def)
  then have "\<forall>m \<in> set ms. to_child mp ps m" using sent(3) assms(3) by (simp add: to_child_def)
  then obtain ch where ch: "serve py ps [] reads new_child = Serving [] ch" "same_jobs ch (fold (serve_message py) ms new_child)"
    using serve_stream [of ms mp ps "[]" reads new_child new_child py] assms(6,7) sent(1)
    by (auto simp: same_jobs_def child_wire.peek_nothing)
  have "map fst (ch_started ch) = map dispatch_message js"
    using started_messages [of py ms new_child] sent(2) ch(2) by (simp add: same_jobs_def new_child_def carries_def)
  then show thesis using that ch(1) leased by blast
qed

text \<open>
  C5: A leased job ends as its task did. A turn of dispatching leases jobs and writes them; the
  child reads the bytes in pieces of any size, starts exactly these jobs and runs each of them,
  whatever it makes of its task name, its payload and its body; it writes its
  reports in any order, and the collector reads those in pieces of any size with its timer firing at
  any moment. When the connection closes, every job the turn set running has on its row what the
  execution of its task came to - completed with the result, due again or dead-lettered with the
  error - and has left the in-flight set, which keeps every other job.
\<close>

theorem leased_jobs_end_as_executed:
  assumes "db_inv d" "msgpack_ok mp" "packs_agree mp ps" "\<forall>r \<in> set (jobs d). wf_string (task r)"
    and "dispatch_turn mp coll (quiet now) cfg w fl d = (Send out, fl', d')" "retryable cfg d'"
    and "concat (map read_of reads) = out" "Read [] \<notin> set reads" "serve py ps [] reads new_child = Serving b ch"
    and "\<forall>(m, ctx) \<in> set (ch_started ch). execute py ctx m \<noteq> None"
    and "mset rs = mset (reports_of py ch)" "\<forall>x \<in> set rs. reportable x"
    and "\<forall>(m, ev) \<in> set evs. open_socket ev \<and> healthy m" "healthy bye"
    and "concat (map (arrived \<circ> snd) evs) = concat (map (\<lambda>x. the (write_report x)) rs)"
    and "cg_pack g = mp" "cg_config g = cfg" "cg_worker g = w"
    and "c = collect g (evs @ [(bye, Closed)]) (new_collector fl' d')"
  shows "(\<forall>i \<in> running_ids d' - running_ids d. \<exists>m ctx oc. (m, ctx) \<in> set (ch_started ch)
      \<and> execute py ctx m = Some (i, oc) \<and> recorded_in (co_db c) (i, oc))
    \<and> co_pending c = no_pending
    \<and> held_now (co_flight c) = filter (\<lambda>i. i \<notin> running_ids d' - running_ids d) (held_now fl')"
proof -
  have wf: "db_wf d" using assms(1) by (simp add: db_inv_def)
  obtain js ch' where served: "serve py ps [] reads new_child = Serving [] ch'" "map fst (ch_started ch') = map dispatch_message js"
    and leased: "\<forall>j \<in> set js. leased_in w d' j" "distinct (map job_id js)" "job_id ` set js = running_ids d' - running_ids d"
    by (rule turn_served [OF wf assms(2,3,4,5,7,8), where py = py])
  then have "map fst (ch_started ch) = map dispatch_message js" using assms(9) by simp
  then have "map fst (reports_of py ch) = map job_id js" by (rule reports_of_ids [OF _ assms(10)])
  moreover have "mset (map fst rs) = mset (map fst (reports_of py ch))" by (simp add: assms(11))
  ultimately have ids: "mset (map fst rs) = mset (map job_id js)" by simp
  have rs: "distinct (map fst rs)" "fst ` set rs = job_id ` set js"
    using mset_eq_imp_distinct_iff [OF ids] leased(2) mset_eq_setD [OF ids] by simp_all
  have written: "write_report x = Some (frame_of mp (report_of x))" "sendable mp (report_of x)" if "x \<in> set rs" for x
    using written_report [of x mp] that assms(2,12) by (auto simp: sendable_def)
  have held: "held_in w d' (fst x)" if "x \<in> set rs" for x
  proof -
    have "fst x \<in> job_id ` set js" using that by (simp flip: rs(2))
    then show ?thesis using leased(1) leased_held by auto
  qed
  have texts: "texts_ok rs" using assms(12) by (auto simp: texts_ok_def split: outcome.splits)
  have d': "db_inv d'" 
    using pg.steps_inv [OF dispatch_turn_steps [OF orderly_quiet, of d mp coll now cfg w fl] assms(1)] by (simp add: assms(5))
  have "concat (map (arrived \<circ> snd) evs) = concat (map (frame_of mp \<circ> report_of) rs)"
    unfolding assms(15) by (rule arg_cong [where f = concat], rule map_cong) (simp_all add: written(1))
  then have "on_track g (held_now fl') rs [] [] c"
    using collector_on_track [of d' g rs evs bye fl'] d' assms(6,13,14) texts rs(1) held written(2)
    by (simp add: assms(16-19))
  then have track: "co_pending c = no_pending" "\<forall>x \<in> set rs. recorded_in (co_db c) x"
      "held_now (co_flight c) = filter (\<lambda>i. i \<notin> fst ` set rs) (held_now fl')"
    by (simp_all add: on_track_def pending_of_def)
  have "\<exists>m ctx oc. (m, ctx) \<in> set (ch_started ch) \<and> execute py ctx m = Some (i, oc) \<and> recorded_in (co_db c) (i, oc)"
    if "i \<in> running_ids d' - running_ids d" for i
  proof -
    have "i \<in> fst ` set rs" using that by (simp add: rs(2) leased(3))
    then obtain oc where oc: "(i, oc) \<in> set rs" by force
    then have "(i, oc) \<in> set (reports_of py ch)" using mset_eq_setD [OF assms(11)] by simp
    then obtain m ctx where "(m, ctx) \<in> set (ch_started ch)" "execute py ctx m = Some (i, oc)" by (rule reports_of_started)
    then show ?thesis using track(2) oc by blast
  qed
  then show ?thesis using track(1,3) by (simp add: rs(2) leased(3))
qed

text \<open>The two jobs of a turn return nothing; their reports arrive last first and byte by byte.\<close>

definition echo_python :: "(unit, unit, unit) python" where
  "echo_python = idle_python\<lparr>py_tasks := (\<lambda>_. Some \<lparr>tk_run = (\<lambda>_ _. Returned ()), tk_retry_on = [], tk_no_retry_on = [],
     tk_store_result = False, tk_durable = False, tk_wants_context = False\<rparr>), py_args := (\<lambda>_. Some ())\<rparr>"

lemma echo_executes: "execute echo_python ctx (dispatch_message j) = Some (job_id j, Success [])"
  by (simp add: echo_python_def dispatch_message_def)

lemma quick_retryable:
  assumes "dispatch_turn unary_pack length (quiet 10) quick_config 7 (new_in_flight 1) sample_db = (Send out, fl', d')"
  shows "retryable quick_config d'"
proof (cases rule: dispatch_turn_quiet [OF sample_db_wf assms])
  case (3 js ms d1)
  have cfg: "cfg_queues quick_config = [''default'']" "cfg_lease quick_config = 30"
    "min (sint (cfg_batch quick_config)) (int (available (new_in_flight 1))) = 1"
    by (simp_all add: quick_config_def sample_config_def default_config_def available_def new_in_flight_def held_count_def)
  have "list_all (\<lambda>r. attempt r = 0 \<or> attempt r = 1) (jobs (snd (fetch (quiet 10) [''default''] 1 30 7 sample_db)))" by code_simp
  then have "\<forall>r \<in> set (jobs d1). attempt r = 0 \<or> attempt r = 1" using 3(1) unfolding cfg by (simp add: list_all_iff)
  then have "retryable quick_config d1"
    by (fastforce simp: retryable_def quick_config_def sample_config_def default_config_def delay_overflows_def pow2_def)
  then show ?thesis using reports_on_keeps(3) [OF 3(6)] by simp
qed simp_all

theorem leased_jobs_end_as_executed_witness:
  "\<exists>out fl' d' ch. \<exists>c :: collector. dispatch_turn unary_pack length (quiet 10) quick_config 7 (new_in_flight 1) sample_db = (Send out, fl', d')
     \<and> serve echo_python unary_spec [] (map (\<lambda>b. Read [b]) out) new_child = Serving [] ch
     \<and> (\<forall>i \<in> running_ids d' - running_ids sample_db. \<exists>oc. recorded_in (co_db c) (i, oc)) \<and> co_pending c = no_pending"
proof -
  let ?g = "sample_collecting\<lparr>cg_config := quick_config\<rparr>"
  obtain out fl' d' where turn: "dispatch_turn unary_pack length (quiet 10) quick_config 7 (new_in_flight 1) sample_db = (Send out, fl', d')"
    by (rule quick_turn)
  have "wf_string ''send''" by (simp add: wf_string_def char_byte_def)
  then have tasks: "\<forall>r \<in> set (jobs sample_db). wf_string (task r)" by (simp add: sample_defs)
  have inv: "db_inv sample_db" by (simp add: db_inv_def flow_ok_def open_parents_def) (simp add: sample_defs)
  have reads: "concat (map read_of (map (\<lambda>b. Read [b]) out)) = out" "Read [] \<notin> set (map (\<lambda>b. Read [b]) out)"
    by (simp_all add: o_def) auto
  obtain js ch where served: "serve echo_python unary_spec [] (map (\<lambda>b. Read [b]) out) new_child = Serving [] ch"
      "map fst (ch_started ch) = map dispatch_message js"
    by (rule turn_served [OF sample_db_wf unary_pack_ok unary_packs_agree tasks turn reads, where py = echo_python])
  have run: "\<exists>i. execute echo_python ctx m = Some (i, Success [])" if "(m, ctx) \<in> set (ch_started ch)" for m ctx
  proof -
    have "m \<in> set (map fst (ch_started ch))" using that by force
    then obtain j where "m = dispatch_message j" by (auto simp: served(2))
    then show ?thesis using echo_executes by auto
  qed
  let ?rs = "rev (reports_of echo_python ch)"
  let ?evs = "map (\<lambda>b. (quiet_moment 20, Chunk [b])) (concat (map (\<lambda>x. the (write_report x)) ?rs))"
  have "reportable x" if "x \<in> set ?rs" for x
  proof -
    have "x \<in> set (reports_of echo_python ch)" using that by simp
    then obtain m ctx where "(m, ctx) \<in> set (ch_started ch)" "execute echo_python ctx m = Some x" by (rule reports_of_started)
    then show ?thesis using run by (force simp: MAX_FRAME_BYTES_def)
  qed
  moreover have "\<forall>(m, ctx) \<in> set (ch_started ch). execute echo_python ctx m \<noteq> None" using run by fastforce
  moreover have "\<forall>(m, ev) \<in> set ?evs. open_socket ev \<and> healthy m" "healthy (quiet_moment 30)"
    by (auto simp: healthy_def quiet_moment_def)
  moreover have "concat (map (arrived \<circ> snd) ?evs) = concat (map (\<lambda>x. the (write_report x)) ?rs)" by (simp add: o_def)
  ultimately have "(\<forall>i \<in> running_ids d' - running_ids sample_db. \<exists>m ctx oc. (m, ctx) \<in> set (ch_started ch)
      \<and> execute echo_python ctx m = Some (i, oc)
      \<and> recorded_in (co_db (collect ?g (?evs @ [(quiet_moment 30, Closed)]) (new_collector fl' d'))) (i, oc))
    \<and> co_pending (collect ?g (?evs @ [(quiet_moment 30, Closed)]) (new_collector fl' d')) = no_pending"
    using leased_jobs_end_as_executed [OF inv unary_pack_ok unary_packs_agree tasks turn quick_retryable [OF turn] reads served(1), of ?rs ?evs "quiet_moment 30" ?g]
    by (simp add: sample_collecting_def)
  then have recorded: "\<forall>i \<in> running_ids d' - running_ids sample_db.
      \<exists>oc. recorded_in (co_db (collect ?g (?evs @ [(quiet_moment 30, Closed)]) (new_collector fl' d'))) (i, oc)"
    and flushed: "co_pending (collect ?g (?evs @ [(quiet_moment 30, Closed)]) (new_collector fl' d')) = no_pending"
    by blast+
  show ?thesis by (intro exI conjI) (rule turn, rule served(1), rule recorded, rule flushed)
qed

section \<open>An error that does not fit\<close>

text \<open>
  A long error ends the session of its worker. When the error of a failed job is longer than
  its limit and the limit falls inside a character, what the child writes is a frame that the
  supervisor cannot decode: whatever follows in the connection, the collector stops there, and all
  it does is to flush the reports it already had. The job stays running, to be delivered again and
  fail in the same way.
\<close>

theorem long_error_ends_the_session:
  assumes "MAX_ERROR_BYTES < length e" "\<not> utf8_valid (map unat (take MAX_ERROR_BYTES (as_bytes e)))"
    and "write_report (i, Failure e retry) = Some frame"
    and "wf_decoder (co_decoder c)" "pending_bytes (co_decoder c) = []"
  shows "\<exists>dec. collect_event g vs v t inst (Chunk (frame @ rest)) c = (False, flush_now g (vs 0) (c\<lparr>co_decoder := dec\<rparr>))"
proof -
  have frame: "encode_failure i e retry = Some frame" using assms(3) by simp
  then have "frame \<noteq> []" by (auto simp: encode_failure_framed framed_def)
  let ?d = "Protocol.extend (co_decoder c) (frame @ rest)"
  have d: "wf_decoder ?d" "pending_bytes ?d = frame @ rest" using assms(4,5) by simp_all
  have "next_message (cg_pack g) ?d = (Inl (NotUtf8 ''error message''), ?d)"
    using next_message_peek [OF d(1), of "cg_pack g"] truncated_error_unreadable [OF assms(1,2) frame, of "cg_pack g" rest]
    by (simp add: d(2))
  then show ?thesis
    using \<open>frame \<noteq> []\<close> by (auto simp: collect_event_def drain.simps [of g vs t inst 0])
qed

text \<open>A traceback of 65535 letters and one accented letter, whose two bytes the limit separates.\<close>

lemma utf8_valid_letters: "utf8_valid (replicate n 97 @ xs) = utf8_valid xs"
  by (induction n) simp_all

definition long_error :: string where
  "long_error = replicate 65535 (CHR ''a'') @ [char_of (195 :: nat), char_of (169 :: nat)]"

theorem long_error_ends_the_session_witness:
  "wf_string long_error \<and> (\<exists>frame c dec. write_report (1, Failure long_error True) = Some frame \<and> co_db c = busy_db
     \<and> collect_event sample_collecting (\<lambda>_. quiet 20) (quiet 20) 20 20 (Chunk (frame @ [])) c
       = (False, flush_now sample_collecting (quiet 20) (c\<lparr>co_decoder := dec\<rparr>)))"
proof
  have codes: "map unat (as_bytes long_error) = replicate 65535 97 @ [195, 169]"
    by (simp add: long_error_def char_byte_def)
  show "wf_string long_error" unfolding wf_string_def codes utf8_valid_letters by (simp add: cont_def)
  have cut: "map unat (take MAX_ERROR_BYTES (as_bytes long_error)) = replicate 65535 97 @ [195]"
    unfolding take_map [symmetric] codes by (simp add: MAX_ERROR_BYTES_def)
  have e: "MAX_ERROR_BYTES < length long_error" "\<not> utf8_valid (map unat (take MAX_ERROR_BYTES (as_bytes long_error)))"
    unfolding cut utf8_valid_letters by (simp_all add: MAX_ERROR_BYTES_def long_error_def)
  obtain frame where frame: "write_report (1, Failure long_error True) = Some frame" by (simp add: encode_failure_framed)
  let ?c = "new_collector busy busy_db"
  have "wf_decoder (co_decoder ?c)" "pending_bytes (co_decoder ?c) = []" "co_db ?c = busy_db" by (simp_all add: new_collector_def)
  then show "\<exists>frame c dec. write_report (1, Failure long_error True) = Some frame \<and> co_db c = busy_db
     \<and> collect_event sample_collecting (\<lambda>_. quiet 20) (quiet 20) 20 20 (Chunk (frame @ [])) c
       = (False, flush_now sample_collecting (quiet 20) (c\<lparr>co_decoder := dec\<rparr>))"
    using long_error_ends_the_session [OF e frame, where c = ?c and g = sample_collecting and vs = "\<lambda>_. quiet 20" and v = "quiet 20" and t = 20 and inst = 20 and rest = "[]"]
      frame by blast
qed

end
