(* ===== verification/Session.thy ===== *)
theory Session
  imports Durable
begin

text \<open>
  One session of a worker with one child (\<open>session\<close> and \<open>dispatch\<close> of
  \<open>crates/gylo-worker/src/lib.rs\<close>): the dispatcher, the collector and the channel of confirmations
  between them, how the session ends, and what happens while it drains. The accepted connection, the
  spawned process and the clock are events.
\<close>

section \<open>State\<close>

definition DRAIN_TIMEOUT :: duration where "DRAIN_TIMEOUT = from_secs 30"

text \<open>
  The session dispatches, drains until an instant, waits for its collector to end, or is over. The
  channel holds what the collector handed over and the dispatcher has not written.
\<close>

datatype phase =
    Dispatching
  | Draining "(worker_error, unit) result" int
  | Closing "(worker_error, unit) result"
  | Over "(worker_error, unit) result"

record live_session =
  se_phase :: phase
  se_collector :: collector
  se_collecting :: bool
  se_channel :: "message list"
  se_sent :: bytes

definition new_session :: "in_flight \<Rightarrow> db \<Rightarrow> live_session" where
  "new_session fl d =
     \<lparr>se_phase = Dispatching, se_collector = new_collector fl d, se_collecting = True, se_channel = [], se_sent = []\<rparr>"

section \<open>Events\<close>

text \<open>
  \<open>Turn v ws\<close>: a turn of the dispatch loop in surroundings \<open>v\<close>, whose writes to the child go as \<open>ws\<close>
  says; \<open>Collected\<close>: the collector wakes; \<open>RenewTimer\<close>: the task that renews leases wakes, which
  stops for good at a shutdown; \<open>Exited\<close>: the child ends by itself; \<open>Shutdown\<close>: the dispatch loop returns
  because the token is cancelled; \<open>Poll\<close>: the drain loop looks again; \<open>Reaped\<close>: the child is killed and
  the collector reaches the end of the connection. A turn is one event: a token cancelled during it is seen
  when it ends, which is when the time left for draining starts to count. Renewals are allowed up to
  that moment, a few more than the task makes that stops with the token itself.
\<close>

datatype writes = Written | AcksFail string | JobsFail string

datatype session_event =
    Turn env writes
  | Collected moment event
  | RenewTimer env
  | Exited string last_words
  | Shutdown int
  | Poll int
  | Reaped moment

definition forward_acks :: "msgpack \<Rightarrow> message list \<Rightarrow> bytes" where
  "forward_acks mp ms = concat (map (\<lambda>m. forward_ack mp (Some m)) ms)"

definition turn_step ::
  "('tz, 'cron) collecting \<Rightarrow> (string \<Rightarrow> 'k::linorder) \<Rightarrow> env \<Rightarrow> writes \<Rightarrow> live_session \<Rightarrow> live_session"
where
  "turn_step g coll v ws s =
     (let mp = cg_pack g; c = se_collector s; acks = forward_acks mp (se_channel s) in
      case (if acks = [] then None else case ws of AcksFail e \<Rightarrow> Some e | _ \<Rightarrow> None) of
        Some e \<Rightarrow> s\<lparr>se_channel := [], se_phase := Closing (Inl (Io e))\<rparr>
      | None \<Rightarrow>
          let (t, fl, d) = dispatch_turn mp coll v (cg_config g) (cg_worker g) (co_flight c) (co_db c);
              s1 = s\<lparr>se_channel := [], se_collector := c\<lparr>co_flight := fl, co_db := d\<rparr>, se_sent := se_sent s @ acks\<rparr>
          in case t of
               Send out \<Rightarrow>
                 (case ws of
                    JobsFail e \<Rightarrow> s1\<lparr>se_phase := Closing (Inl (Io e))\<rparr>
                  | _ \<Rightarrow> s1\<lparr>se_sent := se_sent s @ acks @ out\<rparr>)
             | _ \<Rightarrow> s1)"

definition renewal_step :: "('tz, 'cron) collecting \<Rightarrow> env \<Rightarrow> live_session \<Rightarrow> live_session" where
  "renewal_step g v s =
     (let c = se_collector s in
      s\<lparr>se_collector := c\<lparr>co_db := renew_turn v (cg_config g) (cg_worker g) (co_flight c) (co_db c)\<rparr>\<rparr>)"

text \<open>The channel closes with the dispatcher: what is handed over after that is dropped.\<close>

definition collect_step :: "('tz, 'cron) collecting \<Rightarrow> moment \<Rightarrow> event \<Rightarrow> live_session \<Rightarrow> live_session" where
  "collect_step g m ev s =
     (if \<not> se_collecting s then s
      else
        let c = se_collector s;
            (going, c1) = collect_event g (mo_messages m) (mo_flush m) (mo_wall m) (mo_at m) ev c;
            fresh = drop (length (co_acks c)) (co_acks c1)
        in s\<lparr>se_collector := c1, se_collecting := going,
             se_channel := (if se_phase s = Dispatching then se_channel s @ fresh else se_channel s)\<rparr>)"

fun session_step ::
  "('tz, 'cron) collecting \<Rightarrow> (string \<Rightarrow> 'k::linorder) \<Rightarrow> session_event \<Rightarrow> live_session \<Rightarrow> live_session"
where
  "session_step g coll (Turn v ws) s = (if se_phase s = Dispatching then turn_step g coll v ws s else s)"
| "session_step g coll (RenewTimer v) s =
     (case se_phase s of Dispatching \<Rightarrow> renewal_step g v s | Closing (Inl _) \<Rightarrow> renewal_step g v s | _ \<Rightarrow> s)"
| "session_step g coll (Collected m ev) s = (case se_phase s of Over _ \<Rightarrow> s | _ \<Rightarrow> collect_step g m ev s)"
| "session_step g coll (Exited status said) s =
     (if se_phase s = Dispatching then s\<lparr>se_phase := Closing (Inl (exited status said)), se_channel := []\<rparr> else s)"
| "session_step g coll (Shutdown now) s =
     (if se_phase s = Dispatching then s\<lparr>se_phase := Draining (Inr ()) (now + int DRAIN_TIMEOUT), se_channel := []\<rparr> else s)"
| "session_step g coll (Poll now) s =
     (case se_phase s of
        Draining r deadline \<Rightarrow>
          if is_idle (co_flight (se_collector s)) \<or> deadline \<le> now then s\<lparr>se_phase := Closing r\<rparr> else s
      | _ \<Rightarrow> s)"
| "session_step g coll (Reaped m) s =
     (case se_phase s of Closing r \<Rightarrow> (collect_step g m Closed s)\<lparr>se_phase := Over r, se_collecting := False\<rparr> | _ \<Rightarrow> s)"

abbreviation session_run ::
  "('tz, 'cron) collecting \<Rightarrow> (string \<Rightarrow> 'k::linorder) \<Rightarrow> session_event list \<Rightarrow> live_session \<Rightarrow> live_session"
where
  "session_run g coll \<equiv> fold (session_step g coll)"

section \<open>What is written is durable\<close>

text \<open>The messages of a turn, whatever fails in it.\<close>

definition to_run :: "message list \<Rightarrow> bool" where
  "to_run ms \<longleftrightarrow> (\<forall>m \<in> set ms. is_dispatch m \<or> is_steps m)"

lemma prior_steps_writes: "\<exists>ms. fst (prior_steps mp coll v j out d) = encode_all mp ms out \<and> to_run ms"
proof -
  have "\<exists>ms. out = encode_all mp ms out \<and> to_run ms" by (rule exI [of _ "[]"]) (simp add: to_run_def)
  moreover have "\<exists>ms. snd (encode mp (Steps i found) out) = encode_all mp ms out \<and> to_run ms" for i found
    by (rule exI [of _ "[Steps i found]"]) (simp add: to_run_def)
  ultimately show ?thesis by (simp add: prior_steps_def prod.case_eq_if split: sum.split)
qed

lemma frame_job_writes: "\<exists>ms. fst (frame_job mp coll v w j s) = encode_all mp ms (fst s) \<and> to_run ms"
proof -
  obtain out reserved d where s: "s = (out, reserved, d)" by (cases s)
  obtain ms where ms: "fst (prior_steps mp coll v j out d) = encode_all mp ms out" "to_run ms"
    using prior_steps_writes by blast
  have "fst (frame_job mp coll v w j s) = encode_all mp (ms @ [dispatch_message j]) out"
    by (simp add: s frame_job_def prod.case_eq_if ms(1) encode_all_append split: sum.split)
  moreover have "to_run (ms @ [dispatch_message j])" using ms(2) by (simp add: to_run_def dispatch_message_def)
  ultimately show ?thesis by (auto simp: s)
qed

lemma frame_jobs_writes: "\<exists>ms. fst (frame_jobs mp coll v w js s) = encode_all mp ms (fst s) \<and> to_run ms"
proof (induction js arbitrary: v s)
  case Nil
  show ?case by (rule exI [of _ "[]"]) (simp add: to_run_def)
next
  case (Cons j js)
  obtain ms where ms: "fst (frame_job mp coll v w j s) = encode_all mp ms (fst s)" "to_run ms" using frame_job_writes by blast
  obtain ns where "fst (frame_jobs mp coll (shift 2 v) w js (frame_job mp coll v w j s)) = encode_all mp ns (encode_all mp ms (fst s))" "to_run ns"
    using Cons.IH [of "shift 2 v" "frame_job mp coll v w j s"] ms(1) by auto
  then show ?case using ms(2) by (intro exI [of _ "ms @ ns"]) (auto simp: encode_all_append to_run_def)
qed

lemma dispatch_turn_writes:
  assumes "dispatch_turn mp coll v cfg w fl d = (Send out, fl', d')"
  shows "\<exists>ms. out = encode_all mp ms [] \<and> to_run ms"
  using assms frame_jobs_writes [of mp coll "shift 3 v" w _ "([], [], _)"]
  by (auto simp: dispatch_turn_def prod.case_eq_if Let_def split: sum.splits if_splits)

text \<open>Confirmations only grow, and jobs only leave the in-flight set of a collector.\<close>

definition later :: "collector \<Rightarrow> collector \<Rightarrow> bool" where
  "later c c' \<longleftrightarrow> set (co_acks c) \<subseteq> set (co_acks c') \<and> set (held_now (co_flight c')) \<subseteq> set (held_now (co_flight c))"

lemma later_refl: "later c c"
  by (simp add: later_def)

lemma later_trans: "later c c1 \<Longrightarrow> later c1 c2 \<Longrightarrow> later c c2"
  by (auto simp: later_def)

lemma flush_now_later: "later c (flush_now g v c)"
  by (auto simp: later_def flush_now_def flush_def prod.case_eq_if release_def Let_def)

lemma handle_later: "later c (handle g v t inst m c)"
  by (cases m) (auto simp: later_def prod.case_eq_if split: sum.split)

lemma drain_later: "later c (snd (drain g vs t inst k c))"
proof (induction g vs t inst k c rule: drain.induct)
  case (1 g vs t inst k c)
  obtain r dec where m: "next_message (cg_pack g) (co_decoder c) = (r, dec)" by fastforce
  let ?c = "c\<lparr>co_decoder := dec\<rparr>"
  have c: "later c x" if "later ?c x" for x using that by (simp add: later_def)
  have "later ?c (snd (drain g vs t inst (Suc k) (handle g (vs k) t inst x ?c)))" if "r = Inr (Some x)" for x
    by (rule later_trans [OF handle_later "1.IH" [OF m [symmetric] that refl]])
  then show ?case
    using flush_now_later [of ?c] later_refl [of ?c]
    by (auto simp: drain.simps [of g vs t inst k c] m intro: c split: sum.split option.split)
qed

lemma collect_event_later: "later c (snd (collect_event g vs v t inst ev c))"
proof (cases ev)
  case (Chunk bs)
  let ?c = "c\<lparr>co_decoder := Protocol.extend (co_decoder c) bs\<rparr>"
  obtain going c1 where run: "drain g vs t inst 0 ?c = (going, c1)" by fastforce
  have "later ?c c1" using drain_later [of ?c g vs t inst 0] by (simp add: run)
  then have "later c c1" by (simp add: later_def)
  moreover have "later c ((flush_now g v c1)\<lparr>co_deadline := None\<rparr>)"
    using later_trans [OF \<open>later c c1\<close> flush_now_later [of c1 g v]] by (simp add: later_def)
  ultimately show ?thesis using flush_now_later [of c g v] by (simp add: collect_event_def Chunk run)
qed (use flush_now_later [of c g v] in \<open>simp_all add: collect_event_def later_def\<close>)

section \<open>A confirmation is never a lie\<close>

fun event_ok :: "session_event \<Rightarrow> bool" where
  "event_ok (Turn v ws) \<longleftrightarrow> orderly v"
| "event_ok (Collected m ev) \<longleftrightarrow> orderly_moment m"
| "event_ok (RenewTimer v) \<longleftrightarrow> orderly v"
| "event_ok (Reaped m) \<longleftrightarrow> orderly_moment m"
| "event_ok _ \<longleftrightarrow> True"

definition confirms :: "message list \<Rightarrow> collector \<Rightarrow> bool" where
  "confirms ms c \<longleftrightarrow> (\<forall>i name. Stored i name \<in> set ms \<longrightarrow> Stored i name \<in> set (co_acks c))"

definition told :: "msgpack \<Rightarrow> bytes \<Rightarrow> collector \<Rightarrow> bool" where
  "told mp bs c \<longleftrightarrow> (\<exists>ms. bs = encode_all mp ms [] \<and> confirms ms c)"

definition session_ok :: "('tz, 'cron) collecting \<Rightarrow> live_session \<Rightarrow> bool" where
  "session_ok g s \<longleftrightarrow> acks_kept (se_collector s) \<and> confirms (se_channel s) (se_collector s)
     \<and> told (cg_pack g) (se_sent s) (se_collector s)"

lemma confirms_later: "confirms ms c \<Longrightarrow> later c c' \<Longrightarrow> confirms ms c'"
  by (auto simp: confirms_def later_def)

lemma forward_acks_encode: "forward_acks mp ms = encode_all mp ms []"
proof -
  have "forward_ack mp (Some m) = (if encodable mp m then frame_of mp m else [])" for m
    by (auto simp: forward_ack_def encodable_def frame_of_def encode_reference split: sum.split)
  then show ?thesis unfolding encode_all_frames by (induction ms) (simp_all add: forward_acks_def)
qed

lemma encode_all_concat: "encode_all mp ms [] @ encode_all mp ns [] = encode_all mp (ms @ ns) []"
  by (simp add: encode_all_frames)

lemma collect_step_ok:
  assumes "orderly_moment m" "session_ok g s"
  shows "session_ok g (collect_step g m ev s)"
proof (cases "se_collecting s")
  case True
  let ?c = "se_collector s"
  obtain going c1 where run: "collect_event g (mo_messages m) (mo_flush m) (mo_wall m) (mo_at m) ev ?c = (going, c1)" by fastforce
  have later: "later ?c c1" using collect_event_later [of ?c g] by (metis run snd_conv)
  have "acks_kept (snd (collect_event g (mo_messages m) (mo_flush m) (mo_wall m) (mo_at m) ev ?c))"
    using assms by (intro collect_event_acks_kept) (simp_all add: session_ok_def orderly_moment_def)
  then have kept: "acks_kept c1" by (simp add: run)
  have "confirms (drop n (co_acks c1)) c1" for n by (auto simp: confirms_def dest: in_set_dropD)
  moreover have "confirms (se_channel s) c1" "confirms ms ?c \<Longrightarrow> confirms ms c1" for ms
    using assms(2) confirms_later [OF _ later] by (simp_all add: session_ok_def)
  ultimately show ?thesis
    using assms(2) kept True unfolding session_ok_def collect_step_def run Let_def by (auto simp: confirms_def told_def)
qed (use assms(2) in \<open>simp add: collect_step_def\<close>)

lemma turn_step_ok:
  assumes "orderly v" "session_ok g s"
  shows "session_ok g (turn_step g coll v ws s)"
proof -
  let ?mp = "cg_pack g" and ?c = "se_collector s" and ?acks = "forward_acks (cg_pack g) (se_channel s)"
  obtain ms where ms: "se_sent s = encode_all ?mp ms []" "confirms ms ?c" "acks_kept ?c" "confirms (se_channel s) ?c"
    using assms(2) by (auto simp: session_ok_def told_def)
  obtain t fl d where turn: "dispatch_turn ?mp coll v (cg_config g) (cg_worker g) (co_flight ?c) (co_db ?c) = (t, fl, d)"
    using prod_cases3 by blast
  let ?c1 = "?c\<lparr>co_flight := fl, co_db := d\<rparr>"
  have "db_steps (co_db ?c) d"
    using dispatch_turn_steps [OF assms(1), of "co_db ?c" ?mp coll "cg_config g" "cg_worker g" "co_flight ?c"] by (simp add: turn)
  then have kept: "acks_kept ?c1" using acks_kept_steps [OF ms(3)] by simp
  have acks: "se_sent s @ ?acks = encode_all ?mp (ms @ se_channel s) []" "confirms (ms @ se_channel s) ?c1" "confirms [] x" for x
    using ms(2,4) by (simp_all add: ms(1) forward_acks_encode encode_all_concat) (auto simp: confirms_def)
  have "told ?mp (se_sent s @ ?acks @ out) ?c1" if h: "t = Send out" for out
  proof -
    obtain ns where ns: "out = encode_all ?mp ns []" "to_run ns" using dispatch_turn_writes turn h by metis
    then have "se_sent s @ ?acks @ out = encode_all ?mp ((ms @ se_channel s) @ ns) []"
      using acks(1) encode_all_concat [of ?mp "ms @ se_channel s" ns] by (metis append.assoc)
    moreover have "confirms ((ms @ se_channel s) @ ns) ?c1" using acks(2) ns(2) by (fastforce simp: confirms_def to_run_def)
    ultimately show ?thesis unfolding told_def by blast
  qed
  moreover have "told ?mp (se_sent s @ ?acks) ?c1" unfolding told_def using acks(1,2) by blast
  ultimately show ?thesis
    using assms(2) kept acks(3) unfolding session_ok_def turn_step_def Let_def turn
    by (cases "?acks = []") (simp_all split: turn.split writes.split option.split)
qed

lemma renewal_step_ok:
  assumes "orderly v" "session_ok g s"
  shows "session_ok g (renewal_step g v s)"
proof -
  let ?c = "se_collector s"
  have "acks_kept (?c\<lparr>co_db := renew_turn v (cg_config g) (cg_worker g) (co_flight ?c) (co_db ?c)\<rparr>)"
    using assms acks_kept_steps [of ?c] renew_turn_steps [OF assms(1)] by (simp add: session_ok_def)
  then show ?thesis using assms(2) by (auto simp: session_ok_def renewal_step_def confirms_def told_def Let_def)
qed

lemma session_ok_fields [simp]:
  "session_ok g (s\<lparr>se_phase := p\<rparr>) = session_ok g s" "session_ok g (s\<lparr>se_collecting := b\<rparr>) = session_ok g s"
  "session_ok g s \<Longrightarrow> session_ok g (s\<lparr>se_channel := []\<rparr>)"
  by (simp_all add: session_ok_def confirms_def told_def)

lemma session_step_ok: "event_ok e \<Longrightarrow> session_ok g s \<Longrightarrow> session_ok g (session_step g coll e s)"
  by (cases e) (auto simp: turn_step_ok collect_step_ok renewal_step_ok split: phase.split sum.split)

definition session_starts :: "live_session \<Rightarrow> bool" where
  "session_starts s \<longleftrightarrow> (\<exists>fl d. db_inv d \<and> s = new_session fl d)"

definition session_moves ::
  "('tz, 'cron) collecting \<Rightarrow> (string \<Rightarrow> 'k::linorder) \<Rightarrow> live_session \<Rightarrow> live_session \<Rightarrow> bool"
where
  "session_moves g coll s s' \<longleftrightarrow> (\<exists>e. event_ok e \<and> s' = session_step g coll e s)"

interpretation sessions: inductive_invariant session_starts "session_moves g coll" "session_ok g" for g coll
proof unfold_locales
  have "told mp [] c" for mp c unfolding told_def by (rule exI [of _ "[]"]) (simp add: confirms_def)
  then have "db_inv d \<Longrightarrow> session_ok g (new_session fl d)" for fl d
    by (simp add: session_ok_def new_session_def acks_kept_def new_collector_def confirms_def)
  then show "session_ok g s" if "session_starts s" for s using that unfolding session_starts_def by blast
  show "session_ok g t" if h: "session_ok g s" "session_moves g coll s t" for s t
  proof -
    obtain e where e: "event_ok e" "t = session_step g coll e s" using h(2) unfolding session_moves_def by (elim exE conjE)
    show ?thesis unfolding e(2) by (rule session_step_ok [OF e(1) h(1)])
  qed
qed

lemma session_run_reach:
  assumes "reach session_starts (session_moves g coll) s" "\<forall>e \<in> set evs. event_ok e"
  shows "reach session_starts (session_moves g coll) (session_run g coll evs s)"
  using assms
proof (induction evs arbitrary: s)
  case (Cons e evs)
  have "session_moves g coll s (session_step g coll e s)"
    unfolding session_moves_def by (rule exI [of _ e]) (use Cons.prems(2) in simp)
  from Cons.IH [OF reach_step [OF Cons.prems(1) this]] Cons.prems(2) show ?case by simp
qed simp

text \<open>
  C7: A confirmation is never a lie. Whatever happens in a session - turns of dispatching, reads and
  timers of the collector, failed statements and writes, a child that dies, a shutdown, and other
  sessions at work on the same database - what has been written to the child is the frames of a
  list of messages, and every step that one of them confirms is a row of the database, or its job
  is gone.
\<close>

theorem session_confirms_only_stored_steps:
  assumes "db_inv d" "\<forall>e \<in> set evs. event_ok e" "s = session_run g coll evs (new_session fl d)"
  shows "db_inv (co_db (se_collector s)) \<and> (\<exists>ms. se_sent s = encode_all (cg_pack g) ms []
    \<and> (\<forall>i name. Stored i name \<in> set ms \<longrightarrow> confirmed i name (co_db (se_collector s))))"
proof -
  have "reach session_starts (session_moves g coll) (new_session fl d)"
    by (rule reach_init) (use assms(1) in \<open>auto simp: session_starts_def\<close>)
  from sessions.reach_inv [OF session_run_reach [OF this assms(2)]] show ?thesis
    unfolding assms(3) session_ok_def acks_kept_def confirms_def told_def by blast
qed

text \<open>A child records a step, and the next turn of the dispatcher confirms it.\<close>

definition charge_events :: "session_event list" where
  "charge_events = [Collected (quiet_moment 20) (Chunk (frame_of unary_pack (Record 1 ''charge'' [9])))]"

lemma collect_one: "snd (collect_event g (mo_messages m) (mo_flush m) (mo_wall m) (mo_at m) ev c) = collect g [(m, ev)] c"
  by (simp add: prod.case_eq_if)

lemma charge_sendable: "sendable unary_pack (Record 1 ''charge'' [9])"
  using step_frames_encodable(1) by (simp add: sendable_def unary_pack_ok wf_string_def char_byte_def)

lemma charge_collect_step:
  assumes "se_collector s = new_collector busy durable_db" "se_collecting s"
    and "s1 = collect_step sample_collecting (quiet_moment 20) (Chunk (frame_of unary_pack (Record 1 ''charge'' [9]))) s"
  shows "co_db (se_collector s1) = charged_db" "co_flight (se_collector s1) = busy"
    "se_channel s1 = (if se_phase s = Dispatching then se_channel s @ [Stored 1 ''charge''] else se_channel s)"
proof -
  let ?ev = "Chunk (frame_of unary_pack (Record 1 ''charge'' [9]))" and ?m = "quiet_moment 20"
  obtain going c1 where run: "collect_event sample_collecting (mo_messages ?m) (mo_flush ?m) (mo_wall ?m) (mo_at ?m) ?ev (se_collector s) = (going, c1)" by fastforce
  then have "c1 = collect sample_collecting [(?m, ?ev)] (new_collector busy durable_db)"
    using collect_one [of sample_collecting ?m ?ev "se_collector s"] by (simp only: run snd_conv assms(1))
  from charge_collected [OF charge_sendable this] show "co_db (se_collector s1) = charged_db" "co_flight (se_collector s1) = busy"
    "se_channel s1 = (if se_phase s = Dispatching then se_channel s @ [Stored 1 ''charge''] else se_channel s)"
    using assms(2) run assms(1) by (simp_all add: assms(3) collect_step_def new_collector_def)
qed

theorem session_confirms_only_stored_steps_witness:
  "\<exists>s ms. s = session_run sample_collecting length (charge_events @ [Turn (quiet 30) Written]) (new_session busy durable_db)
     \<and> se_sent s = encode_all unary_pack ms [] \<and> (\<forall>i name. Stored i name \<in> set ms \<longrightarrow> confirmed i name (co_db (se_collector s)))"
proof -
  have "\<forall>e \<in> set (charge_events @ [Turn (quiet 30) Written]). event_ok e"
    by (simp add: charge_events_def orderly_moment_def quiet_moment_def)
  from session_confirms_only_stored_steps [OF durable_db_inv this refl, of sample_collecting length busy] show ?thesis
    by (auto simp: sample_collecting_def)
qed

section \<open>Draining\<close>

text \<open>Once it has stopped dispatching a session writes nothing more, and jobs only leave it.\<close>

definition winds_down :: "live_session \<Rightarrow> live_session \<Rightarrow> bool" where
  "winds_down s s' \<longleftrightarrow> se_phase s' \<noteq> Dispatching \<and> se_sent s' = se_sent s
     \<and> set (held_now (co_flight (se_collector s'))) \<subseteq> set (held_now (co_flight (se_collector s)))"

lemma collect_step_winds_down:
  assumes "se_phase s \<noteq> Dispatching"
  shows "winds_down s (collect_step g m ev s) \<and> se_phase (collect_step g m ev s) = se_phase s"
proof -
  let ?c = "se_collector s"
  obtain going c1 where run: "collect_event g (mo_messages m) (mo_flush m) (mo_wall m) (mo_at m) ev ?c = (going, c1)" by fastforce
  have "later ?c c1" using collect_event_later [of ?c g] by (metis run snd_conv)
  then show ?thesis using assms by (simp add: winds_down_def collect_step_def run later_def)
qed

lemma session_step_winds_down:
  assumes "se_phase s \<noteq> Dispatching"
  shows "winds_down s (session_step g coll e s)"
proof (cases e)
  case (Collected m ev)
  then show ?thesis using collect_step_winds_down [OF assms, of g m ev] assms by (auto simp: winds_down_def split: phase.split)
next
  case (Reaped m)
  then show ?thesis using collect_step_winds_down [OF assms, of g m Closed] assms by (simp add: winds_down_def split: phase.split)
next
  case (RenewTimer v)
  then show ?thesis using assms by (simp add: winds_down_def renewal_step_def Let_def split: phase.split sum.split)
qed (use assms in \<open>simp_all add: winds_down_def split: phase.split\<close>)

lemma session_run_winds_down: "se_phase s \<noteq> Dispatching \<Longrightarrow> winds_down s (session_run g coll evs s)"
proof (induction evs arbitrary: s)
  case (Cons e evs)
  have "winds_down s (session_step g coll e s)" by (rule session_step_winds_down [OF Cons.prems])
  moreover from this have "winds_down (session_step g coll e s) (session_run g coll evs (session_step g coll e s))"
    by (intro Cons.IH) (simp add: winds_down_def)
  ultimately show ?case by (auto simp: winds_down_def)
qed (simp add: winds_down_def)

lemma draining_until:
  assumes "se_phase s = Draining r deadline" "held_now (co_flight (se_collector (session_run g coll evs s))) \<noteq> []"
    and "\<forall>now. Poll now \<in> set evs \<longrightarrow> now < deadline"
  shows "se_phase (session_run g coll evs s) = Draining r deadline"
  using assms
proof (induction evs arbitrary: s)
  case (Cons e evs)
  have ph: "se_phase s \<noteq> Dispatching" using Cons.prems(1) by simp
  have "winds_down s (session_run g coll (e # evs) s)" by (rule session_run_winds_down [OF ph])
  then have "held_now (co_flight (se_collector s)) \<noteq> []" using Cons.prems(2) by (auto simp: winds_down_def)
  then have "se_phase (session_step g coll e s) = Draining r deadline"
    using Cons.prems(1,3) collect_step_winds_down [OF ph] by (cases e) (auto simp: is_idle_def held_count_def)
  then show ?case using Cons.IH [of "session_step g coll e s"] Cons.prems(2,3) by simp
qed simp

text \<open>
  C38: A worker that drains confirms no step. From the moment of the shutdown on, nothing is written
  to the child, whatever the collector reads: a job that records a step while the worker drains has
  it stored, but is never told, and waits. As long as such a job is in flight, the drain lasts
  until its deadline, thirty seconds after the shutdown.
\<close>

theorem draining_worker_confirms_nothing:
  assumes "se_phase s = Dispatching" "s1 = session_step g coll (Shutdown now) s" "s2 = session_run g coll evs s1"
  shows "se_sent s2 = se_sent s
    \<and> (held_now (co_flight (se_collector s2)) \<noteq> [] \<and> (\<forall>t. Poll t \<in> set evs \<longrightarrow> t < now + 30000000)
        \<longrightarrow> se_phase s2 = Draining (Inr ()) (now + 30000000))"
proof -
  have s1: "se_phase s1 = Draining (Inr ()) (now + 30000000)" "se_sent s1 = se_sent s"
    using assms(1,2) by (simp_all add: DRAIN_TIMEOUT_def)
  then show ?thesis
    using session_run_winds_down [of s1 g coll evs] draining_until [OF s1(1), of g coll evs]
    by (auto simp: assms(3) winds_down_def)
qed

lemma charge_run:
  "se_phase s = Draining r deadline \<Longrightarrow> session_run g coll charge_events s
     = collect_step g (quiet_moment 20) (Chunk (frame_of unary_pack (Record 1 ''charge'' [9]))) s"
  by (simp add: charge_events_def)

theorem draining_worker_confirms_nothing_witness:
  "\<exists>s2. s2 = session_run sample_collecting length (charge_events @ [Poll 1000]) (session_step sample_collecting length (Shutdown 10) (new_session busy durable_db))
     \<and> co_db (se_collector s2) = charged_db \<and> se_sent s2 = [] \<and> se_phase s2 = Draining (Inr ()) 30000010"
proof -
  let ?s = "new_session busy durable_db" and ?g = sample_collecting
  let ?s1 = "session_step ?g length (Shutdown 10) ?s" and ?evs = "charge_events @ [Poll 1000]"
  have "se_phase ?s = Dispatching" "se_sent ?s = []" by (simp_all add: new_session_def)
  note all = draining_worker_confirms_nothing [OF this(1) refl refl, where g = ?g and coll = length and now = 10 and evs = ?evs] this(2)
  have s1: "se_collector ?s1 = new_collector busy durable_db" "se_collecting ?s1" "se_phase ?s1 = Draining (Inr ()) 30000010"
    by (simp_all add: new_session_def DRAIN_TIMEOUT_def)
  note one = charge_collect_step [OF s1(1,2) refl]
  have step: "session_run ?g length charge_events ?s1
      = collect_step ?g (quiet_moment 20) (Chunk (frame_of unary_pack (Record 1 ''charge'' [9]))) ?s1"
    by (rule charge_run [OF s1(3)])
  have busy: "held_now busy = [1]" by (simp add: busy_def reserve_def new_in_flight_def)
  have poll: "se_collector (session_step ?g length (Poll 1000) x) = se_collector x" for x by (simp split: phase.split)
  have c: "co_db (se_collector (session_run ?g length ?evs ?s1)) = charged_db" "co_flight (se_collector (session_run ?g length ?evs ?s1)) = busy"
    using one(1,2) by (simp_all only: fold_append comp_def step fold.simps id_def poll)
  have "\<forall>t. Poll t \<in> set ?evs \<longrightarrow> t < 10 + 30000000" by (simp add: charge_events_def)
  with all c(2) busy have "se_sent (session_run ?g length ?evs ?s1) = [] \<and> se_phase (session_run ?g length ?evs ?s1) = Draining (Inr ()) 30000010"
    by simp
  then show ?thesis using c(1) by blast
qed

lemma renewals_while_draining: "se_phase s = Draining r deadline \<Longrightarrow> session_run g coll (map RenewTimer vs) s = s"
  by (induction vs) simp_all

text \<open>
  C39: A drain can outlast the leases it waits for. A shutdown ends the renewal of leases along with
  the dispatching, however often it is due after that. With a lease no longer than the drain, as the
  default is, a job leased or renewed before the shutdown loses its lease while the worker still
  waits for it: the sweep of another worker at that moment makes it available again although it runs.
\<close>

theorem lease_runs_out_while_draining:
  assumes "se_phase s = Dispatching" "s1 = session_run g coll (Shutdown now # map RenewTimer vs) s"
    and "d = co_db (se_collector s)" "db_wf d" "r \<in> set (jobs d)" "state r = Running" "sint (attempt r) < sint (max_attempts r)"
    and "lease_expires_at r = Some (t + int (cfg_lease (cg_config g)))" "cfg_lease (cg_config g) \<le> 30000000" "t + 1 < now"
    and "reclaim_expired limit at_sweep d = (Inr n, d')" "int (length (jobs d)) \<le> limit" "at_sweep = t + int (cfg_lease (cg_config g)) + 1"
  shows "se_phase s1 = Draining (Inr ()) (now + 30000000) \<and> at_sweep < now + 30000000
    \<and> co_db (se_collector s1) = d \<and> co_flight (se_collector s1) = co_flight (se_collector s)
    \<and> (\<exists>r' \<in> set (jobs d'). row_id r' = row_id r \<and> state r' = Available \<and> locked_by r' = None)"
proof -
  let ?s = "s\<lparr>se_phase := Draining (Inr ()) (now + 30000000), se_channel := []\<rparr>"
  have "s1 = session_run g coll (map RenewTimer vs) ?s" using assms(1) by (simp add: assms(2) DRAIN_TIMEOUT_def)
  then have s1: "s1 = ?s" using renewals_while_draining [of ?s "Inr ()" "now + 30000000" g coll vs] by simp
  have "int (length (filter (lease_expired at_sweep) (jobs d))) \<le> limit"
    using assms(12) length_filter_le [of "lease_expired at_sweep" "jobs d"] by linarith
  note exp = expired_rows_all [OF this]
  have "lease_expired at_sweep r" using assms(6,8,13) by (simp add: lease_expired_def)
  then have "reclaim_row at_sweep r \<in> set (jobs d')"
    using assms(5) by (force simp: reclaim_expired_jobs(1) [OF assms(4,11)] exp)
  moreover have "state (reclaim_row at_sweep r) = Available" "locked_by (reclaim_row at_sweep r) = None" "row_id (reclaim_row at_sweep r) = row_id r"
    using assms(7) by simp_all
  ultimately show ?thesis using s1 assms(3,9,10,13) by (auto intro!: bexI [of _ "reclaim_row at_sweep r"])
qed

theorem lease_runs_out_while_draining_witness:
  "\<exists>s1 n d'. s1 = session_run (sample_collecting\<lparr>cg_config := sample_config\<rparr>) length [Shutdown 10000000, RenewTimer (quiet 20000000)] (new_session busy busy_db)
     \<and> reclaim_expired 10 30000001 busy_db = (Inr n, d') \<and> se_phase s1 = Draining (Inr ()) 40000000
     \<and> (\<exists>r' \<in> set (jobs d'). row_id r' = 1 \<and> state r' = Available)"
proof -
  have "map_sum id rc_released (fst (reclaim_expired 10 30000001 busy_db)) = Inr 1" by code_simp
  then obtain n where n: "reclaim_expired 10 30000001 busy_db = (Inr n, snd (reclaim_expired 10 30000001 busy_db))" by (rule ok_pair)
  have row: "busy_row \<in> set (jobs busy_db)" "state busy_row = Running" "sint (attempt busy_row) < sint (max_attempts busy_row)"
    "lease_expires_at busy_row = Some (0 + int (cfg_lease sample_config))" "cfg_lease sample_config = 30000000" "row_id busy_row = 1" "length (jobs busy_db) = 1"
    by (simp_all add: busy_simps) (simp_all add: busy_row_def leased_row_def sample_config_def default_config_def)
  have wf: "db_wf busy_db" using busy_db_inv by (simp add: db_inv_def)
  have "se_phase (new_session busy busy_db) = Dispatching" "busy_db = co_db (se_collector (new_session busy busy_db))"
    by (simp_all add: new_session_def new_collector_def)
  from lease_runs_out_while_draining [OF this(1) refl this(2) wf row(1-3) _ _ _ n, where g = "sample_collecting\<lparr>cg_config := sample_config\<rparr>" and t = 0
      and now = 10000000 and vs = "[quiet 20000000]" and coll = length] row n
  show ?thesis by auto
qed

end
