(* ===== verification/Adapters.thy ===== *)
theory Adapters
  imports Statements Delivery
begin

text \<open>
  The drivers of the Python client (\<open>python/gylo/_adapters.py\<close>): which adapter a connection gets, the
  placeholders of the statements it sends, and what each of its methods does to the database. A
  connection is seen through the attributes that \<open>resolve\<close> reads, and whether a batch sent on it is
  one transaction. Every statement but the one for the nodes of a workflow has the placeholders its
  parameters need, so the adapters do the same to the database.
\<close>

section \<open>Connections\<close>

text \<open>
  The module of the class of a connection, the modules of its base classes in order, whether
  \<open>execute\<close> is a coroutine function, the attributes \<open>sync_connection\<close>, \<open>connection\<close> and
  \<open>driver_connection\<close>, and whether \<open>executemany\<close> on it runs as one transaction. The last is so
  for every connection of \<open>asyncpg\<close>; one of \<open>psycopg\<close> that commits each statement and cannot pipeline
  commits a batch row by row.
\<close>

datatype conn = Conn (cn_module: string) (cn_bases: "string list") (cn_coroutine: bool)
  (cn_sync: "conn option") (cn_connection: "conn option") (cn_driver: "conn option")
  (cn_whole: bool)

datatype adapter = AsyncpgAdapter | PsycopgAdapter | SyncPsycopgAdapter

datatype driver_error = UnsupportedDriver string | WrongConnection bool

fun IS_ASYNC :: "adapter \<Rightarrow> bool" where
  "IS_ASYNC SyncPsycopgAdapter = False"
| "IS_ASYNC _ = True"

fun numbered_marks :: "adapter \<Rightarrow> bool" where
  "numbered_marks AsyncpgAdapter = True"
| "numbered_marks _ = False"

definition root_module :: "string \<Rightarrow> string" where
  "root_module m = takeWhile (\<lambda>c. c \<noteq> CHR ''.'') m"

definition psycopg_flavour :: "conn \<Rightarrow> adapter" where
  "psycopg_flavour c = (if cn_coroutine c then PsycopgAdapter else SyncPsycopgAdapter)"

definition unwrap :: "conn \<Rightarrow> conn" where
  "unwrap c =
     (let root = root_module (cn_module c) in
      if root = ''sqlalchemy'' then
        (let sync = (case cn_sync c of Some s \<Rightarrow> s | None \<Rightarrow> c) in
         case cn_connection sync of
           None \<Rightarrow> c
         | Some fairy \<Rightarrow> (case cn_driver fairy of None \<Rightarrow> c | Some driver \<Rightarrow> driver))
      else if root = ''django'' then (case cn_connection c of None \<Rightarrow> c | Some driver \<Rightarrow> driver)
      else c)"

fun adapter_of :: "conn \<Rightarrow> string list \<Rightarrow> adapter option" where
  "adapter_of c [] = None"
| "adapter_of c (m # ms) =
     (if root_module m = ''asyncpg'' then Some AsyncpgAdapter
      else if root_module m = ''psycopg'' then Some (psycopg_flavour c)
      else adapter_of c ms)"

definition resolve_conn :: "conn \<Rightarrow> (driver_error, adapter \<times> conn) result" where
  "resolve_conn c0 =
     (let c = unwrap c0 in
      case adapter_of c (cn_module c # cn_bases c) of
        None \<Rightarrow> Inl (UnsupportedDriver (cn_module c))
      | Some a \<Rightarrow> Inr (a, c))"

definition async_adapter :: "conn \<Rightarrow> (driver_error, adapter \<times> conn) result" where
  "async_adapter c =
     (case resolve_conn c of
        Inl e \<Rightarrow> Inl e
      | Inr (a, c') \<Rightarrow> if \<not> IS_ASYNC a then Inl (WrongConnection False) else Inr (a, c'))"

definition sync_adapter :: "conn \<Rightarrow> (driver_error, adapter \<times> conn) result" where
  "sync_adapter c =
     (case resolve_conn c of
        Inl e \<Rightarrow> Inl e
      | Inr (a, c') \<Rightarrow> if IS_ASYNC a then Inl (WrongConnection True) else Inr (a, c'))"

section \<open>Statements\<close>

text \<open>The placeholders of each statement in the order of its text.\<close>

record statement_marks =
  sm_insert :: "mark list"
  sm_insert_unique :: "mark list"
  sm_insert_many_unique :: "mark list"
  sm_outcome :: "mark list"
  sm_cancel :: "mark list"

definition statement_marks_of :: "mark list \<Rightarrow> statement_marks" where
  "statement_marks_of marks =
     (let values = take n_columns marks;
          key_mark = marks ! n_columns;
          tail = (if n_columns + 1 < length marks then marks ! (n_columns + 1) else key_mark)
      in \<lparr>sm_insert = values, sm_insert_unique = values @ [key_mark] @ [tail],
          sm_insert_many_unique = values @ [key_mark], sm_outcome = [marks ! 0], sm_cancel = [marks ! 0]\<rparr>)"

definition adapter_marks :: "adapter \<Rightarrow> statement_marks" where
  "adapter_marks a =
     statement_marks_of
       (if numbered_marks a then map Numbered [1 ..< n_columns + 2] else replicate (n_columns + 2) Positional)"

text \<open>A row as \<open>BoundTask._row\<close> builds it: the columns of \<open>_COLUMNS\<close>, and the key of a unique job.\<close>

record call_row =
  cr_queue :: string
  cr_task :: string
  cr_payload :: bytes
  cr_priority :: int
  cr_max_attempts :: int
  cr_delay :: duration
  cr_concurrency_key :: "string option"
  cr_max_concurrency :: "int option"
  cr_durable :: bool
  cr_unique :: "bytes option"

definition row_params :: "call_row \<Rightarrow> nat" where
  "row_params r = n_columns + (case cr_unique r of None \<Rightarrow> 0 | Some _ \<Rightarrow> 1)"

text \<open>Integers of Python have no width; the columns have one.\<close>

definition numbers_fit :: "call_row \<Rightarrow> bool" where
  "numbers_fit r \<longleftrightarrow>
     - (2 ^ 15) \<le> cr_priority r \<and> cr_priority r < 2 ^ 15
   \<and> - (2 ^ 15) \<le> cr_max_attempts r \<and> cr_max_attempts r < 2 ^ 15
   \<and> (case cr_max_concurrency r of None \<Rightarrow> True | Some n \<Rightarrow> - (2 ^ 31) \<le> n \<and> n < 2 ^ 31)"

definition inserted_row :: "int \<Rightarrow> call_row \<Rightarrow> job_row" where
  "inserted_row now r =
     (default_row now (cr_queue r) (cr_task r) (cr_payload r))
       \<lparr>priority := word_of_int (cr_priority r), max_attempts := word_of_int (cr_max_attempts r),
        scheduled_at := At (now + int (cr_delay r)), concurrency_key := cr_concurrency_key r,
        max_concurrency := map_option word_of_int (cr_max_concurrency r), durable := cr_durable r,
        unique_key := cr_unique r\<rparr>"

definition row_texts :: "call_row \<Rightarrow> string list" where
  "row_texts r = [cr_queue r, cr_task r] @ (case cr_concurrency_key r of None \<Rightarrow> [] | Some k \<Rightarrow> [k])"

text \<open>
  A driver refuses a statement whose parameters do not match its placeholders. A number its column
  cannot hold is refused by \<open>asyncpg\<close>, which encodes it for the type of the column, and by the server
  for \<open>psycopg\<close>, which sends it; the rest is the server's.
\<close>

definition unfit :: "adapter \<Rightarrow> py_error" where
  "unfit a = (if numbered_marks a then Driver else Pg (Database NumericOutOfRange))"

definition on_driver :: "adapter \<Rightarrow> mark list \<Rightarrow> nat \<Rightarrow> bool \<Rightarrow> 'a op \<Rightarrow> db \<Rightarrow> (py_error, 'a) result \<times> db" where
  "on_driver a marks n fits stmt d =
     (if \<not> driver_accepts (numbered_marks a) marks n then (Inl Driver, d)
      else if \<not> fits then (Inl (unfit a), d)
      else apfst (map_sum Pg id) (stmt d))"

definition insert_stmt :: "int \<Rightarrow> call_row \<Rightarrow> i64 op" where
  "insert_stmt now r = bind_text (row_texts r) (insert_job now (inserted_row now r))"

definition insert_unique_stmt :: "int \<Rightarrow> call_row \<Rightarrow> i64 op" where
  "insert_unique_stmt now r =
     (case cr_unique r of
        None \<Rightarrow> insert_stmt now r
      | Some key \<Rightarrow> bind_text (row_texts r) (insert_unless_live now (inserted_row now r) key))"

definition adapter_insert :: "adapter \<Rightarrow> int \<Rightarrow> call_row \<Rightarrow> db \<Rightarrow> (py_error, i64) result \<times> db" where
  "adapter_insert a now r = on_driver a (sm_insert (adapter_marks a)) (row_params r) (numbers_fit r) (insert_stmt now r)"

text \<open>Positional placeholders need the key a second time: \<open>(*params, params[-1])\<close>.\<close>

definition adapter_insert_unique :: "adapter \<Rightarrow> int \<Rightarrow> call_row \<Rightarrow> db \<Rightarrow> (py_error, i64) result \<times> db" where
  "adapter_insert_unique a now r =
     on_driver a (sm_insert_unique (adapter_marks a)) (row_params r + (if numbered_marks a then 0 else 1))
       (numbers_fit r) (insert_unique_stmt now r)"

text \<open>
  \<open>executemany\<close>: the rows in order until one fails. When the batch is one transaction, all of them or
  none are stored, but for the identifiers drawn; when each row commits by itself, those before the
  failure stay. The identifier of a live job with the same key is not asked for.
\<close>

fun insert_each :: "(call_row \<Rightarrow> db \<Rightarrow> (py_error, i64) result \<times> db) \<Rightarrow> call_row list \<Rightarrow> db \<Rightarrow> (py_error, unit) result \<times> db" where
  "insert_each one [] d = (Inr (), d)"
| "insert_each one (r # rs) d =
     (case one r d of (Inl e, d') \<Rightarrow> (Inl e, d') | (Inr _, d') \<Rightarrow> insert_each one rs d')"

definition adapter_insert_many :: "adapter \<Rightarrow> bool \<Rightarrow> int \<Rightarrow> bool \<Rightarrow> call_row list \<Rightarrow> db \<Rightarrow> (py_error, unit) result \<times> db" where
  "adapter_insert_many a whole now unique rows d =
     (let marks = (if unique then sm_insert_many_unique (adapter_marks a) else sm_insert (adapter_marks a));
          stmt = (if unique then insert_unique_stmt now else insert_stmt now)
      in case insert_each (\<lambda>r. on_driver a marks (row_params r) (numbers_fit r) (stmt r)) rows d of
           (Inl e, d') \<Rightarrow> (Inl e, if numbered_marks a \<or> whole then rolled_back d d' else d')
         | (Inr u, d') \<Rightarrow> (Inr u, d'))"

definition adapter_outcome :: "adapter \<Rightarrow> i64 \<Rightarrow> db \<Rightarrow> (py_error, job_outcome option) result \<times> db" where
  "adapter_outcome a i = on_driver a (sm_outcome (adapter_marks a)) 1 True (outcome_of i)"

definition adapter_cancel :: "adapter \<Rightarrow> int \<Rightarrow> i64 list \<Rightarrow> db \<Rightarrow> (py_error, nat) result \<times> db" where
  "adapter_cancel a now ids = on_driver a (sm_cancel (adapter_marks a)) 1 True (cancel now ids)"

section \<open>The adapters agree\<close>

lemma adapter_accepts:
  "driver_accepts (numbered_marks a) (sm_insert (adapter_marks a)) n \<longleftrightarrow> n = 9"
  "driver_accepts (numbered_marks a) (sm_insert_unique (adapter_marks a)) n \<longleftrightarrow> n = (if numbered_marks a then 10 else 11)"
  "driver_accepts (numbered_marks a) (sm_insert_many_unique (adapter_marks a)) n \<longleftrightarrow> n = 10"
  "driver_accepts (numbered_marks a) (sm_outcome (adapter_marks a)) n \<longleftrightarrow> n = 1"
  "driver_accepts (numbered_marks a) (sm_cancel (adapter_marks a)) n \<longleftrightarrow> n = 1"
  by (cases "numbered_marks a"; simp add: driver_accepts_def adapter_marks_def statement_marks_of_def n_columns_def
      upt_rec numeral_eq_Suc Let_def)+

definition sent :: "adapter \<Rightarrow> bool \<Rightarrow> 'a op \<Rightarrow> db \<Rightarrow> (py_error, 'a) result \<times> db" where
  "sent a fits stmt d = (if fits then apfst (map_sum Pg id) (stmt d) else (Inl (unfit a), d))"

lemma adapter_sends:
  "cr_unique r = None \<Longrightarrow> adapter_insert a now r = sent a (numbers_fit r) (insert_stmt now r)"
  "cr_unique r = Some key \<Longrightarrow> adapter_insert_unique a now r = sent a (numbers_fit r) (insert_unique_stmt now r)"
  "adapter_outcome a i = sent a True (outcome_of i)"
  "adapter_cancel a now ids = sent a True (cancel now ids)"
  by (simp_all add: adapter_insert_def adapter_insert_unique_def adapter_outcome_def adapter_cancel_def on_driver_def
      sent_def adapter_accepts row_params_def n_columns_def fun_eq_iff)

lemma insert_each_cong:
  assumes "\<And>r. r \<in> set rows \<Longrightarrow> f r = g r"
  shows "insert_each f rows d = insert_each g rows d"
  using assms by (induction rows arbitrary: d) (auto split: prod.split sum.split)

definition same_kind :: "bool \<Rightarrow> call_row list \<Rightarrow> bool" where
  "same_kind unique rows \<longleftrightarrow> (\<forall>r \<in> set rows. (cr_unique r \<noteq> None) = unique)"

lemma adapter_sends_many:
  assumes "same_kind unique rows"
  shows "adapter_insert_many a whole now unique rows d =
    (case insert_each (\<lambda>r. sent a (numbers_fit r) (insert_unique_stmt now r)) rows d of
       (Inl e, d') \<Rightarrow> (Inl e, if numbered_marks a \<or> whole then rolled_back d d' else d') | (Inr u, d') \<Rightarrow> (Inr u, d'))"
proof -
  have "insert_each (\<lambda>r. on_driver a (if unique then sm_insert_many_unique (adapter_marks a) else sm_insert (adapter_marks a))
      (row_params r) (numbers_fit r) ((if unique then insert_unique_stmt now else insert_stmt now) r)) rows d
    = insert_each (\<lambda>r. sent a (numbers_fit r) (insert_unique_stmt now r)) rows d"
    by (rule insert_each_cong)
      (use assms in \<open>auto simp: same_kind_def on_driver_def sent_def adapter_accepts row_params_def n_columns_def
        insert_unique_stmt_def fun_eq_iff split: option.splits\<close>)
  then show ?thesis by (simp add: adapter_insert_many_def Let_def)
qed

definition passed :: "'a op \<Rightarrow> db \<Rightarrow> (py_error, 'a) result \<times> db" where
  "passed stmt d = apfst (map_sum Pg id) (stmt d)"

lemma sent_passed: "sent a True stmt = passed stmt"
  by (simp add: sent_def passed_def fun_eq_iff)

lemma many_passed:
  assumes "same_kind unique rows" "list_all numbers_fit rows"
  shows "adapter_insert_many a True now unique rows d =
    (case insert_each (\<lambda>r. passed (insert_unique_stmt now r)) rows d of
       (Inl e, d') \<Rightarrow> (Inl e, rolled_back d d') | (Inr u, d') \<Rightarrow> (Inr u, d'))"
proof -
  have "insert_each (\<lambda>r. sent a (numbers_fit r) (insert_unique_stmt now r)) rows d
      = insert_each (\<lambda>r. passed (insert_unique_stmt now r)) rows d"
    by (rule insert_each_cong) (use assms(2) in \<open>simp add: list_all_iff sent_passed\<close>)
  then show ?thesis by (simp add: adapter_sends_many [OF assms(1)] split: prod.split sum.split)
qed

lemma passed_reaches: "fst (passed stmt d) \<noteq> Inl Driver"
  by (cases "fst (stmt d)") (simp_all add: passed_def)

lemma each_reaches: "fst (insert_each (\<lambda>r. passed (stmt r)) rows d) \<noteq> Inl Driver"
proof (induction rows arbitrary: d)
  case (Cons r rows)
  obtain x d' where "passed (stmt r) d = (x, d')" by fastforce
  then show ?case using Cons passed_reaches [of "stmt r" d] by (cases x) auto
qed simp

lemma nodes_reach: "fst (insert_nodes True now w ns d) \<noteq> Inl Driver"
proof (induction ns arbitrary: d)
  case (Cons n ns)
  have "driver_accepts True (node_marks True) (1 + n_columns + 1)" by code_simp
  then show ?case using Cons by (cases n) (auto split: prod.split sum.split dest: arg_cong [where f = fst])
qed simp

lemma workflow_reaches: "fst (enqueue_workflow True now w d) \<noteq> Inl Driver"
proof -
  have "fst (insert_workflow True now ns es d) \<noteq> Inl Driver" for ns es
    using nodes_reach [of now "word_of_int (workflow_seq d)" ns]
    by (auto simp: insert_workflow_def Let_def split: prod.split sum.split dest: arg_cong [where f = fst])
  then show ?thesis by (simp add: enqueue_workflow_def split: option.split)
qed

lemma refused_workflow:
  assumes "flow_wf w" "wf_nodes w \<noteq> []" "workflow_seq d < 2 ^ 63" "enqueue_workflow False now w d = (x, d')"
  shows "x = Inl Driver \<and> jobs d' = jobs d \<and> edges d' = edges d \<and> workflow_ids d' = workflow_ids d"
proof -
  obtain deps where deps: "length deps = length (wf_nodes w)"
    "enqueue_workflow False now w d = insert_workflow False now (zip (wf_nodes w) deps) (sorted_list_of_set (wf_edges w)) d"
    by (rule enqueue_workflow_cases [OF assms(1,2)]) blast
  obtain n ns where "zip (wf_nodes w) deps = n # ns" using assms(2) deps(1) by (cases "wf_nodes w"; cases deps) auto
  moreover have "\<not> driver_accepts False (node_marks False) (1 + n_columns + 1)" by code_simp
  ultimately show ?thesis
    using assms(3,4) by (cases n) (auto simp: deps(2) insert_workflow_def Let_def rolled_back_def)
qed

text \<open>
  C27: The adapters agree on single jobs and differ on graphs. Whatever the driver, inserting a row,
  inserting a unique one, inserting a batch as one transaction, looking up and cancelling return
  the same and do the same to the database, and are never refused by the driver, when
  the numbers fit their columns; a number that does not fit is refused by every driver and
  changes nothing. A graph with a node in it is stored only through asyncpg, which never refuses a
  statement of it: both psycopg adapters refuse it and leave jobs, edges and workflows as they were.
\<close>

theorem adapters_agree_except_on_workflows:
  assumes "cr_unique r = None" "cr_unique u \<noteq> None" "same_kind unique rows" "list_all numbers_fit rows"
    and "flow_wf w" "wf_nodes w \<noteq> []" "workflow_seq d < 2 ^ 63"
  shows "(numbers_fit r \<longrightarrow> adapter_insert a now r d = adapter_insert a' now r d \<and> fst (adapter_insert a now r d) \<noteq> Inl Driver)
    \<and> (numbers_fit u \<longrightarrow> adapter_insert_unique a now u d = adapter_insert_unique a' now u d
          \<and> fst (adapter_insert_unique a now u d) \<noteq> Inl Driver)
    \<and> (\<not> numbers_fit r \<longrightarrow> (\<exists>e. adapter_insert a now r d = (Inl e, d)))
    \<and> (\<not> numbers_fit u \<longrightarrow> (\<exists>e. adapter_insert_unique a now u d = (Inl e, d)))
    \<and> adapter_insert_many a True now unique rows d = adapter_insert_many a' True now unique rows d
    \<and> fst (adapter_insert_many a True now unique rows d) \<noteq> Inl Driver
    \<and> adapter_outcome a i d = adapter_outcome a' i d \<and> fst (adapter_outcome a i d) \<noteq> Inl Driver
    \<and> adapter_cancel a now ids d = adapter_cancel a' now ids d \<and> fst (adapter_cancel a now ids d) \<noteq> Inl Driver
    \<and> (case enqueue_workflow (numbered_marks a) now w d of (x, d') \<Rightarrow>
          if a = AsyncpgAdapter then x \<noteq> Inl Driver
          else x = Inl Driver \<and> jobs d' = jobs d \<and> edges d' = edges d \<and> workflow_ids d' = workflow_ids d)"
proof -
  obtain key where key: "cr_unique u = Some key" using assms(2) by (cases "cr_unique u") simp_all
  obtain x d' where run: "enqueue_workflow (numbered_marks a) now w d = (x, d')" by fastforce
  have graph: "case enqueue_workflow (numbered_marks a) now w d of (x, d') \<Rightarrow>
      if a = AsyncpgAdapter then x \<noteq> Inl Driver
      else x = Inl Driver \<and> jobs d' = jobs d \<and> edges d' = edges d \<and> workflow_ids d' = workflow_ids d"
    using run workflow_reaches [of now w d] refused_workflow [OF assms(5-7), of now x d'] by (cases a) simp_all
  have "fst (adapter_insert_many a True now unique rows d) \<noteq> Inl Driver"
    using each_reaches [of "insert_unique_stmt now" rows d] by (auto simp: many_passed [OF assms(3,4)] split: prod.split sum.split)
  moreover have "adapter_insert_many a True now unique rows d = adapter_insert_many a' True now unique rows d"
    by (simp add: many_passed [OF assms(3,4)])
  moreover have "\<exists>e. sent a False stmt d = (Inl e, d)" for stmt :: "i64 op" by (simp add: sent_def)
  ultimately show ?thesis
    using graph by (simp add: adapter_sends(1) [OF assms(1)] adapter_sends(2) [OF key] adapter_sends(3,4) sent_passed passed_reaches)
qed

definition plain_call :: "bytes option \<Rightarrow> call_row" where
  "plain_call key =
     \<lparr>cr_queue = ''default'', cr_task = ''send'', cr_payload = [], cr_priority = 0, cr_max_attempts = 20, cr_delay = 0,
      cr_concurrency_key = None, cr_max_concurrency = None, cr_durable = False, cr_unique = key\<rparr>"

theorem adapters_agree_except_on_workflows_witness:
  "adapter_insert_unique SyncPsycopgAdapter 5 (plain_call (Some [7])) sample_db
     = adapter_insert_unique AsyncpgAdapter 5 (plain_call (Some [7])) sample_db
   \<and> fst (adapter_insert_unique SyncPsycopgAdapter 5 (plain_call (Some [7])) sample_db) \<noteq> Inl Driver
   \<and> fst (enqueue_workflow (numbered_marks SyncPsycopgAdapter) 5 sample_flow sample_db) = Inl Driver"
proof -
  have u: "cr_unique (plain_call None) = None" "cr_unique (plain_call (Some [7])) \<noteq> None" "same_kind False []" "list_all numbers_fit []"
    "wf_nodes sample_flow \<noteq> []" "workflow_seq sample_db < 2 ^ 63" "numbers_fit (plain_call (Some [7]))"
    by (simp_all add: plain_call_def same_kind_def numbers_fit_def sample_flow_def sample_defs)
  show ?thesis
    using adapters_agree_except_on_workflows [OF u(1-4) sample_flow_wf u(5,6), of SyncPsycopgAdapter 5 AsyncpgAdapter 1 "[]"] u(7)
    by (elim conjE) (auto simp: prod.case_eq_if)
qed

section \<open>The adapters issue statements\<close>

text \<open>A row whose key and limit are given together is a job as the backend inserts it.\<close>

definition paired :: "call_row \<Rightarrow> bool" where
  "paired r \<longleftrightarrow> (cr_concurrency_key r = None) = (cr_max_concurrency r = None)"

definition job_of_row :: "call_row \<Rightarrow> new_job" where
  "job_of_row r =
     \<lparr>nj_queue = cr_queue r, nj_task = cr_task r, nj_payload = cr_payload r, nj_priority = word_of_int (cr_priority r),
      nj_max_attempts = word_of_int (cr_max_attempts r), nj_delay = cr_delay r,
      nj_concurrency = (case (cr_concurrency_key r, cr_max_concurrency r) of (Some k, Some n) \<Rightarrow> Some (k, word_of_int n) | _ \<Rightarrow> None),
      nj_durable = cr_durable r\<rparr>"

lemma row_is_job:
  assumes "paired r"
  shows "inserted_row now r = (enqueue_row now (job_of_row r))\<lparr>unique_key := cr_unique r\<rparr>"
    "row_texts r = [nj_queue (job_of_row r), nj_task (job_of_row r)] @ (case nj_concurrency (job_of_row r) of None \<Rightarrow> [] | Some (k, _) \<Rightarrow> [k])"
  using assms by (auto simp: paired_def inserted_row_def enqueue_row_def job_of_row_def row_texts_def default_row_def
      split: option.splits)

lemma insert_is_statement:
  assumes "paired r"
  shows "insert_unique_stmt now r =
    (case cr_unique r of None \<Rightarrow> enqueue now (job_of_row r) | Some key \<Rightarrow> insert_unique now (job_of_row r) key)"
  unfolding insert_unique_stmt_def insert_stmt_def row_is_job [OF assms]
  by (auto simp: enqueue_def insert_unique_def unique_row_def enqueue_row_def default_row_def split: option.split)

lemma sent_steps: "(\<And>d. db_steps d (snd (stmt d))) \<Longrightarrow> db_steps d (snd (sent a fits stmt d))"
  by (simp add: sent_def)

lemma insert_steps: "paired r \<Longrightarrow> db_steps d (snd (sent a fits (insert_unique_stmt now r) d))"
  using db_stepI [of "Enqueue (job_of_row r)" d' now for d'] db_stepI [of "InsertUnique (job_of_row r) k" d' now for k d']
  by (intro sent_steps) (auto simp: insert_is_statement split: option.split)

text \<open>Identifiers drawn by a batch that is rolled back are as if refused inserts had drawn them.\<close>

definition refused_job :: new_job where
  "refused_job = (new_job_for [] [])\<lparr>nj_max_attempts := - 1\<rparr>"

lemma refused_job_exec: "job_seq d < 2 ^ 63 \<Longrightarrow> exec now (Enqueue refused_job) d = d\<lparr>job_seq := job_seq d + 1\<rparr>"
  by (simp add: enqueue_def bind_text_def refused_job_def new_job_for_def text_ok_def insert_job_def Let_def row_ok_def
      attempt_bounds_def enqueue_row_def default_row_def)

lemma draw_ids: "job_seq d + int n \<le> 2 ^ 63 \<Longrightarrow> db_steps d (d\<lparr>job_seq := job_seq d + int n\<rparr>)"
proof (induction n)
  case (Suc n)
  let ?d = "d\<lparr>job_seq := job_seq d + int n\<rparr>"
  have "db_step ?d (exec 0 (Enqueue refused_job) ?d)" by (rule db_stepI) simp
  then have "db_step ?d (?d\<lparr>job_seq := job_seq ?d + 1\<rparr>)" using refused_job_exec [of ?d 0] Suc.prems by simp
  then show ?case using Suc by (simp add: rtranclp.rtrancl_into_rtrancl ac_simps)
qed simp

lemma insert_unique_stmt_inv:
  assumes "db_inv d"
  shows "db_inv (snd (insert_unique_stmt now r d))"
proof -
  have "row_ok (inserted_row now r) \<Longrightarrow> row_wf (inserted_row now r)"
    by (simp add: row_wf_def inserted_row_def default_row_def live_def)
  then have "db_inv (snd (insert_job now (inserted_row now r) d))"
    by (intro insert_job_inv [OF assms]) (simp_all add: inserted_row_def default_row_def)
  then show ?thesis
    using assms db_inv_more_seq [OF assms]
    by (simp add: insert_unique_stmt_def insert_stmt_def insert_unless_live_def bind_text_def split: option.split)
qed

definition draws :: "db \<Rightarrow> db \<Rightarrow> bool" where
  "draws d d' \<longleftrightarrow> (job_seq d' = job_seq d \<or> job_seq d \<le> job_seq d' \<and> job_seq d' \<le> 2 ^ 63) \<and> workflow_seq d' = workflow_seq d"

lemma draws_trans: "draws d d1 \<Longrightarrow> draws d1 d2 \<Longrightarrow> draws d d2"
  by (auto simp: draws_def)

lemma insert_draws: "draws d (snd (sent a fits (insert_unique_stmt now r) d))"
proof -
  have ins: "draws d (snd (insert_job now x d))" for x
    by (auto simp: insert_job_def Let_def draws_def)
  then have "draws d (snd (insert_unless_live now x k d))" for x k
    by (auto simp: insert_unless_live_def draws_def split: option.split)
  with ins show ?thesis by (auto simp: sent_def insert_unique_stmt_def insert_stmt_def bind_text_def draws_def split: option.split)
qed

lemma insert_each_spec:
  assumes "list_all paired rows" "one = (\<lambda>r. sent a (numbers_fit r) (insert_unique_stmt now r))"
  shows "db_steps d (snd (insert_each one rows d)) \<and> draws d (snd (insert_each one rows d))"
  using assms(1)
proof (induction rows arbitrary: d)
  case (Cons r rows)
  obtain x d1 where run: "one r d = (x, d1)" by fastforce
  have one: "db_steps d d1" "draws d d1"
    using insert_steps [of r d a "numbers_fit r" now] insert_draws [of d a "numbers_fit r" now r] Cons.prems run
    by (simp_all add: assms(2))
  have "db_steps d1 (snd (insert_each one rows d1))" "draws d1 (snd (insert_each one rows d1))"
    using Cons by simp_all
  then show ?case using one by (auto simp: run split: sum.split dest: draws_trans)
qed (simp add: draws_def)

lemma insert_many_steps:
  assumes "list_all paired rows" "same_kind unique rows"
  shows "db_steps d (snd (adapter_insert_many a whole now unique rows d))"
proof -
  let ?one = "\<lambda>r. sent a (numbers_fit r) (insert_unique_stmt now r)"
  obtain x d' where run: "insert_each ?one rows d = (x, d')" by fastforce
  have d': "db_steps d d'" "draws d d'" using insert_each_spec [OF assms(1) refl, of d a now] by (simp_all add: run)
  have "db_steps d (rolled_back d d')"
  proof (cases "job_seq d' = job_seq d")
    case True
    then have "rolled_back d d' = d" using d'(2) by (simp add: rolled_back_def draws_def)
    then show ?thesis by simp
  next
    case False
    then have "db_steps d (d\<lparr>job_seq := job_seq d + int (nat (job_seq d' - job_seq d))\<rparr>)"
      using d'(2) by (intro draw_ids) (auto simp: draws_def)
    moreover have "rolled_back d d' = d\<lparr>job_seq := job_seq d + int (nat (job_seq d' - job_seq d))\<rparr>"
      using d'(2) False by (auto simp: rolled_back_def draws_def)
    ultimately show ?thesis by simp
  qed
  then show ?thesis using d'(1) unfolding adapter_sends_many [OF assms(2)] run by (simp split: sum.split)
qed

end
