(* ===== verification/Application.thy ===== *)
theory Application
  imports Adapters Durable "HOL-Library.List_Lexorder" "HOL-Library.Char_ord"
begin

text \<open>
  The application as its author writes it (\<open>python/gylo/__init__.py\<close>): the registry of tasks and
  schedules, the options of a call, and what enqueueing, cancelling and looking up do to the
  database. The values of Python are a type parameter and their encoder an argument, as is the
  digest of a unique job. What the client promises is followed through the backend: a job it accepts
  can be dispatched whenever it is leased, a repeated call finds the live job, an ended job
  stays as it was seen, and the schedules of an application arrive in the table.
\<close>

section \<open>Options\<close>

datatype unique_option = NotUnique | ByArguments | ByKey string

record options =
  op_queue :: string
  op_priority :: int
  op_delay :: duration
  op_max_attempts :: int
  op_unique :: unique_option
  op_concurrency_key :: "string option"
  op_max_concurrency :: "int option"

definition default_options :: options where
  "default_options =
     \<lparr>op_queue = ''default'', op_priority = 0, op_delay = 0, op_max_attempts = 20, op_unique = NotUnique,
      op_concurrency_key = None, op_max_concurrency = None\<rparr>"

text \<open>The keyword arguments of \<open>Task.options\<close>; one that is not given, or given as \<open>None\<close>, is absent.\<close>

record given =
  gv_queue :: "string option"
  gv_priority :: "int option"
  gv_delay :: "duration option"
  gv_max_attempts :: "int option"
  gv_unique :: "unique_option option"
  gv_concurrency_key :: "string option"
  gv_max_concurrency :: "int option"

definition nothing_given :: given where
  "nothing_given =
     \<lparr>gv_queue = None, gv_priority = None, gv_delay = None, gv_max_attempts = None, gv_unique = None,
      gv_concurrency_key = None, gv_max_concurrency = None\<rparr>"

datatype api_error =
    KeyWithoutLimit
  | LimitTooSmall
  | NotEncodable
  | ArgumentsTooLarge string nat
  | NotACall
  | TaskTaken string
  | ScheduleTaken string
  | MustBeAsync string
  | ContextTwice string
  | UnknownTaskError string
  | UnboundApp
  | NotDecodable
  | Connection driver_error
  | Query Workflow.py_error

definition task_options :: "given \<Rightarrow> (api_error, options) result" where
  "task_options g =
     (if (gv_concurrency_key g = None) \<noteq> (gv_max_concurrency g = None) then Inl KeyWithoutLimit
      else if (case gv_max_concurrency g of None \<Rightarrow> False | Some n \<Rightarrow> n < 1) then Inl LimitTooSmall
      else Inr
        \<lparr>op_queue = (case gv_queue g of None \<Rightarrow> op_queue default_options | Some q \<Rightarrow> q),
         op_priority = (case gv_priority g of None \<Rightarrow> op_priority default_options | Some p \<Rightarrow> p),
         op_delay = (case gv_delay g of None \<Rightarrow> op_delay default_options | Some t \<Rightarrow> t),
         op_max_attempts = (case gv_max_attempts g of None \<Rightarrow> op_max_attempts default_options | Some n \<Rightarrow> n),
         op_unique = (case gv_unique g of None \<Rightarrow> op_unique default_options | Some u \<Rightarrow> u),
         op_concurrency_key = gv_concurrency_key g,
         op_max_concurrency = gv_max_concurrency g\<rparr>)"

section \<open>Calls\<close>

text \<open>
  What \<open>msgspec\<close> encodes for a call - nothing when it raises - and \<open>blake2b\<close>. What a unique
  job is known by is its key or its arguments, the keywords sorted.
\<close>

datatype 'p identity = KeyIdentity string | CallIdentity "'p list" "(string \<times> 'p) list"

record 'p arg_codec =
  ac_args :: "'p list \<Rightarrow> (string \<times> 'p) list \<Rightarrow> bytes option"
  ac_identity :: "string \<Rightarrow> string \<Rightarrow> 'p identity \<Rightarrow> bytes option"
  ac_blake2b :: "bytes \<Rightarrow> bytes"

text \<open>What a bound task uses of its task, and its options.\<close>

record bound_task =
  bt_name :: string
  bt_durable :: bool
  bt_options :: options

definition unique_digest :: "'p arg_codec \<Rightarrow> string \<Rightarrow> options \<Rightarrow> 'p list \<Rightarrow> (string \<times> 'p) list \<Rightarrow> bytes option" where
  "unique_digest ac name opts args kwargs =
     (let ident = (case op_unique opts of ByKey k \<Rightarrow> KeyIdentity k | _ \<Rightarrow> CallIdentity args (sort_key fst kwargs))
      in map_option (ac_blake2b ac) (ac_identity ac name (op_queue opts) ident))"

definition bound_row :: "'p arg_codec \<Rightarrow> bound_task \<Rightarrow> 'p list \<Rightarrow> (string \<times> 'p) list \<Rightarrow> (api_error, call_row) result" where
  "bound_row ac b args kwargs =
     (case ac_args ac args kwargs of
        None \<Rightarrow> Inl NotEncodable
      | Some bs \<Rightarrow>
          if payload_limit (bt_name b) < int (length bs) then Inl (ArgumentsTooLarge (bt_name b) (length bs))
          else
            let opts = bt_options b;
                row = \<lparr>cr_queue = op_queue opts, cr_task = bt_name b, cr_payload = bs, cr_priority = op_priority opts,
                       cr_max_attempts = op_max_attempts opts, cr_delay = op_delay opts,
                       cr_concurrency_key = op_concurrency_key opts, cr_max_concurrency = op_max_concurrency opts,
                       cr_durable = bt_durable b, cr_unique = None\<rparr>
            in if op_unique opts = NotUnique then Inr row
               else (case unique_digest ac (bt_name b) opts args kwargs of
                       None \<Rightarrow> Inl NotEncodable
                     | Some key \<Rightarrow> Inr (row\<lparr>cr_unique := Some key\<rparr>)))"

definition api :: "(Workflow.py_error, 'a) result \<times> db \<Rightarrow> (api_error, 'a) result \<times> db" where
  "api = apfst (map_sum Query id)"

text \<open>
  \<open>enqueue\<close> and \<open>enqueue_sync\<close> differ in the connections they take, \<open>async_adapter\<close> or
  \<open>sync_adapter\<close>.
\<close>

definition enqueue_by ::
  "(conn \<Rightarrow> (driver_error, adapter \<times> conn) result) \<Rightarrow> 'p arg_codec \<Rightarrow> int \<Rightarrow> bound_task \<Rightarrow> conn
    \<Rightarrow> 'p list \<Rightarrow> (string \<times> 'p) list \<Rightarrow> db \<Rightarrow> (api_error, i64) result \<times> db"
where
  "enqueue_by pick ac now b c args kwargs d =
     (case pick c of
        Inl e \<Rightarrow> (Inl (Connection e), d)
      | Inr (a, _) \<Rightarrow>
          (case bound_row ac b args kwargs of
             Inl e \<Rightarrow> (Inl e, d)
           | Inr row \<Rightarrow>
               if op_unique (bt_options b) = NotUnique then api (adapter_insert a now row d)
               else api (adapter_insert_unique a now row d)))"

definition bound_enqueue ::
  "'p arg_codec \<Rightarrow> int \<Rightarrow> bound_task \<Rightarrow> conn \<Rightarrow> 'p list \<Rightarrow> (string \<times> 'p) list \<Rightarrow> db \<Rightarrow> (api_error, i64) result \<times> db"
where
  "bound_enqueue = enqueue_by async_adapter"

definition bound_enqueue_sync ::
  "'p arg_codec \<Rightarrow> int \<Rightarrow> bound_task \<Rightarrow> conn \<Rightarrow> 'p list \<Rightarrow> (string \<times> 'p) list \<Rightarrow> db \<Rightarrow> (api_error, i64) result \<times> db"
where
  "bound_enqueue_sync = enqueue_by sync_adapter"

datatype 'p call_item = Call "'p list" "(string \<times> 'p) list" | Tuple "'p list" | Other

fun bound_rows :: "'p arg_codec \<Rightarrow> bound_task \<Rightarrow> 'p call_item list \<Rightarrow> (api_error, call_row list) result" where
  "bound_rows ac b [] = Inr []"
| "bound_rows ac b (it # its) =
     (case (case it of Call args kwargs \<Rightarrow> bound_row ac b args kwargs | Tuple args \<Rightarrow> bound_row ac b args []
             | Other \<Rightarrow> Inl NotACall) of
        Inl e \<Rightarrow> Inl e
      | Inr row \<Rightarrow> (case bound_rows ac b its of Inl e \<Rightarrow> Inl e | Inr rows \<Rightarrow> Inr (row # rows)))"

definition enqueue_many_by ::
  "(conn \<Rightarrow> (driver_error, adapter \<times> conn) result) \<Rightarrow> 'p arg_codec \<Rightarrow> int \<Rightarrow> bound_task \<Rightarrow> conn
    \<Rightarrow> 'p call_item list \<Rightarrow> db \<Rightarrow> (api_error, unit) result \<times> db"
where
  "enqueue_many_by pick ac now b c calls d =
     (if calls = [] then (Inr (), d)
      else case pick c of
        Inl e \<Rightarrow> (Inl (Connection e), d)
      | Inr (a, c') \<Rightarrow>
          (case bound_rows ac b calls of
             Inl e \<Rightarrow> (Inl e, d)
           | Inr rows \<Rightarrow> api (adapter_insert_many a (cn_whole c') now (op_unique (bt_options b) \<noteq> NotUnique) rows d)))"

section \<open>The registry\<close>

text \<open>A function as \<open>task\<close> inspects it, with what running it does.\<close>

record ('a, 'v, 'e) func =
  fn_module :: string
  fn_qualname :: string
  fn_coroutine :: bool
  fn_run :: "job_context \<Rightarrow> 'a \<Rightarrow> ('v, 'e) ran"

record ('a, 'v, 'e) reg_task = "('a, 'v, 'e) py_task" +
  tk_name :: string
  tk_timeout :: "duration option"
  tk_is_async :: bool

datatype timeout_option = Inherit | Timeout "duration option"

record task_args =
  ta_name :: "string option"
  ta_retry_on :: "string list"
  ta_no_retry_on :: "string list"
  ta_store_result :: bool
  ta_durable :: bool
  ta_context :: bool
  ta_timeout :: timeout_option

definition default_args :: task_args where
  "default_args =
     \<lparr>ta_name = None, ta_retry_on = [''Exception''], ta_no_retry_on = [], ta_store_result = False, ta_durable = False,
      ta_context = False, ta_timeout = Inherit\<rparr>"

text \<open>Dictionaries keep the order of insertion. The pool is the connection it hands out.\<close>

record ('a, 'v, 'e) app =
  ap_tasks :: "(string \<times> ('a, 'v, 'e) reg_task) list"
  ap_crons :: "(string \<times> cron_registration) list"
  ap_pool :: "conn option"
  ap_default_timeout :: "duration option"

definition new_app :: "duration option \<Rightarrow> ('a, 'v, 'e) app" where
  "new_app timeout = \<lparr>ap_tasks = [], ap_crons = [], ap_pool = None, ap_default_timeout = timeout\<rparr>"

definition name_or :: "string option \<Rightarrow> string \<Rightarrow> string" where
  "name_or name other = (case name of None \<Rightarrow> other | Some n \<Rightarrow> if n = [] then other else n)"

definition register_task ::
  "task_args \<Rightarrow> ('a, 'v, 'e) func \<Rightarrow> ('a, 'v, 'e) app \<Rightarrow> (api_error, ('a, 'v, 'e) reg_task) result \<times> ('a, 'v, 'e) app"
where
  "register_task ta f app =
     (let name = name_or (ta_name ta) (fn_module f @ ''.'' @ fn_qualname f) in
      if name \<in> fst ` set (ap_tasks app) then (Inl (TaskTaken name), app)
      else if ta_durable ta \<and> \<not> fn_coroutine f then (Inl (MustBeAsync name), app)
      else if ta_durable ta \<and> ta_context ta then (Inl (ContextTwice name), app)
      else
        let t = \<lparr>tk_run = fn_run f, tk_retry_on = ta_retry_on ta, tk_no_retry_on = ta_no_retry_on ta,
                    tk_store_result = ta_store_result ta, tk_durable = ta_durable ta, tk_wants_context = ta_context ta,
                    tk_name = name,
                    tk_timeout = (case ta_timeout ta of Inherit \<Rightarrow> ap_default_timeout app | Timeout limit \<Rightarrow> limit),
                    tk_is_async = fn_coroutine f\<rparr>
        in (Inr t, app\<lparr>ap_tasks := ap_tasks app @ [(name, t)]\<rparr>))"

record 'p cron_args =
  ca_expression :: string
  ca_name :: "string option"
  ca_timezone :: string
  ca_queue :: string
  ca_args :: "'p list"
  ca_kwargs :: "(string \<times> 'p) list"

definition register_cron ::
  "'p arg_codec \<Rightarrow> 'p cron_args \<Rightarrow> ('a, 'v, 'e) func \<Rightarrow> ('a, 'v, 'e) app
    \<Rightarrow> (api_error, ('a, 'v, 'e) reg_task) result \<times> ('a, 'v, 'e) app"
where
  "register_cron ac ca f app =
     (case register_task (default_args\<lparr>ta_name := ca_name ca\<rparr>) f app of
        (Inl e, app1) \<Rightarrow> (Inl e, app1)
      | (Inr t, app1) \<Rightarrow>
          let schedule_name = name_or (ca_name ca) (tk_name t) in
          if schedule_name \<in> fst ` set (ap_crons app1) then (Inl (ScheduleTaken schedule_name), app1)
          else (case ac_args ac (ca_args ca) (ca_kwargs ca) of
                  None \<Rightarrow> (Inl NotEncodable, app1)
                | Some bs \<Rightarrow>
                    (Inr t,
                     app1\<lparr>ap_crons := ap_crons app1 @
                       [(schedule_name,
                         \<lparr>reg_name = schedule_name, reg_queue = ca_queue ca, reg_task = tk_name t,
                          reg_expression = ca_expression ca, reg_timezone = ca_timezone ca, reg_payload = bs\<rparr>)]\<rparr>)))"

definition declared_crons :: "('a, 'v, 'e) app \<Rightarrow> cron_registration list" where
  "declared_crons app = map snd (ap_crons app)"

definition find_task :: "('a, 'v, 'e) app \<Rightarrow> string \<Rightarrow> ('a, 'v, 'e) reg_task option" where
  "find_task app name = map_of (ap_tasks app) name"

definition get_task :: "('a, 'v, 'e) app \<Rightarrow> string \<Rightarrow> (api_error, ('a, 'v, 'e) reg_task) result" where
  "get_task app name = (case find_task app name of None \<Rightarrow> Inl (UnknownTaskError name) | Some t \<Rightarrow> Inr t)"

definition bind_pool :: "conn \<Rightarrow> ('a, 'v, 'e) app \<Rightarrow> ('a, 'v, 'e) app" where
  "bind_pool c app = app\<lparr>ap_pool := Some c\<rparr>"

definition borrow :: "('a, 'v, 'e) app \<Rightarrow> (api_error, conn) result" where
  "borrow app = (case ap_pool app of None \<Rightarrow> Inl UnboundApp | Some c \<Rightarrow> Inr c)"

definition bind_options :: "('a, 'v, 'e) reg_task \<Rightarrow> given \<Rightarrow> (api_error, bound_task) result" where
  "bind_options t g =
     (case task_options g of
        Inl e \<Rightarrow> Inl e
      | Inr opts \<Rightarrow> Inr \<lparr>bt_name = tk_name t, bt_durable = tk_durable t, bt_options = opts\<rparr>)"

definition submit ::
  "('a, 'v, 'e) app \<Rightarrow> 'p arg_codec \<Rightarrow> int \<Rightarrow> bound_task \<Rightarrow> 'p list \<Rightarrow> (string \<times> 'p) list \<Rightarrow> db \<Rightarrow> (api_error, i64) result \<times> db"
where
  "submit app ac now b args kwargs d =
     (case borrow app of Inl e \<Rightarrow> (Inl e, d) | Inr c \<Rightarrow> bound_enqueue ac now b c args kwargs d)"

text \<open>
  A node of a workflow. Its arguments are encoded when the graph is enqueued, and its numbers
  refused by the driver then.
\<close>

definition bound_signature ::
  "'p arg_codec \<Rightarrow> bound_task \<Rightarrow> 'p list \<Rightarrow> (string \<times> 'p) list \<Rightarrow> (api_error, signature) result"
where
  "bound_signature ac b args kwargs =
     (case ac_args ac args kwargs of
        None \<Rightarrow> Inl NotEncodable
      | Some bs \<Rightarrow>
          let opts = bt_options b in
          if \<not> (- (2 ^ 15) \<le> op_priority opts \<and> op_priority opts < 2 ^ 15
               \<and> - (2 ^ 15) \<le> op_max_attempts opts \<and> op_max_attempts opts < 2 ^ 15
               \<and> (case op_max_concurrency opts of None \<Rightarrow> True | Some n \<Rightarrow> - (2 ^ 31) \<le> n \<and> n < 2 ^ 31))
          then Inl (Query Driver)
          else Inr \<lparr>sg_queue = op_queue opts, sg_task = bt_name b, sg_payload = bs,
                    sg_priority = word_of_int (op_priority opts), sg_max_attempts = word_of_int (op_max_attempts opts),
                    sg_delay = op_delay opts, sg_concurrency_key = op_concurrency_key opts,
                    sg_max_concurrency = map_option word_of_int (op_max_concurrency opts), sg_durable = bt_durable b\<rparr>)"

section \<open>Looking and cancelling\<close>

record 'v py_outcome =
  po_state :: string
  po_result :: "'v option"
  po_errors :: "error_entry list"

definition finished :: "'v py_outcome \<Rightarrow> bool" where
  "finished out \<longleftrightarrow> po_state out \<in> {''completed'', ''discarded'', ''cancelled''}"

definition succeeded :: "'v py_outcome \<Rightarrow> bool" where
  "succeeded out \<longleftrightarrow> po_state out = ''completed''"

definition outcome_from :: "(bytes \<Rightarrow> 'v option) \<Rightarrow> job_outcome option \<Rightarrow> (api_error, 'v py_outcome option) result" where
  "outcome_from dec row =
     (case row of
        None \<Rightarrow> Inr None
      | Some out \<Rightarrow>
          (case o_result out of
             None \<Rightarrow> Inr (Some \<lparr>po_state = o_state out, po_result = None, po_errors = o_errors out\<rparr>)
           | Some stored \<Rightarrow>
               (case dec stored of
                  None \<Rightarrow> Inl NotDecodable
                | Some v \<Rightarrow> Inr (Some \<lparr>po_state = o_state out, po_result = Some v, po_errors = o_errors out\<rparr>))))"

definition outcome_by ::
  "(conn \<Rightarrow> (driver_error, adapter \<times> conn) result) \<Rightarrow> (bytes \<Rightarrow> 'v option) \<Rightarrow> conn \<Rightarrow> i64 \<Rightarrow> db
    \<Rightarrow> (api_error, 'v py_outcome option) result \<times> db"
where
  "outcome_by pick dec c i d =
     (case pick c of
        Inl e \<Rightarrow> (Inl (Connection e), d)
      | Inr (a, _) \<Rightarrow>
          (case adapter_outcome a i d of
             (Inl e, d') \<Rightarrow> (Inl (Query e), d')
           | (Inr row, d') \<Rightarrow> (outcome_from dec row, d')))"

definition cancel_by ::
  "(conn \<Rightarrow> (driver_error, adapter \<times> conn) result) \<Rightarrow> int \<Rightarrow> conn \<Rightarrow> i64 list \<Rightarrow> db \<Rightarrow> (api_error, nat) result \<times> db"
where
  "cancel_by pick now c ids d =
     (if ids = [] then (Inr 0, d)
      else case pick c of
        Inl e \<Rightarrow> (Inl (Connection e), d)
      | Inr (a, _) \<Rightarrow> api (adapter_cancel a now ids d))"

section \<open>What a row keeps\<close>

text \<open>
  Whatever statements run, every row there is was there before, in the state it had or one step on, or
  has a new identifier. So what no step of a row changes holds of it for good.
\<close>

definition rows_from :: "db \<Rightarrow> db \<Rightarrow> bool" where
  "rows_from d d' \<longleftrightarrow>
     (\<forall>r' \<in> set (jobs d'). (\<exists>r \<in> set (jobs d). \<exists>now. r' = r \<or> row_step now r r') \<or> job_seq d \<le> sint (row_id r'))"

lemma rows_lawful: "lawful now d d' \<Longrightarrow> rows_from d d'"
  by (auto simp: rows_from_def dest: lawful_rows)

lemma rows_subset: "set (jobs d') \<subseteq> set (jobs d) \<Longrightarrow> rows_from d d'"
  by (auto simp: rows_from_def)

lemma rows_append:
  assumes "db_inv d'" "grows d d'" "jobs d' = jobs d @ rows"
  shows "rows_from d d'"
  unfolding rows_from_def
proof
  fix r' assume r': "r' \<in> set (jobs d')"
  have "distinct (map row_id (jobs d @ rows))" using assms(1,3) by (simp add: db_inv_def db_wf_def)
  then have "r' \<in> set rows \<Longrightarrow> row_id r' \<notin> job_ids d" by (auto simp: job_ids_def)
  moreover have "row_id r' \<in> job_ids d \<or> job_seq d \<le> sint (row_id r')"
    using assms(2) r' unfolding grows_def job_ids_def by blast
  ultimately show "(\<exists>r \<in> set (jobs d). \<exists>now. r' = r \<or> row_step now r r') \<or> job_seq d \<le> sint (row_id r')"
    using r' assms(3) by auto
qed

lemma exec_rows:
  assumes "db_inv d" "call_ok c"
  shows "rows_from d (exec now c d)"
proof -
  have wf: "db_wf d" using assms(1) by (simp add: db_inv_def)
  note append = rows_append [OF exec_inv [OF assms] grows_exec [OF assms]]
  show ?thesis
  proof (cases c)
    case (Enqueue j)
    have "\<exists>rows. jobs (exec now c d) = jobs d @ rows"
      using insert_appends by (simp add: Enqueue enqueue_def bind_text_def)
    then show ?thesis using append by blast
  next
    case (InsertUnique j key)
    have "\<exists>rows. jobs (exec now c d) = jobs d @ rows"
      using insert_appends by (simp add: InsertUnique insert_unique_def insert_unless_live_def bind_text_def split: option.split)
    then show ?thesis using append by blast
  next
    case (EnqueueWorkflow numbered w)
    have "\<exists>rows. jobs (exec now c d) = jobs d @ rows"
      using workflow_appends [OF assms(1), of w numbered now] assms(2) by (auto simp: EnqueueWorkflow)
    then show ?thesis using append by blast
  next
    case (FireCron name next_run)
    have "\<exists>rows. jobs (exec now c d) = jobs d @ rows"
    proof (cases rule: fire_cron_cases [of name next_run now d])
      case (won cr i d')
      then show ?thesis
        using insert_appends [of now "default_row now (c_queue cr) (c_task cr) (c_payload cr)" d] by (simp add: FireCron)
    qed (simp_all add: FireCron)
    then show ?thesis using append by blast
  next
    case (Prune dead older_than q limit skip)
    then show ?thesis
      by (cases rule: prune_states_cases [of "if dead then [Discarded] else [Completed, Cancelled]" older_than q limit now skip d])
        (auto intro!: rows_subset)
  next
    case (PurgeDiscarded q)
    then show ?thesis by (auto simp: purge_discarded_def bind_queue_def bind_text_def intro!: rows_subset)
  qed (use assms wf in \<open>auto simp: record_step_def upsert_cron_def prune_workflows_def bind_text_def Let_def
      intro!: rows_lawful [where now = now] lawful_same_jobs fetch_unkeyed_lawful fetch_keyed_lawful renew_leases_lawful
      abandon_leases_lawful reclaim_expired_lawful complete_lawful retry_many_lawful discard_many_lawful cancel_lawful
      retry_discarded_lawful\<close>)
qed

lemma rows_related:
  assumes "db_steps d d'" "db_inv d" "r' \<in> set (jobs d')" "sint (row_id r') < job_seq d"
    and refl: "\<And>r. P r r" and step: "\<And>now r s s'. P r s \<Longrightarrow> row_step now s s' \<Longrightarrow> P r s'"
  shows "\<exists>r \<in> set (jobs d). row_id r = row_id r' \<and> P r r'"
  using assms(1,3,4)
proof (induction arbitrary: r' rule: rtranclp_induct)
  case base
  then show ?case using refl by blast
next
  case (step d1 d2)
  obtain now c where c: "call_ok c" "d2 = exec now c d1" using step.hyps(2) by (auto simp: db_step_def)
  have inv: "db_inv d1" by (rule pg.steps_inv [OF step.hyps(1) assms(2)])
  have "job_seq d \<le> job_seq d1"
    using step.hyps(1) assms(2)
  proof (induction rule: rtranclp_induct)
    case (step y z)
    have "db_inv y" by (rule pg.steps_inv [OF step.hyps(1) step.prems])
    moreover obtain now c where "call_ok c" "z = exec now c y" using step.hyps(2) by (auto simp: db_step_def)
    ultimately have "job_seq y \<le> job_seq z" using grows_exec [of y c now] by (simp add: grows_def)
    then show ?case using step.IH [OF step.prems] by simp
  qed simp
  then have "\<not> job_seq d1 \<le> sint (row_id r')" using step.prems(2) by simp
  then obtain s n where s: "s \<in> set (jobs d1)" "r' = s \<or> row_step n s r'"
    using exec_rows [OF inv c(1), of now] step.prems(1) unfolding rows_from_def c(2) by blast
  have id: "row_id s = row_id r'" using s(2) by (auto simp: row_step_frame)
  then obtain r where "r \<in> set (jobs d)" "row_id r = row_id s" "P r s" using step.IH [OF s(1)] step.prems(2) by auto
  then show ?case using s(2) assms(6) id by auto
qed

section \<open>Calls are statements\<close>

lemma bound_paired:
  assumes "bind_options t g = Inr b" "bound_row ac b args kwargs = Inr row"
  shows "paired row"
  using assms by (auto simp: bind_options_def task_options_def bound_row_def paired_def Let_def
      split: sum.splits if_splits option.splits)

lemma bound_row_unique: "bound_row ac b args kwargs = Inr row \<Longrightarrow> (cr_unique row \<noteq> None) = (op_unique (bt_options b) \<noteq> NotUnique)"
  by (auto simp: bound_row_def Let_def split: if_splits option.splits)

lemma bound_rows_each:
  "bound_rows ac b its = Inr rows \<Longrightarrow> row \<in> set rows \<Longrightarrow> \<exists>args kwargs. bound_row ac b args kwargs = Inr row"
  by (induction its arbitrary: rows) (auto split: sum.splits call_item.splits, blast+)

lemma enqueue_by_sends:
  assumes "pick c = Inr (a, c')" "bound_row ac b args kwargs = Inr row"
  shows "enqueue_by pick ac now b c args kwargs d = api (sent a (numbers_fit row) (insert_unique_stmt now row) d)"
  using assms bound_row_unique [OF assms(2)]
  by (cases "cr_unique row") (auto simp: enqueue_by_def adapter_sends insert_unique_stmt_def)

lemma enqueue_by_cases:
  obtains (refused) e where "enqueue_by pick ac now b c args kwargs d = (Inl e, d)"
  | (sent) a c' row where "pick c = Inr (a, c')" "bound_row ac b args kwargs = Inr row"
      "enqueue_by pick ac now b c args kwargs d = api (sent a (numbers_fit row) (insert_unique_stmt now row) d)"
proof (cases "pick c")
  case (Inl e)
  then show ?thesis using refused by (simp add: enqueue_by_def)
next
  case (Inr p)
  obtain a c' where p: "p = (a, c')" by fastforce
  show ?thesis
  proof (cases "bound_row ac b args kwargs")
    case (Inl e)
    then show ?thesis using refused Inr by (simp add: enqueue_by_def p)
  next
    case row: (Inr row)
    then show ?thesis using sent enqueue_by_sends [of pick c a c' ac b args kwargs row now d] Inr by (simp add: p)
  qed
qed

lemma snd_api [simp]: "snd (api x) = snd x"
  by (simp add: api_def)

lemma enqueue_steps:
  assumes "bind_options t g = Inr b"
  shows "db_steps d (snd (enqueue_by pick ac now b c args kwargs d))"
  by (cases rule: enqueue_by_cases [of pick ac now b c args kwargs d])
    (simp_all add: insert_steps bound_paired [OF assms])

lemma cancel_steps: "db_steps d (snd (cancel now ids d))"
  using db_stepI [of "Cancel ids" d now] by simp

lemma enqueue_many_steps:
  assumes "bind_options t g = Inr b"
  shows "db_steps d (snd (enqueue_many_by pick ac now b c calls d))"
proof -
  have "db_steps d (snd (adapter_insert_many a whole now (op_unique (bt_options b) \<noteq> NotUnique) rows d))"
    if "bound_rows ac b calls = Inr rows" for a whole rows
    using bound_rows_each [OF that] bound_paired [OF assms] bound_row_unique
    by (intro insert_many_steps) (auto simp: list_all_iff same_kind_def dest!: bspec, blast+)
  then show ?thesis by (auto simp: enqueue_many_by_def split: sum.split)
qed

text \<open>
  Whatever an application calls - enqueueing one job or many, plain or unique, over any
  driver, submitting through its pool, cancelling, looking up - with options as options binds
  them, takes the database from reachable to reachable; looking changes nothing.
\<close>

theorem application_only_issues_statements:
  assumes "reachable_db d" "bind_options t g = Inr b"
  shows "reachable_db (snd (bound_enqueue ac now b c args kwargs d))
    \<and> reachable_db (snd (bound_enqueue_sync ac now b c args kwargs d))
    \<and> reachable_db (snd (enqueue_many_by pick ac now b c calls d))
    \<and> reachable_db (snd (submit app ac now b args kwargs d))
    \<and> reachable_db (snd (cancel_by pick now c ids d))
    \<and> snd (outcome_by pick dec c i d) = d"
proof -
  note reach = reachable_steps [OF _ assms(1)]
  have enq: "reachable_db (snd (enqueue_by pk ac now b cn args kwargs d))" for pk cn
    by (rule reach [OF enqueue_steps [OF assms(2)]])
  have "db_steps d (snd (cancel_by pick now c ids d))"
    by (auto simp: cancel_by_def adapter_sends intro: sent_steps cancel_steps split: sum.split)
  then show ?thesis
    using enq reach [OF enqueue_many_steps [OF assms(2)]] reach assms(1)
    by (auto simp: bound_enqueue_def bound_enqueue_sync_def submit_def outcome_by_def adapter_sends sent_def outcome_of_def
        split: sum.split)
qed

section \<open>A job that is accepted can be dispatched\<close>

lemma inserted_live: "live (inserted_row now row)" "unique_key (inserted_row now row) = cr_unique row"
  by (simp_all add: inserted_row_def default_row_def live_def)

text \<open>What a successful insert says: the row passed its checks, and its job is there.\<close>

lemma insert_unique_stmt_ok:
  assumes "db_inv d" "insert_unique_stmt now row d = (Inr i, d1)"
  shows "row_ok (inserted_row now row)" "list_all text_ok (row_texts row)"
    "i \<in> job_ids d \<or> (inserted_row now row)\<lparr>row_id := i\<rparr> \<in> set (jobs d1)"
    "cr_unique row \<noteq> None \<Longrightarrow> \<exists>r \<in> set (jobs d1). row_id r = i \<and> live r \<and> unique_key r = cr_unique row"
proof -
  let ?r = "inserted_row now row"
  have texts: "list_all text_ok (row_texts row)"
    using assms(2) by (auto simp: insert_unique_stmt_def insert_stmt_def bind_text_def split: option.splits if_splits)
  have ins: "row_ok ?r \<and> ?r\<lparr>row_id := i\<rparr> \<in> set (jobs d1)" if "insert_job now ?r d = (Inr i, d1)"
    using that by (cases rule: insert_job_cases [of now ?r d]) auto
  have "row_ok ?r \<and> (i \<in> job_ids d \<or> ?r\<lparr>row_id := i\<rparr> \<in> set (jobs d1))
      \<and> (cr_unique row \<noteq> None \<longrightarrow> (\<exists>r \<in> set (jobs d1). row_id r = i \<and> live r \<and> unique_key r = cr_unique row))"
  proof (cases "cr_unique row")
    case None
    then show ?thesis using ins assms(2) texts by (simp add: insert_unique_stmt_def insert_stmt_def bind_text_def)
  next
    case (Some key)
    then have run: "insert_unless_live now ?r key d = (Inr i, d1)"
      using assms(2) texts by (simp add: insert_unique_stmt_def bind_text_def)
    show ?thesis
    proof (cases "find (\<lambda>r. live r \<and> unique_key r = Some key) (jobs d)")
      case None
      have "live (?r\<lparr>row_id := i\<rparr>)" "unique_key (?r\<lparr>row_id := i\<rparr>) = Some key" "row_id (?r\<lparr>row_id := i\<rparr>) = i"
        using inserted_live [of now row] Some by (simp_all add: live_def)
      moreover have "row_ok ?r" "?r\<lparr>row_id := i\<rparr> \<in> set (jobs d1)" using ins run None by (simp_all add: insert_unless_live_def)
      ultimately show ?thesis using Some by metis
    next
      case found: (Some r)
      then have "r \<in> set (jobs d)" "live r" "unique_key r = Some key" by (auto simp: find_Some_iff)
      then show ?thesis using run Some by (auto simp: insert_unless_live_def found job_ids_def split: if_splits)
    qed
  qed
  then show "row_ok ?r" "i \<in> job_ids d \<or> ?r\<lparr>row_id := i\<rparr> \<in> set (jobs d1)"
    "cr_unique row \<noteq> None \<Longrightarrow> \<exists>r \<in> set (jobs d1). row_id r = i \<and> live r \<and> unique_key r = cr_unique row" by blast+
  show "list_all text_ok (row_texts row)" by (rule texts)
qed

lemma enqueue_by_ok:
  assumes "enqueue_by pick ac now b c args kwargs d = (Inr i, d1)"
  obtains a c' row where "pick c = Inr (a, c')" "bound_row ac b args kwargs = Inr row" "numbers_fit row"
    "insert_unique_stmt now row d = (Inr i, d1)"
proof (cases rule: enqueue_by_cases [of pick ac now b c args kwargs d])
  case (sent a c' row)
  obtain x d' where run: "insert_unique_stmt now row d = (x, d')" by fastforce
  have "numbers_fit row" "x = Inr i" "d' = d1"
    using assms sent(3) by (cases x; auto simp: sent_def api_def run split: if_splits)+
  then show ?thesis using that sent run by blast
qed (use assms in simp)

lemma fits_frame:
  assumes "length name \<le> 65535" "int (length bs) \<le> payload_limit name"
  shows "encodable mp (Dispatch i x y name bs)"
  using assms by (simp add: encodable_def encode_reference payload_limit_def MAX_FRAME_BYTES_def)

text \<open>
  C9: A job the client accepts can be dispatched. A job enqueued by itself, not as the node of
  a workflow, under a name the protocol can carry, over any driver, fits its frame whenever it is leased, however long after and whatever happened
  to it in between: no dispatcher dead-letters it for its size.
\<close>

theorem accepted_jobs_can_be_dispatched:
  assumes "db_inv d" "enqueue_by pick ac now b c args kwargs d = (Inr i, d1)" "i \<notin> job_ids d"
    and "length (bt_name b) \<le> 65535" "db_steps d1 d2" "r \<in> set (jobs d2)" "row_id r = i"
  shows "sends mp (job_from r) \<and> task r = bt_name b"
proof -
  obtain a c' row where row: "bound_row ac b args kwargs = Inr row" "insert_unique_stmt now row d = (Inr i, d1)"
    by (rule enqueue_by_ok [OF assms(2)]) blast
  let ?r = "(inserted_row now row)\<lparr>row_id := i\<rparr>"
  have first: "?r \<in> set (jobs d1)" using insert_unique_stmt_ok(3) [OF assms(1) row(2)] assms(3) by blast
  have inv: "db_inv d1"
  proof -
    have "db_inv (snd (insert_unique_stmt now row d))" by (rule insert_unique_stmt_inv [OF assms(1)])
    then show ?thesis by (simp add: row(2))
  qed
  have small: "sint i < job_seq d1" using inv first by (force simp: db_inv_def db_wf_def)
  have "\<exists>s \<in> set (jobs d1). row_id s = row_id r \<and> (task r = task s \<and> payload r = payload s)"
    by (rule rows_related [OF assms(5) inv assms(6)]) (use small assms(7) in \<open>simp_all add: row_step_frame\<close>)
  then obtain s where s: "s \<in> set (jobs d1)" "row_id s = i" "task r = task s" "payload r = payload s" using assms(7) by auto
  have "s = ?r" by (rule job_row_eqI [of "jobs d1"]) (use inv s first in \<open>simp_all add: db_inv_def db_wf_def\<close>)
  then have "task r = bt_name b \<and> payload r = cr_payload row"
    using s row(1) by (auto simp: inserted_row_def default_row_def bound_row_def Let_def split: if_splits option.splits)
  moreover have "int (length (cr_payload row)) \<le> payload_limit (bt_name b)"
    using row(1) by (auto simp: bound_row_def Let_def split: if_splits option.splits)
  ultimately show ?thesis using assms(4) by (auto simp: sends_def dispatch_message_def job_from_def intro: fits_frame)
qed

text \<open>The samples: a call on \<open>asyncpg\<close>, with arguments that are bytes already.\<close>

definition pg_conn :: conn where
  "pg_conn = Conn ''asyncpg.connection'' [''builtins''] True None None None True"

definition django_conn :: conn where
  "django_conn =
     Conn ''django.db.backends.postgresql.base'' [''builtins''] False None
       (Some (Conn ''psycopg'' [''builtins''] False None None None True)) None True"

definition byte_codec :: "byte arg_codec" where
  "byte_codec =
     \<lparr>ac_args = (\<lambda>args kwargs. Some (args @ map snd kwargs)),
      ac_identity = (\<lambda>name q ident. Some (as_bytes name @ as_bytes q @
         (case ident of KeyIdentity k \<Rightarrow> as_bytes k | CallIdentity args kwargs \<Rightarrow> args @ map snd kwargs))),
      ac_blake2b = (\<lambda>bs. bs)\<rparr>"

definition send_task :: "(unit, unit, unit) reg_task" where
  "send_task =
     \<lparr>tk_run = (\<lambda>_ _. Returned ()), tk_retry_on = [''Exception''], tk_no_retry_on = [], tk_store_result = False,
      tk_durable = False, tk_wants_context = False, tk_name = ''send'', tk_timeout = None, tk_is_async = True\<rparr>"

definition sample_bound :: "unique_option \<Rightarrow> bound_task" where
  "sample_bound u = \<lparr>bt_name = ''send'', bt_durable = False, bt_options = default_options\<lparr>op_unique := u\<rparr>\<rparr>"

lemma sample_bound_options: "bind_options send_task (nothing_given\<lparr>gv_unique := Some u\<rparr>) = Inr (sample_bound u)"
  by (simp add: bind_options_def task_options_def nothing_given_def default_options_def send_task_def sample_bound_def)

theorem application_only_issues_statements_witness:
  "reachable_db (snd (bound_enqueue byte_codec 20 (sample_bound ByArguments) pg_conn [1, 2] [] worked_db))"
  using application_only_issues_statements [OF worked_db_reachable sample_bound_options [of ByArguments],
      of byte_codec 20 pg_conn "[1, 2]" "[]" async_adapter "[]" "new_app None" "[]" "\<lambda>_. None" 0] by blast

text \<open>What that call sends, plain and unique.\<close>

definition sample_call :: "bytes option \<Rightarrow> call_row" where
  "sample_call key = (plain_call key)\<lparr>cr_payload := [1, 2, 3, 4]\<rparr>"

definition sample_key :: bytes where
  "sample_key = as_bytes ''send'' @ as_bytes ''default'' @ [1, 2, 3, 4]"

lemma sample_bound_row:
  "bound_row byte_codec (sample_bound NotUnique) [1, 2] [(''a'', 3), (''b'', 4)] = Inr (sample_call None)"
  "bound_row byte_codec (sample_bound ByArguments) [1, 2] [(''a'', 3), (''b'', 4)] = Inr (sample_call (Some sample_key))"
  by (simp_all add: bound_row_def byte_codec_def sample_bound_def default_options_def payload_limit_def MAX_FRAME_BYTES_def
      unique_digest_def sample_call_def plain_call_def sample_key_def Let_def)

definition enqueued :: "unique_option \<Rightarrow> (api_error, i64) result \<times> db" where
  "enqueued u = enqueue_by async_adapter byte_codec 20 (sample_bound u) pg_conn [1, 2] [(''a'', 3), (''b'', 4)] worked_db"

lemma sample_picks:
  "async_adapter pg_conn = Inr (AsyncpgAdapter, pg_conn)"
  "sync_adapter django_conn = Inr (SyncPsycopgAdapter, Conn ''psycopg'' [''builtins''] False None None None True)"
  by code_simp+

lemma enqueued_ok:
  assumes "(u, key) \<in> {(NotUnique, None), (ByArguments, Some sample_key)}"
  obtains d1 r where "enqueued u = (Inr 2, d1)" "r \<in> set (jobs d1)" "row_id r = 2" "live r" "job_seq d1 = 3" "2 \<notin> job_ids worked_db"
proof -
  let ?f = "sent AsyncpgAdapter (numbers_fit (sample_call key)) (insert_unique_stmt 20 (sample_call key)) worked_db"
  have ids: "2 \<notin> job_ids worked_db" by (simp add: job_ids_def worked_db_jobs leased_row_def plain_row_def)
  have eq: "enqueued u = api ?f"
    using assms enqueue_by_sends [where pick = async_adapter and c = pg_conn, OF sample_picks(1) sample_bound_row(1)] enqueue_by_sends [where pick = async_adapter and c = pg_conn, OF sample_picks(1) sample_bound_row(2)]
    by (auto simp: enqueued_def)
  have "map_sum id id (fst ?f) = Inr 2 \<and> job_seq (snd ?f) = 3 \<and> list_ex (\<lambda>r. row_id r = 2 \<and> live r) (jobs (snd ?f))"
    using assms by (elim insertE emptyE; simp; code_simp)
  then obtain x where x: "?f = (Inr x, snd ?f)" "x = 2" "job_seq (snd ?f) = 3" "\<exists>r \<in> set (jobs (snd ?f)). row_id r = 2 \<and> live r"
    by (auto elim!: ok_pair simp: list_ex_iff)
  have "api ?f = (Inr 2, snd ?f)" using x(1,2) by (cases ?f) (simp add: api_def)
  then show ?thesis using that [of "snd ?f"] x(3,4) ids eq by auto
qed

theorem accepted_jobs_can_be_dispatched_witness:
  "\<exists>d1 r. enqueued NotUnique = (Inr 2, d1) \<and> r \<in> set (jobs d1) \<and> row_id r = 2 \<and> sends unary_pack (job_from r)"
proof -
  have inv: "db_inv worked_db" using pg.reach_inv worked_db_reachable by (simp add: reachable_db_def)
  obtain d1 r where e: "enqueued NotUnique = (Inr 2, d1)" "r \<in> set (jobs d1)" "row_id r = 2" "2 \<notin> job_ids worked_db"
    by (rule enqueued_ok [of NotUnique None]) auto
  have "sends unary_pack (job_from r) \<and> task r = bt_name (sample_bound NotUnique)"
    by (rule accepted_jobs_can_be_dispatched [OF inv e(1) [unfolded enqueued_def] e(4) _ rtranclp.rtrancl_refl e(2,3)])
      (simp add: sample_bound_def)
  then show ?thesis using e by blast
qed

text \<open>
  The nodes of a workflow are not held to the limit: arguments that a call refuses as too large
  are enqueued in a graph, and the job is then one that cannot be dispatched.
\<close>

theorem workflow_skips_the_size_check:
  assumes "ac_args ac args kwargs = Some bs" "payload_limit (bt_name b) < int (length bs)" "bound_signature ac b args kwargs = Inr s"
  shows "bound_row ac b args kwargs = Inl (ArgumentsTooLarge (bt_name b) (length bs))
    \<and> \<not> sends mp (job_from ((node_row now w s n)\<lparr>row_id := i\<rparr>))"
proof -
  have s: "sg_task s = bt_name b" "sg_payload s = bs"
    using assms(1,3) by (auto simp: bound_signature_def Let_def split: if_splits)
  have "MAX_FRAME_BYTES < 15 + length (bt_name b) + length bs" using assms(2) by (simp add: payload_limit_def)
  then show ?thesis
    using assms(1,2)
    by (simp add: bound_row_def sends_def dispatch_message_def job_from_def node_row_def default_row_def s encodable_def encode_reference)
qed

section \<open>A repeated call finds the live job\<close>

lemma unique_digest_order:
  assumes "mset kwargs' = mset kwargs" "distinct (map fst kwargs)"
  shows "unique_digest ac name opts args kwargs' = unique_digest ac name opts args kwargs"
proof -
  have "inj_on fst (set kwargs')" using assms mset_eq_setD [OF assms(1)] by (simp add: distinct_map)
  then have "sort_key fst kwargs' = sort_key fst kwargs"
    using assms(1) by (intro sort_key_inj_key_eq) simp_all
  then show ?thesis by (simp add: unique_digest_def split: unique_option.split)
qed

text \<open>Nothing of a row but its payload depends on the arguments of the call, and of its key only their content.\<close>

lemma same_call_rows:
  assumes "bound_row ac b args kwargs = Inr row" "bound_row ac b args kwargs' = Inr row'"
    and "mset kwargs' = mset kwargs" "distinct (map fst kwargs)"
  shows "row' = row\<lparr>cr_payload := cr_payload row'\<rparr>"
  using assms unique_digest_order [OF assms(3,4), of ac "bt_name b" "bt_options b" args]
  by (auto simp: bound_row_def Let_def split: if_splits option.splits)

lemma insert_unique_stmt_found:
  assumes "db_inv d" "cr_unique row = Some key" "r \<in> set (jobs d)" "live r" "unique_key r = Some key" "job_seq d < 2 ^ 63"
    and "row_ok (inserted_row now row)" "list_all text_ok (row_texts row)"
  shows "insert_unique_stmt now row d = (Inr (row_id r), d\<lparr>job_seq := job_seq d + 1\<rparr>)"
proof -
  obtain s where s: "find (\<lambda>r. live r \<and> unique_key r = Some key) (jobs d) = Some s"
    using assms(3-5) by (cases "find (\<lambda>r. live r \<and> unique_key r = Some key) (jobs d)") (auto simp: find_None_iff)
  then have "s \<in> set (jobs d)" "live s" "unique_key s = Some key" by (auto simp: find_Some_iff)
  moreover have "unique_ok (jobs d)" using assms(1) by (simp add: db_inv_def db_wf_def)
  ultimately have "row_id s = row_id r"
    using assms(3-5) unfolding unique_ok_iff unique_clash_def by (metis option.distinct(1))
  then show ?thesis
    using assms(2,6-8) s by (simp add: insert_unique_stmt_def bind_text_def insert_unless_live_def)
qed

text \<open>
  C10: A repeated call is enqueued once. After a unique call, whatever statements ran, as long as its job
  waits or runs, the same call - its keywords in any order, over any driver and any
  connection - succeeds, returns the identifier of that job and adds nothing.
\<close>

theorem repeated_call_finds_the_live_job:
  assumes "db_inv d" "op_unique (bt_options b) \<noteq> NotUnique" "enqueue_by pick ac now b c args kwargs d = (Inr i, d1)"
    and "db_steps d1 d2" "r \<in> set (jobs d2)" "row_id r = i" "live r" "job_seq d2 < 2 ^ 63"
    and "mset kwargs' = mset kwargs" "distinct (map fst kwargs)"
    and "pick' c2 = Inr (a', c3)" "bound_row ac b args kwargs' = Inr row'"
  shows "enqueue_by pick' ac now' b c2 args kwargs' d2 = (Inr i, d2\<lparr>job_seq := job_seq d2 + 1\<rparr>)"
proof -
  obtain a c' row where row: "bound_row ac b args kwargs = Inr row" "numbers_fit row" "insert_unique_stmt now row d = (Inr i, d1)"
    by (rule enqueue_by_ok [OF assms(3)]) blast
  note same = same_call_rows [OF row(1) assms(12) assms(9,10)]
  obtain key where key: "cr_unique row = Some key" using bound_row_unique [OF row(1)] assms(2) by auto
  have key': "cr_unique row' = Some key" and fits: "numbers_fit row'" and texts: "row_texts row' = row_texts row"
    using key row(2) by (subst same, simp add: numbers_fit_def row_texts_def)+
  have ok: "row_ok (inserted_row now' row')"
    using insert_unique_stmt_ok(1) [OF assms(1) row(3)]
    by (subst same) (simp add: inserted_row_def default_row_def row_ok_def attempt_bounds_def lease_paired_def concurrency_ok_def)
  have inv: "db_inv d1" using insert_unique_stmt_inv [OF assms(1), of now row] row(3) by simp
  obtain s where s: "s \<in> set (jobs d1)" "row_id s = i" "unique_key s = Some key"
    using insert_unique_stmt_ok(4) [OF assms(1) row(3)] key by auto
  have "\<exists>x \<in> set (jobs d1). row_id x = row_id r \<and> unique_key r = unique_key x"
    by (rule rows_related [OF assms(4) inv assms(5)]) (use inv s assms(6) in \<open>force simp: db_inv_def db_wf_def row_step_frame\<close>)+
  then obtain x where x: "x \<in> set (jobs d1)" "row_id x = i" "unique_key r = unique_key x" using assms(6) by auto
  have "x = s" by (rule job_row_eqI [of "jobs d1"]) (use inv s x in \<open>simp_all add: db_inv_def db_wf_def\<close>)
  then have "unique_key r = Some key" using x s by simp
  then have "insert_unique_stmt now' row' d2 = (Inr i, d2\<lparr>job_seq := job_seq d2 + 1\<rparr>)"
    using insert_unique_stmt_found [OF pg.steps_inv [OF assms(4) inv] key' assms(5,7) _ assms(8) ok]
      insert_unique_stmt_ok(2) [OF assms(1) row(3)] assms(6) texts by simp
  then show ?thesis
    using enqueue_by_sends [of pick' c2 a' c3 ac b args kwargs' row' now' d2] assms(11,12) fits by (simp add: sent_def api_def)
qed

theorem repeated_call_finds_the_live_job_witness:
  "\<exists>d1. enqueued ByArguments = (Inr 2, d1)
     \<and> fst (enqueue_by sync_adapter byte_codec 40 (sample_bound ByArguments) django_conn [1, 2] [(''b'', 4), (''a'', 3)] d1) = Inr 2"
proof -
  have inv: "db_inv worked_db" using pg.reach_inv worked_db_reachable by (simp add: reachable_db_def)
  obtain d1 r where e: "enqueued ByArguments = (Inr 2, d1)" "r \<in> set (jobs d1)" "row_id r = 2" "live r" "job_seq d1 = 3"
    by (rule enqueued_ok [of ByArguments "Some sample_key"]) auto
  obtain row where row: "bound_row byte_codec (sample_bound ByArguments) [1, 2] [(''b'', 4), (''a'', 3)] = Inr row"
    by (simp add: bound_row_def byte_codec_def sample_bound_def default_options_def payload_limit_def MAX_FRAME_BYTES_def
        unique_digest_def Let_def)
  have "enqueue_by sync_adapter byte_codec 40 (sample_bound ByArguments) django_conn [1, 2] [(''b'', 4), (''a'', 3)] d1
      = (Inr 2, d1\<lparr>job_seq := job_seq d1 + 1\<rparr>)"
    by (rule repeated_call_finds_the_live_job [where pick' = sync_adapter and ?c2.0 = django_conn,
          OF inv _ e(1) [unfolded enqueued_def] rtranclp.rtrancl_refl e(2,3,4) _ _ _ sample_picks(2) row])
      (simp_all add: sample_bound_def e(5))
  then show ?thesis using e(1) by simp
qed

section \<open>An ended job stays as it was seen\<close>

lemma find_job_iff:
  assumes "distinct (map row_id (jobs d))"
  shows "find_job i d = Some r \<longleftrightarrow> r \<in> set (jobs d) \<and> row_id r = i"
proof
  show "r \<in> set (jobs d) \<and> row_id r = i" if "find_job i d = Some r"
    using that by (auto simp: find_job_def find_Some_iff)
  show "find_job i d = Some r" if r: "r \<in> set (jobs d) \<and> row_id r = i"
  proof (cases "find_job i d")
    case (Some s)
    then have "s \<in> set (jobs d)" "row_id s = i" by (auto simp: find_job_def find_Some_iff)
    then have "s = r" using job_row_eqI [OF assms] r by simp
    then show ?thesis using Some by simp
  qed (use r in \<open>auto simp: find_job_def find_None_iff\<close>)
qed

definition ended_for_good :: "job_state \<Rightarrow> bool" where
  "ended_for_good s \<longleftrightarrow> s = Completed \<or> s = Cancelled"

lemma row_step_ended:
  assumes "row_step now r r'" "ended_for_good (state r)"
  shows "state r' = state r" "job_result r' = job_result r" "errors r' = errors r"
  using assms by (cases; simp add: ended_for_good_def)+

lemma outcome_by_row:
  assumes "pick c = Inr (a, c')"
  shows "outcome_by pick dec c i d =
    (outcome_from dec (map_option (\<lambda>r. \<lparr>o_state = state_text (state r), o_result = job_result r, o_errors = errors r\<rparr>) (find_job i d)), d)"
  using assms by (simp add: outcome_by_def adapter_sends sent_def outcome_of_def)

lemma outcome_from_state:
  "outcome_from dec (Some out) = Inr (Some seen) \<Longrightarrow> po_state seen = o_state out"
  by (auto simp: outcome_from_def split: option.splits)

text \<open>
  C11: What a caller saw of an ended job stays true. Once a lookup says a job completed or was
  cancelled, every later lookup, over any driver and after any statements, says the same - the
  same state, result and errors - or that the job is gone; a job that succeeded never fails
  afterwards and never runs again.
\<close>

theorem ended_job_stays_as_seen:
  assumes "db_inv d" "pick c = Inr (a, c1)" "pick' c' = Inr (a', c2)" "db_steps d d'"
    and "fst (outcome_by pick dec c i d) = Inr (Some seen)" "succeeded seen \<or> po_state seen = ''cancelled''"
  shows "fst (outcome_by pick' dec c' i d') \<in> {Inr None, Inr (Some seen)}"
proof -
  note seen_at = outcome_by_row [where pick = pick and c = c, OF assms(2)]
  note seen' = outcome_by_row [where pick = pick' and c = c', OF assms(3)]
  show ?thesis
  proof (cases "find_job i d'")
    case None
    then show ?thesis by (simp add: seen' outcome_from_def)
  next
    case (Some r')
    have inv': "db_inv d'" by (rule pg.steps_inv [OF assms(4,1)])
    have dist: "distinct (map row_id (jobs d))" "distinct (map row_id (jobs d'))"
      using assms(1) inv' by (simp_all add: db_inv_def db_wf_def)
    obtain r where r: "find_job i d = Some r"
      using assms(5) by (cases "find_job i d") (simp_all add: seen_at outcome_from_def)
    then have mem: "r \<in> set (jobs d)" "row_id r = i" "r' \<in> set (jobs d')" "row_id r' = i"
      using Some find_job_iff [OF dist(1)] find_job_iff [OF dist(2)] by auto
    have "state_text (state r) = po_state seen"
      using assms(5) r outcome_from_state [of dec _ seen] by (fastforce simp: seen_at)
    then have ended: "ended_for_good (state r)"
      using assms(6) by (cases "state r") (auto simp: succeeded_def state_text_def ended_for_good_def)
    have "\<exists>s \<in> set (jobs d). row_id s = row_id r'
        \<and> (ended_for_good (state s) \<longrightarrow> state r' = state s \<and> job_result r' = job_result s \<and> errors r' = errors s)"
    proof (rule rows_related [OF assms(4,1) mem(3)])
      show "sint (row_id r') < job_seq d" using assms(1) mem by (force simp: db_inv_def db_wf_def)
    qed (auto simp: row_step_ended)
    then obtain s where s: "s \<in> set (jobs d)" "row_id s = i"
      "ended_for_good (state s) \<longrightarrow> state r' = state s \<and> job_result r' = job_result s \<and> errors r' = errors s" using mem(4) by auto
    have "s = r" by (rule job_row_eqI [OF dist(1) s(1) mem(1)]) (simp add: s(2) mem(2))
    then have "state r' = state r" "job_result r' = job_result r" "errors r' = errors r" using s(3) ended by simp_all
    then show ?thesis using assms(5) by (simp add: seen_at seen' r Some)
  qed
qed

definition finished_db :: db where
  "finished_db = exec 30 (CompleteJobs [1] [Some [9]] 7) worked_db"

theorem ended_job_stays_as_seen_witness:
  "\<exists>seen. fst (outcome_by async_adapter Some pg_conn 1 finished_db) = Inr (Some seen) \<and> succeeded seen
     \<and> fst (outcome_by sync_adapter Some django_conn 1 (exec 90 (Cancel [1]) finished_db)) \<in> {Inr None, Inr (Some seen)}"
proof -
  have inv: "db_inv finished_db"
    using pg.reach_inv reachable_exec [OF worked_db_reachable] by (simp add: finished_db_def reachable_db_def del: exec.simps)
  have later: "db_steps finished_db (exec 90 (Cancel [1]) finished_db)"
    by (rule r_into_rtranclp, rule db_stepI) simp
  have "case fst (outcome_by async_adapter Some pg_conn 1 finished_db) of Inr (Some s) \<Rightarrow> succeeded s | _ \<Rightarrow> False" by code_simp
  then obtain seen where seen: "fst (outcome_by async_adapter Some pg_conn 1 finished_db) = Inr (Some seen)" "succeeded seen"
    by (auto split: sum.splits option.splits)
  have "fst (outcome_by sync_adapter Some django_conn 1 (exec 90 (Cancel [1]) finished_db)) \<in> {Inr None, Inr (Some seen)}"
    by (rule ended_job_stays_as_seen [where pick = async_adapter and c = pg_conn and pick' = sync_adapter and c' = django_conn,
          OF inv sample_picks later seen(1)])
      (simp add: seen(2))
  then show ?thesis using seen by blast
qed

section \<open>Declarations\<close>

definition app_ok :: "('a, 'v, 'e) app \<Rightarrow> bool" where
  "app_ok app \<longleftrightarrow>
     distinct (map fst (ap_tasks app)) \<and> distinct (map fst (ap_crons app))
   \<and> (\<forall>(n, t) \<in> set (ap_tasks app). tk_name t = n \<and> (tk_durable t \<longrightarrow> tk_is_async t \<and> \<not> tk_wants_context t))
   \<and> (\<forall>(n, c) \<in> set (ap_crons app). reg_name c = n \<and> reg_task c = n \<and> n \<in> fst ` set (ap_tasks app))"

text \<open>What the module of an application may do to it, in any order.\<close>

definition declares :: "'p arg_codec \<Rightarrow> ('a, 'v, 'e) app \<Rightarrow> ('a, 'v, 'e) app \<Rightarrow> bool" where
  "declares ac app app' \<longleftrightarrow>
     (\<exists>ta f. app' = snd (register_task ta f app)) \<or> (\<exists>ca f. app' = snd (register_cron ac ca f app))
   \<or> (\<exists>c. app' = bind_pool c app)"

lemma register_task_cases:
  obtains (refused) e where "register_task ta f app = (Inl e, app)" "\<And>n. e \<noteq> ScheduleTaken n"
  | (registered) t where "register_task ta f app = (Inr t, app\<lparr>ap_tasks := ap_tasks app @ [(tk_name t, t)]\<rparr>)"
      "tk_name t = name_or (ta_name ta) (fn_module f @ ''.'' @ fn_qualname f)" "tk_name t \<notin> fst ` set (ap_tasks app)"
      "tk_durable t \<Longrightarrow> tk_is_async t \<and> \<not> tk_wants_context t"
  by (cases "fst (register_task ta f app)") (auto simp: register_task_def Let_def split: if_splits)

lemma register_task_ok:
  assumes "app_ok app"
  shows "app_ok (snd (register_task ta f app))"
  by (cases rule: register_task_cases [of ta f app]) (use assms in \<open>auto simp: app_ok_def\<close>)

text \<open>
  A schedule has the name of its task, and the task is registered first: the check for a schedule of
  the same name never finds one.
\<close>

lemma name_or_idem: "name_or n (name_or n x) = name_or n x"
  by (simp add: name_or_def split: option.split)

lemma register_cron_cases [consumes 1, case_names task_only declared]:
  assumes "app_ok app"
  obtains (task_only) e app1 where "register_cron ac ca f app = (Inl e, app1)" "app_ok app1" "\<And>n. e \<noteq> ScheduleTaken n"
  | (declared) t bs where "register_cron ac ca f app = (Inr t,
        app\<lparr>ap_tasks := ap_tasks app @ [(tk_name t, t)],
            ap_crons := ap_crons app @ [(tk_name t, \<lparr>reg_name = tk_name t, reg_queue = ca_queue ca, reg_task = tk_name t,
              reg_expression = ca_expression ca, reg_timezone = ca_timezone ca, reg_payload = bs\<rparr>)]\<rparr>)"
      "app_ok (app\<lparr>ap_tasks := ap_tasks app @ [(tk_name t, t)]\<rparr>)" "tk_name t \<notin> fst ` set (ap_tasks app)"
proof (cases rule: register_task_cases [of "default_args\<lparr>ta_name := ca_name ca\<rparr>" f app])
  case (refused e)
  then show ?thesis using task_only [of e app] assms by (simp add: register_cron_def)
next
  case (registered t)
  have same: "name_or (ca_name ca) (tk_name t) = tk_name t" using registered(2) by (simp add: name_or_idem)
  have ok: "app_ok (app\<lparr>ap_tasks := ap_tasks app @ [(tk_name t, t)]\<rparr>)"
    using register_task_ok [OF assms, of "default_args\<lparr>ta_name := ca_name ca\<rparr>" f] registered(1) by simp
  have new: "tk_name t \<notin> fst ` set (ap_crons app)" using assms registered(3) by (auto simp: app_ok_def)
  show ?thesis
  proof (cases "ac_args ac (ca_args ca) (ca_kwargs ca)")
    case None
    then show ?thesis using task_only [OF _ ok] registered(1) same new by (simp add: register_cron_def Let_def)
  next
    case (Some bs)
    then show ?thesis using declared [OF _ ok registered(3), of bs] registered(1) same new by (simp add: register_cron_def Let_def)
  qed
qed

lemma register_cron_ok:
  assumes "app_ok app"
  shows "app_ok (snd (register_cron ac ca f app))"
  using assms
proof (cases rule: register_cron_cases [where ac = ac and ca = ca and f = f])
  case (declared t bs)
  have "tk_name t \<notin> fst ` set (ap_crons app)" using assms declared(3) by (auto simp: app_ok_def)
  then show ?thesis using declared(2) by (auto simp: declared(1) app_ok_def)
qed simp

lemma bind_pool_ok: "app_ok app \<Longrightarrow> app_ok (bind_pool c app)"
  by (simp add: app_ok_def bind_pool_def)

interpretation apps: inductive_invariant "\<lambda>a. \<exists>t. a = new_app t" "declares ac" app_ok for ac
proof unfold_locales
  show "app_ok s" if "\<exists>t. s = new_app t" for s using that by (auto simp: app_ok_def new_app_def)
  show "app_ok s'" if "app_ok s" "declares ac s s'" for s s'
    using that by (auto simp: declares_def register_task_ok register_cron_ok bind_pool_ok)
qed

section \<open>Schedules arrive in the table\<close>

definition cron_of :: "cron_registration \<Rightarrow> cron_row \<Rightarrow> bool" where
  "cron_of e row \<longleftrightarrow>
     c_name row = reg_name e \<and> c_queue row = reg_queue e \<and> c_task row = reg_task e \<and> c_payload row = reg_payload e
   \<and> c_expression row = reg_expression e \<and> c_timezone row = reg_timezone e"

definition entry_of :: "cron_registration \<Rightarrow> cron_entry" where
  "entry_of e =
     \<lparr>ce_name = reg_name e, ce_queue = reg_queue e, ce_task = reg_task e, ce_payload = reg_payload e,
      ce_expression = reg_expression e, ce_timezone = reg_timezone e\<rparr>"

definition storable :: "cron_registration \<Rightarrow> bool" where
  "storable e \<longleftrightarrow> list_all text_ok [reg_name e, reg_queue e, reg_task e, reg_expression e, reg_timezone e]"

lemma upsert_others:
  "row \<in> set (crons d) \<Longrightarrow> c_name row \<noteq> ce_name e \<Longrightarrow> row \<in> set (crons (snd (upsert_cron now e next_run d)))"
  by (auto simp: upsert_cron_def bind_text_def)

lemma upsert_arrives:
  assumes "storable e"
  shows "\<exists>row \<in> set (crons (snd (upsert_cron now (entry_of e) next_run d))). cron_of e row"
proof (cases "list_ex (\<lambda>c. c_name c = reg_name e) (crons d)")
  case True
  then obtain c where c: "c \<in> set (crons d)" "c_name c = reg_name e" by (auto simp: list_ex_iff)
  have "upsert_row now (entry_of e) next_run c \<in> set (crons (snd (upsert_cron now (entry_of e) next_run d)))"
    using assms True c by (auto simp: upsert_cron_def bind_text_def storable_def entry_of_def)
  moreover have "cron_of e (upsert_row now (entry_of e) next_run c)"
    using c(2) by (simp add: cron_of_def upsert_row_def entry_of_def)
  ultimately show ?thesis by blast
qed (use assms in \<open>simp add: upsert_cron_def bind_text_def storable_def entry_of_def cron_of_def\<close>)

lemma register_others:
  "row \<in> set (crons d) \<Longrightarrow> c_name row \<notin> reg_name ` set es
    \<Longrightarrow> row \<in> set (crons (register_schedules lib (quiet now) t k es d))"
  by (induction es arbitrary: k d)
    (auto simp: run_stmt_def quiet_def Let_def prod.case_eq_if upsert_others split: sum.split)

lemma register_arrives:
  assumes "e \<in> set es" "distinct (map reg_name es)" "storable e" "next_run_of lib (reg_expression e) (reg_timezone e) t = Inr n"
  shows "\<exists>row \<in> set (crons (register_schedules lib (quiet now) t k es d)). cron_of e row"
  using assms(1,2)
proof (induction es arbitrary: k d)
  case (Cons x es)
  show ?case
  proof (cases "x = e")
    case True
    let ?d = "snd (upsert_cron now (entry_of e) n d)"
    obtain row where row: "row \<in> set (crons ?d)" "cron_of e row" using upsert_arrives [OF assms(3)] by blast
    have "row \<in> set (crons (register_schedules lib (quiet now) t (Suc k) es ?d))"
      by (rule register_others [OF row(1)]) (use row(2) Cons.prems(2) True in \<open>simp add: cron_of_def\<close>)
    then show ?thesis
      using row(2) assms(4) by (auto simp: True run_stmt_def quiet_def Let_def prod.case_eq_if entry_of_def)
  next
    case False
    then show ?thesis using Cons by (auto simp: Let_def prod.case_eq_if split: sum.split)
  qed
qed simp

text \<open>
  C29: Every schedule an application declares arrives. However its module registers tasks and
  schedules, the frame the child opens its connection with is read by the supervisor as these
  schedules, and handling it leaves a row for each one whose expression has a next run, with the
  task, queue, arguments and expression declared; and the task such a row will enqueue is registered.
\<close>

theorem declared_schedules_arrive:
  fixes app :: "('a, 'v, 'e) app" and col :: collector
  assumes "reach (\<lambda>a. \<exists>t. a = new_app t) (declares ac) app" "packs_agree mp ps"
    and "encode_register ps (declared_crons app) = Some frame" "length frame \<le> MAX_FRAME_BYTES"
    and "e \<in> set (declared_crons app)" "storable e" "next_run_of (cg_lib g) (reg_expression e) (reg_timezone e) t = Inr n"
  shows "fst (next_message mp (Protocol.extend new_decoder frame)) = Inr (Some (Register (declared_crons app)))
    \<and> (\<exists>row \<in> set (crons (co_db (handle g (quiet now) t inst (Register (declared_crons app)) col))). cron_of e row)
    \<and> find_task app (reg_task e) \<noteq> None"
proof (intro conjI)
  have ok: "app_ok app" by (rule apps.reach_inv [OF assms(1)])
  have "peek mp (frame @ []) = Inr (Some (Register (declared_crons app), []))"
    by (rule encode_register_read [OF assms(2,3)])
      (use assms(3,4) in \<open>auto simp: encode_register_def pack_length_def Let_def split: if_splits\<close>)
  then show "fst (next_message mp (Protocol.extend new_decoder frame)) = Inr (Some (Register (declared_crons app)))"
    using next_message_peek [of "Protocol.extend new_decoder frame" mp] by auto
  have "map reg_name (declared_crons app) = map fst (ap_crons app)"
    using ok by (auto simp: declared_crons_def app_ok_def)
  then have "distinct (map reg_name (declared_crons app))" using ok by (simp add: app_ok_def)
  then show "\<exists>row \<in> set (crons (co_db (handle g (quiet now) t inst (Register (declared_crons app)) col))). cron_of e row"
    using register_arrives [OF assms(5) _ assms(6,7)] by simp
  obtain m where "(m, e) \<in> set (ap_crons app)" using assms(5) by (auto simp: declared_crons_def)
  then have "case (m, e) of (n, c) \<Rightarrow> reg_name c = n \<and> reg_task c = n \<and> n \<in> fst ` set (ap_tasks app)"
    using ok unfolding app_ok_def by (elim conjE) (erule bspec)
  then have "reg_task e \<in> fst ` set (ap_tasks app)" by simp
  then show "find_task app (reg_task e) \<noteq> None" by (auto simp: find_task_def map_of_eq_None_iff)
qed

text \<open>An application with one schedule, at every hour.\<close>

definition tick_func :: "(unit, unit, unit) func" where
  "tick_func = \<lparr>fn_module = ''jobs'', fn_qualname = ''tick'', fn_coroutine = True, fn_run = (\<lambda>_ _. Returned ())\<rparr>"

definition tick_args :: "byte cron_args" where
  "tick_args =
     \<lparr>ca_expression = ''0 * * * *'', ca_name = Some ''tick'', ca_timezone = ''UTC'', ca_queue = ''default'', ca_args = [], ca_kwargs = []\<rparr>"

definition tick_app :: "(unit, unit, unit) app" where
  "tick_app = snd (register_cron byte_codec tick_args tick_func (new_app None))"

definition tick_entry :: cron_registration where
  "tick_entry =
     \<lparr>reg_name = ''tick'', reg_queue = ''default'', reg_task = ''tick'', reg_expression = ''0 * * * *'', reg_timezone = ''UTC'',
      reg_payload = []\<rparr>"

lemma tick_declared: "declared_crons tick_app = [tick_entry]"
  by (simp add: tick_app_def tick_args_def tick_func_def tick_entry_def declared_crons_def register_cron_def register_task_def
      default_args_def new_app_def name_or_def byte_codec_def Let_def)

theorem declared_schedules_arrive_witness:
  "\<exists>frame. encode_register unary_spec (declared_crons tick_app) = Some frame
     \<and> (\<exists>row \<in> set (crons (co_db (handle sample_collecting (quiet 20) 20 0 (Register (declared_crons tick_app))
           (new_collector busy worked_db)))). cron_of tick_entry row)"
proof -
  have reach: "reach (\<lambda>a. \<exists>t. a = new_app t) (declares byte_codec) tick_app"
    unfolding tick_app_def by (rule reach_step [OF reach_init]) (auto simp: declares_def)
  have len: "length (ms_entries unary_spec [tick_entry]) < 100" by code_simp
  obtain frame where frame: "encode_register unary_spec (declared_crons tick_app) = Some frame" "length frame \<le> MAX_FRAME_BYTES"
    using len by (auto simp: encode_register_def pack_length_def Let_def tick_declared MAX_FRAME_BYTES_def)
  have "next_run_of (cg_lib sample_collecting) (reg_expression tick_entry) (reg_timezone tick_entry) 20 = Inr ((20 div 3600000000 + 1) * 3600000000)"
    using cron_sample_next [of 20] by (simp add: sample_collecting_def tick_entry_def cron_sample_def)
  then show ?thesis
    using declared_schedules_arrive [OF reach unary_packs_agree frame, of tick_entry sample_collecting 20 _ 20 0 "new_collector busy worked_db"]
      frame(1) by (auto simp: tick_declared storable_def tick_entry_def text_ok_def)
qed

end
