(* ===== verification/Spec2Isabelle.thy ===== *)
theory Spec2Isabelle
  imports Capability Schedule Protocol Admission Recovery Completion Failure CronTable Retention Workflow Client Statements Redis Supervisor Worker Reports Delivery Commands Chaos Child Serving Durable Journey Session Adapters Application
begin

text \<open>
  Verification of gylo, a task queue: a Rust backend on Postgres (or Redis), a Rust worker that
  leases jobs and supervises one Python child, and the Python client and child that enqueue and run
  tasks. Paths are relative to \<open>src/\<close>.

  \<^bold>\<open>The program.\<close> A client (\<open>python/gylo\<close>) inserts rows into \<open>gylo_job\<close> on its own connection. A worker
  (\<open>crates/gylo-worker\<close>) leases due rows in batches (\<open>crates/gylo-pg\<close>), writes each as a frame
  (\<open>crates/gylo-core/src/protocol.rs\<close>) to the socket of its child (\<open>python/gylo/_worker.py\<close>), which runs
  the task and reports. The worker collects the reports, records them in batches, renews the leases of
  what is in flight, sweeps expired leases of dead workers, fires schedules and prunes history. Steps of
  durable tasks go from the child through the worker into \<open>gylo_step\<close> and are confirmed back. Workflows
  are jobs with edges: completing the last parent makes a child due.

  \<^bold>\<open>The model.\<close> One theory per component, in the order of the dependencies.

  \<^item> \<open>Prelude\<close>: machine words, byte strings and UTF-8, results, the locale \<open>inductive_invariant\<close> for
    state machines, shared lemmas. \<open>Samples\<close>: concrete databases.
  \<^item> \<open>Capability\<close>, \<open>Schedule\<close>, \<open>Protocol\<close>: \<open>capability.rs\<close>, \<open>schedule.rs\<close> and \<open>protocol.rs\<close> of
    \<open>crates/gylo-core/src\<close>. The decoder is a state machine over bytes (interpretation \<open>decoder_inv\<close>); the
    locale \<open>framing\<close> is the contract of a framed stream, interpreted for the decoders of both sides
    (\<open>wire\<close>, \<open>child_wire\<close>).
  \<^item> \<open>Store\<close>: the tables of \<open>migrations/\<close>, their constraints and the insert trigger, as the record \<open>db\<close>; the
    relation \<open>row_step\<close> of what may happen to one row; the invariant \<open>db_inv\<close>.
  \<^item> \<open>Leasing\<close>, \<open>Admission\<close>, \<open>Recovery\<close>, \<open>Completion\<close>, \<open>Failure\<close>, \<open>CronTable\<close>, \<open>Retention\<close>: the operations
    of \<open>crates/gylo-pg/src/lib.rs\<close>, one definition per statement, each a function from the database to a
    result or error and a database. \<open>WorkQueue\<close>: the contract of a queue that hands a job out once, a
    locale interpreted for Postgres (\<open>pg_queue\<close>) and Redis (\<open>redis_queue\<close>).
  \<^item> \<open>Workflow\<close>, \<open>Client\<close>: \<open>python/gylo/_workflow.py\<close> and the insert of a unique job. \<open>Adapters\<close>,
    \<open>Application\<close>: the drivers of \<open>python/gylo/_adapters.py\<close>, and options, calls, registry, outcomes of
    \<open>python/gylo/__init__.py\<close>.
  \<^item> \<open>Statements\<close>: the backend as a whole. A step is any statement of any client, worker or operator at any
    time; \<open>reachable_db\<close> is what steps reach from the empty database (interpretation \<open>pg\<close>).
  \<^item> \<open>Redis\<close>: \<open>crates/gylo-redis/src/lib.rs\<close>, the Lua scripts over hashes and sorted sets.
  \<^item> \<open>Supervisor\<close>, \<open>Worker\<close>: \<open>crates/gylo-worker/src/lib.rs\<close>. Each turn of a loop - dispatching, collecting,
    renewing, recovering, pruning - is a function of the state, the clock and its surroundings: \<open>env\<close>
    says for each statement the time, the rows other sessions have locked, what they did before it,
    and whether it was refused or took effect without being acknowledged. The locale \<open>kept_by_worker\<close>
    follows the loops once for every relation between databases that the statements of a worker
    keep; it is used for being reached by statements (interpretation \<open>issued\<close>) and for leaving the jobs of
    other workers alone.
  \<^item> \<open>Child\<close>, \<open>Serving\<close>: the codec, the serving loop, the execution of a job and the step context of
    the child (\<open>_protocol.py\<close>, \<open>_worker.py\<close>, \<open>_steps.py\<close>).
  \<^item> \<open>Reports\<close>, \<open>Delivery\<close>, \<open>Durable\<close>, \<open>Journey\<close>, \<open>Session\<close>: the components together. \<open>Session\<close> is the
    state machine of \<open>run_session\<close> - dispatcher, collector, the channel of confirmations, renewal,
    shutdown, drain - with its invariant (interpretation \<open>sessions\<close>).
  \<^item> \<open>Text\<close>, \<open>Commands\<close>, \<open>Chaos\<close>: the command line (\<open>crates/gylo-cli\<close>) and the fault harness
    (\<open>crates/gylo-chaos\<close>).

  \<^bold>\<open>What is shown.\<close> Of the database: in every reachable state identifiers are distinct, every row
  satisfies its constraints, live unique keys are unique and every job counts at least its unfinished parents; every
  statement follows the life of a job; a report on jobs a worker no longer holds changes nothing. Of
  leasing: no job is handed out twice, limits of keys hold, the most urgent go first, keyed jobs
  do not starve. Of completion and failure: no pass hands out a job before its parents completed, the last parent
  wakes its child, discarding cancels exactly what is downstream, retries back off within bounds,
  expired leases are recovered. Of the worker: no loop disturbs a job another worker runs; every report ends on its
  row however its bytes are cut; no lease is left outside the in-flight set; with an accepted configuration
  nothing in flight is swept; a failing child stops the worker. Across all parts: a leased job
  ends as the child executed it; a confirmed step is never run again in a later attempt; what the client
  accepts can be dispatched; a repeated unique call finds the live job; an ended job stays as seen; declared
  schedules arrive; the drivers agree on single jobs and differ on workflows. The theorems about what the code does not do are the ones named as findings of
  the manifest; each states the behaviour of the code as it is.

  \<^bold>\<open>Parameters.\<close> Code outside the repository is an argument with its documented behaviour as a
  hypothesis: \<open>rmp_serde\<close> and \<open>msgspec\<close> (\<open>msgpack\<close>, \<open>msgspec\<close>, \<open>packs_agree\<close>: each decodes what the other
  encodes), \<open>cron\<close> and \<open>chrono_tz\<close> (\<open>cron_crate\<close>), random jitter, collations, the bodies of tasks, the
  values of Python and the digest of unique keys. Each theorem with such a hypothesis has a witness with a
  concrete instance.

  \<^bold>\<open>Choices.\<close> Times are integers and durations naturals, in microseconds (milliseconds for Redis); a
  delay is not negative. Identifiers, attempts, priorities and limits are words of their width, with
  range errors where Postgres raises them. A statement is atomic: Postgres runs each in a transaction and
  \<open>FOR UPDATE SKIP LOCKED\<close> shows as rows skipped; a Lua script is atomic in Redis. Strings are UTF-8 bytes.
  Loops that the code runs for ever are functions of the events they receive. The loop of the
  command \<open>prune\<close> terminates because each round removes jobs. The loop of \<open>retain\<close> ends with its time
  budget and not with its work, so it has fuel and returns \<open>None\<close> without; it is shown to return with any fuel
  that outlasts the budget. Where a statement may pick among rows or values - \<open>LIMIT\<close> without an order in the
  sweep, an identifier reported twice in one batch - the model takes the first. A turn of a loop is one event
  of a session, so a shutdown takes effect between turns, as in the code. The command \<open>prune\<close> is followed
  undisturbed. Whether \<open>executemany\<close> is one transaction is an attribute of the connection.

  \<^bold>\<open>Not modelled.\<close> \<open>observe.rs\<close>: counters without effect on jobs. \<open>listen\<close>: a notification only
  shortens the wait of a dispatcher that polls anyway; what is notified is in the model. \<open>connect\<close> and
  \<open>migrate\<close>: calls of \<open>sqlx\<close>; the schema they create is the empty database. Binding the socket, the
  handshake, spawning and killing processes, signals, the metrics endpoint, argument parsing, logging:
  operating-system effects, which appear as events. The capacity of the channels between tasks of the
  worker: it delays and loses nothing. \<open>load_app\<close>, threads for synchronous tasks and the
  scheduling of \<open>asyncio\<close>: the child serves its messages in order and its tasks report in any order. Indexes and
  query plans. Tests, benchmarks and examples.
\<close>

end
